(* ===== verification/Prelude.thy ===== *)
theory Prelude
  imports Main "HOL-Library.Word" "HOL-Library.Char_ord" "HOL-Library.List_Lexorder"
begin

text \<open>
  Shared vocabulary of the Lumenqraph development: the machine types of the Rust sources, a
  result type with its bind, the text operations of the Rust standard library that the sources
  call (decimal and hexadecimal formatting, integer parsing, UTF-8 validation, trimming), and
  the generic list lemmas the component theories use.

  A Rust \<^verbatim>\<open>String\<close> is modelled by its UTF-8 bytes, a HOL \<^typ>\<open>string\<close> of 8-bit characters;
  a \<^verbatim>\<open>u8\<close> slice is a list of \<^typ>\<open>8 word\<close>. A fallible Rust function returns \<open>'e + 'a\<close>, with
  \<^const>\<open>Inl\<close> for \<^verbatim>\<open>Err\<close> and \<^const>\<open>Inr\<close> for \<^verbatim>\<open>Ok\<close>.
\<close>

unbundle bit_operations_syntax

named_theorems codec_simps \<open>facts that evaluate printers against their parsers\<close>
named_theorems limb_simps \<open>values of limb arrays and of the operations on them\<close>

lemma find_SomeD: "find P xs = Some x \<Longrightarrow> x \<in> set xs \<and> P x"
  by (induction xs) (auto split: if_splits)

section \<open>Machine types\<close>

type_synonym u8 = "8 word"
type_synonym u16 = "16 word"
type_synonym u32 = "32 word"
type_synonym u64 = "64 word"
type_synonym u128 = "128 word"

abbreviation i64_of :: "u64 \<Rightarrow> int" where
  "i64_of w \<equiv> sint w"

section \<open>Results\<close>

fun bind_res :: "'e + 'a \<Rightarrow> ('a \<Rightarrow> 'e + 'b) \<Rightarrow> 'e + 'b" where
  "bind_res (Inl e) f = Inl e"
| "bind_res (Inr a) f = f a"

lemma bind_res_Inr_iff [simp]:
  "bind_res r f = Inr b \<longleftrightarrow> (\<exists>a. r = Inr a \<and> f a = Inr b)"
  by (cases r) auto

lemma bind_res_Inl_iff:
  "bind_res r f = Inl e \<longleftrightarrow> r = Inl e \<or> (\<exists>a. r = Inr a \<and> f a = Inl e)"
  by (cases r) auto

lemma bind_res_cong [fundef_cong]:
  "r = r' \<Longrightarrow> (\<And>a. r' = Inr a \<Longrightarrow> f a = g a) \<Longrightarrow> bind_res r f = bind_res r' g"
  by (cases r') auto

definition ok_or :: "'e \<Rightarrow> 'a option \<Rightarrow> 'e + 'a" where
  "ok_or e x = (case x of None \<Rightarrow> Inl e | Some a \<Rightarrow> Inr a)"

lemma ok_or_simps [simp]:
  "ok_or e None = Inl e" "ok_or e (Some a) = Inr a"
  "ok_or e x = Inr a \<longleftrightarrow> x = Some a"
  "ok_or e x = Inl e' \<longleftrightarrow> x = None \<and> e' = e"
  by (auto simp: ok_or_def split: option.splits)

text \<open>\<^verbatim>\<open>iter().map(f).collect::<Result<Vec<_>, _>>()\<close>: the first error wins.\<close>

fun map_res :: "('a \<Rightarrow> 'e + 'b) \<Rightarrow> 'a list \<Rightarrow> 'e + 'b list" where
  "map_res f [] = Inr []"
| "map_res f (x # xs) = bind_res (f x) (\<lambda>y. bind_res (map_res f xs) (\<lambda>ys. Inr (y # ys)))"

lemma map_res_cong [fundef_cong]:
  "xs = ys \<Longrightarrow> (\<And>x. x \<in> set ys \<Longrightarrow> f x = g x) \<Longrightarrow> map_res f xs = map_res g ys"
proof (induction xs arbitrary: ys)
  case (Cons x xs)
  then have "map_res f xs = map_res g xs" and "f x = g x"
    by auto
  with Cons.prems(1) show ?case by auto
qed simp

lemma map_res_Inr_iff:
  "map_res f xs = Inr ys \<longleftrightarrow> list_all2 (\<lambda>x y. f x = Inr y) xs ys"
  by (induction xs arbitrary: ys) (auto simp: list_all2_Cons1)

lemma map_res_length: "map_res f xs = Inr ys \<Longrightarrow> length ys = length xs"
  by (auto simp: map_res_Inr_iff list_all2_lengthD)

section \<open>Text\<close>

definition digit_char :: "nat \<Rightarrow> char" where
  "digit_char d = char_of (48 + d)"

definition is_ascii_digit :: "char \<Rightarrow> bool" where
  "is_ascii_digit c \<longleftrightarrow> 48 \<le> (of_char c :: nat) \<and> (of_char c :: nat) \<le> 57"

definition digit_val :: "char \<Rightarrow> nat" where
  "digit_val c = of_char c - 48"

lemma of_char_digit_char [simp]: "d < 10 \<Longrightarrow> of_char (digit_char d) = (48 + d :: nat)"
  by (simp add: digit_char_def of_char_of)

lemma is_ascii_digit_digit_char [simp]: "d < 10 \<Longrightarrow> is_ascii_digit (digit_char d)"
  by (simp add: is_ascii_digit_def)

lemma digit_val_digit_char [simp]: "d < 10 \<Longrightarrow> digit_val (digit_char d) = d"
  by (simp add: digit_val_def)

lemma digit_val_less: "is_ascii_digit c \<Longrightarrow> digit_val c < 10"
  by (auto simp: is_ascii_digit_def digit_val_def)

text \<open>\<^verbatim>\<open>n.to_string()\<close> for unsigned and signed integers.\<close>

fun show_nat :: "nat \<Rightarrow> string" where
  "show_nat n = (if n < 10 then [digit_char n] else show_nat (n div 10) @ [digit_char (n mod 10)])"

declare show_nat.simps [simp del]

definition show_int :: "int \<Rightarrow> string" where
  "show_int i = (if i < 0 then CHR ''-'' # show_nat (nat (- i)) else show_nat (nat i))"

text \<open>The value of a run of decimal digits, most significant first.\<close>

definition digits_value :: "string \<Rightarrow> nat" where
  "digits_value s = foldl (\<lambda>acc c. acc * 10 + digit_val c) 0 s"

lemma foldl_digits:
  "foldl (\<lambda>acc c. acc * 10 + digit_val c) a s = a * 10 ^ length s + digits_value s"
proof (induction s arbitrary: a)
  case (Cons c s)
  have "foldl (\<lambda>acc c. acc * 10 + digit_val c) a (c # s)
      = (a * 10 + digit_val c) * 10 ^ length s + digits_value s"
    using Cons.IH by simp
  moreover have "digits_value (c # s) = digit_val c * 10 ^ length s + digits_value s"
    using Cons.IH [of "digit_val c"] by (simp add: digits_value_def)
  ultimately show ?case
    by (simp add: algebra_simps)
qed (simp add: digits_value_def)

lemma digits_value_Nil [simp]: "digits_value [] = 0"
  by (simp add: digits_value_def)

lemma digits_value_append:
  "digits_value (s @ t) = digits_value s * 10 ^ length t + digits_value t"
  using foldl_digits [of "digits_value s" t] by (simp add: digits_value_def)

lemma digits_value_snoc [simp]: "digits_value (s @ [c]) = digits_value s * 10 + digit_val c"
  by (simp add: digits_value_def)

lemma digits_value_Cons:
  "digits_value (c # s) = digit_val c * 10 ^ length s + digits_value s"
proof -
  have "digits_value [c] = digit_val c"
    by (simp add: digits_value_def)
  then show ?thesis
    using digits_value_append [of "[c]" s] by simp
qed

lemma show_nat_digits: "set (show_nat n) \<subseteq> Collect is_ascii_digit"
proof (induction n rule: show_nat.induct)
  case (1 n)
  then show ?case
    by (cases "n < 10") (auto simp: show_nat.simps [of n])
qed

lemma show_nat_not_Nil [simp]: "show_nat n \<noteq> []"
  by (subst show_nat.simps) simp

lemma digits_value_show_nat [simp, codec_simps]: "digits_value (show_nat n) = n"
proof (induction n rule: show_nat.induct)
  case (1 n)
  then show ?case
    by (cases "n < 10")
      (auto simp: show_nat.simps [of n] digits_value_def)
qed

text \<open>\<^verbatim>\<open>s.parse::<uN>()\<close>: an optional \<^verbatim>\<open>+\<close>, at least one digit, in range.\<close>

definition strip_plus :: "string \<Rightarrow> string" where
  "strip_plus s = (case s of c # cs \<Rightarrow> if c = CHR ''+'' then cs else s | [] \<Rightarrow> [])"

definition parse_digits_nat :: "string \<Rightarrow> nat option" where
  "parse_digits_nat s =
     (if s \<noteq> [] \<and> list_all is_ascii_digit s then Some (digits_value s) else None)"

definition parse_unsigned :: "nat \<Rightarrow> string \<Rightarrow> nat option" where
  "parse_unsigned w s =
     (case parse_digits_nat (strip_plus s) of
        None \<Rightarrow> None
      | Some n \<Rightarrow> if n < 2 ^ w then Some n else None)"

definition parse_signed :: "nat \<Rightarrow> string \<Rightarrow> int option" where
  "parse_signed w s =
     (case s of
        c # cs \<Rightarrow>
          if c = CHR ''-'' then
            (case parse_digits_nat cs of
               None \<Rightarrow> None
             | Some n \<Rightarrow> if n \<le> 2 ^ (w - 1) then Some (- int n) else None)
          else
            (case parse_digits_nat (strip_plus s) of
               None \<Rightarrow> None
             | Some n \<Rightarrow> if n < 2 ^ (w - 1) then Some (int n) else None)
      | [] \<Rightarrow> None)"

lemma digit_not_sign:
  "is_ascii_digit c \<Longrightarrow> c \<noteq> CHR ''+''" "is_ascii_digit c \<Longrightarrow> c \<noteq> CHR ''-''"
  by (auto simp: is_ascii_digit_def)

lemma show_nat_Cons:
  obtains c cs where "show_nat n = c # cs" "is_ascii_digit c"
  using show_nat_digits [of n] show_nat_not_Nil [of n]
  by (cases "show_nat n") auto

lemma strip_plus_show_nat [simp, codec_simps]: "strip_plus (show_nat n) = show_nat n"
  by (rule show_nat_Cons [of n]) (simp add: strip_plus_def digit_not_sign)

lemma parse_digits_show_nat [simp, codec_simps]: "parse_digits_nat (show_nat n) = Some n"
  using show_nat_digits [of n] by (auto simp: parse_digits_nat_def list_all_iff)

lemma parse_unsigned_show [codec_simps]: "n < 2 ^ w \<Longrightarrow> parse_unsigned w (show_nat n) = Some n"
  by (simp add: parse_unsigned_def)

lemma parse_signed_show [codec_simps]:
  assumes "- (2 ^ (w - 1)) \<le> i" "i < 2 ^ (w - 1)"
  shows "parse_signed w (show_int i) = Some i"
proof (cases "i < 0")
  case True
  with assms(1) have "nat (- i) \<le> 2 ^ (w - 1)"
    by (simp add: nat_le_iff)
  with True show ?thesis
    by (simp add: parse_signed_def show_int_def)
next
  case False
  with assms(2) have "nat i < 2 ^ (w - 1)"
    by (simp add: nat_less_iff)
  moreover obtain c cs where c: "show_nat (nat i) = c # cs" "is_ascii_digit c"
    by (rule show_nat_Cons)
  moreover have "parse_digits_nat (strip_plus (c # cs)) = Some (nat i)"
    using c(1) strip_plus_show_nat [of "nat i"] parse_digits_show_nat [of "nat i"] by simp
  ultimately show ?thesis
    using False by (simp add: parse_signed_def show_int_def digit_not_sign)
qed

text \<open>\<^verbatim>\<open>format!("{b:02x}")\<close> over a byte slice.\<close>

definition hex_digit :: "nat \<Rightarrow> char" where
  "hex_digit d = (if d < 10 then char_of (48 + d) else char_of (87 + d))"

fun hex :: "u8 list \<Rightarrow> string" where
  "hex [] = []"
| "hex (b # bs) = hex_digit (unat b div 16) # hex_digit (unat b mod 16) # hex bs"

lemma length_hex [simp]: "length (hex bs) = 2 * length bs"
  by (induction bs) auto

lemma hex_digit_inj: "x < 16 \<Longrightarrow> y < 16 \<Longrightarrow> hex_digit x = hex_digit y \<Longrightarrow> x = y"
proof -
  assume x: "x < 16" and y: "y < 16" and eq: "hex_digit x = hex_digit y"
  have v: "of_char (hex_digit d) = (if d < 10 then 48 + d else 87 + d :: nat)" if "d < 16" for d
    using that by (simp add: hex_digit_def of_char_of)
  from eq have "(of_char (hex_digit x) :: nat) = of_char (hex_digit y)"
    by simp
  with v [OF x] v [OF y] x y show "x = y"
    by (auto split: if_splits)
qed

lemma hex_inj: "hex bs = hex cs \<Longrightarrow> bs = cs"
proof (induction bs arbitrary: cs)
  case Nil
  then show ?case by (cases cs) auto
next
  case (Cons b bs)
  then obtain c cs' where cs: "cs = c # cs'"
    by (cases cs) auto
  have lt: "unat b div 16 < 16" "unat c div 16 < 16"
    using unsigned_less [where 'a = nat, of b] unsigned_less [where 'a = nat, of c] by auto
  from Cons.prems cs have "unat b div 16 = unat c div 16" "unat b mod 16 = unat c mod 16"
    using hex_digit_inj lt by auto
  then have "unat b = unat c"
    by (metis div_mult_mod_eq)
  then have "b = c" by (simp add: word_unat_eq_iff)
  with Cons cs show ?case by auto
qed

text \<open>
  \<^verbatim>\<open>str::from_utf8\<close>: the well-formed byte sequences of the Unicode standard (no overlong
  forms, no surrogates, nothing above U+10FFFF).
\<close>

definition cont_byte :: "u8 \<Rightarrow> bool" where
  "cont_byte b \<longleftrightarrow> 0x80 \<le> b \<and> b \<le> 0xBF"

fun utf8_valid :: "u8 list \<Rightarrow> bool" where
  "utf8_valid [] = True"
| "utf8_valid (a # bs) =
     (if a < 0x80 then utf8_valid bs
      else if 0xC2 \<le> a \<and> a \<le> 0xDF then
        (case bs of b # r \<Rightarrow> cont_byte b \<and> utf8_valid r | _ \<Rightarrow> False)
      else if 0xE0 \<le> a \<and> a \<le> 0xEF then
        (case bs of b # c # r \<Rightarrow>
           cont_byte b \<and> cont_byte c
           \<and> (a = 0xE0 \<longrightarrow> 0xA0 \<le> b) \<and> (a = 0xED \<longrightarrow> b \<le> 0x9F) \<and> utf8_valid r
         | _ \<Rightarrow> False)
      else if 0xF0 \<le> a \<and> a \<le> 0xF4 then
        (case bs of b # c # d # r \<Rightarrow>
           cont_byte b \<and> cont_byte c \<and> cont_byte d
           \<and> (a = 0xF0 \<longrightarrow> 0x90 \<le> b) \<and> (a = 0xF4 \<longrightarrow> b \<le> 0x8F) \<and> utf8_valid r
         | _ \<Rightarrow> False)
      else False)"

definition text_of_bytes :: "u8 list \<Rightarrow> string" where
  "text_of_bytes bs = map (\<lambda>b. char_of (unat b)) bs"

definition bytes_of_text :: "string \<Rightarrow> u8 list" where
  "bytes_of_text s = map (\<lambda>c. of_nat (of_char c)) s"

definition from_utf8 :: "u8 list \<Rightarrow> string option" where
  "from_utf8 bs = (if utf8_valid bs then Some (text_of_bytes bs) else None)"

lemma of_char_less_256 [simp]: "(of_char c :: nat) < 256"
  by (cases c) (simp add: of_char_def horner_sum_simps of_bool_def)

lemma text_of_bytes_of_text [simp, codec_simps]: "text_of_bytes (bytes_of_text s) = s"
  by (induction s)
    (auto simp: text_of_bytes_def bytes_of_text_def unat_of_nat take_bit_nat_eq_self)

lemma bytes_of_text_of_bytes [simp, codec_simps]: "bytes_of_text (text_of_bytes bs) = bs"
proof (induction bs)
  case (Cons b bs)
  have "unat b < 256" using unsigned_less [where 'a = nat, of b] by simp
  with Cons show ?case
    by (simp add: text_of_bytes_def bytes_of_text_def of_char_of)
qed (simp add: text_of_bytes_def bytes_of_text_def)

lemma length_bytes_of_text [simp]: "length (bytes_of_text s) = length s"
  by (simp add: bytes_of_text_def)

text \<open>
  \<^verbatim>\<open>str::trim\<close>: strip the characters with the Unicode property White_Space, given here by their
  UTF-8 encodings, from both ends.
\<close>

definition ws_encodings :: "string list" where
  "ws_encodings =
     map (map char_of)
       ([[9], [10], [11], [12], [13], [32], [0xC2, 0x85], [0xC2, 0xA0], [0xE1, 0x9A, 0x80]]
        @ map (\<lambda>b. [0xE2, 0x80, b]) ([0x80..<0x8B] @ [0xA8, 0xA9, 0xAF])
        @ [[0xE2, 0x81, 0x9F], [0xE3, 0x80, 0x80 :: nat]])"

definition starts_with :: "string \<Rightarrow> string \<Rightarrow> bool" where
  "starts_with p s \<longleftrightarrow> take (length p) s = p"

function strip_prefixes :: "string list \<Rightarrow> string \<Rightarrow> string" where
  "strip_prefixes ps s =
     (case find (\<lambda>p. p \<noteq> [] \<and> starts_with p s) ps of
        None \<Rightarrow> s
      | Some p \<Rightarrow> strip_prefixes ps (drop (length p) s))"
  by pat_completeness auto
termination
proof (relation "measure (\<lambda>(ps, s). length s)")
  fix ps s p
  assume "find (\<lambda>p. p \<noteq> [] \<and> starts_with p s) ps = Some p"
  then have "p \<noteq> []" "starts_with p s"
    by (auto simp: find_Some_iff)
  then show "((ps, drop (length p) s), (ps, s)) \<in> measure (\<lambda>(ps, s). length s)"
    by (cases s) (auto simp: starts_with_def)
qed simp

declare strip_prefixes.simps [simp del]

definition trim :: "string \<Rightarrow> string" where
  "trim s =
     rev (strip_prefixes (map rev ws_encodings) (rev (strip_prefixes ws_encodings s)))"

lemma strip_prefixes_id:
  "(\<And>p. p \<in> set ps \<Longrightarrow> p = [] \<or> \<not> starts_with p s) \<Longrightarrow> strip_prefixes ps s = s"
proof (subst strip_prefixes.simps)
  assume "\<And>p. p \<in> set ps \<Longrightarrow> p = [] \<or> \<not> starts_with p s"
  then have "find (\<lambda>p. p \<noteq> [] \<and> starts_with p s) ps = None"
    by (auto simp: find_None_iff)
  then show "(case find (\<lambda>p. p \<noteq> [] \<and> starts_with p s) ps of
      None \<Rightarrow> s | Some p \<Rightarrow> strip_prefixes ps (drop (length p) s)) = s"
    by simp
qed

lemma starts_with_hd: "starts_with p (c # s) \<Longrightarrow> p \<noteq> [] \<Longrightarrow> hd p = c"
  by (cases p) (auto simp: starts_with_def)

lemma strip_ws_graphic:
  assumes "32 < (of_char c :: nat)" "(of_char c :: nat) < 128"
  shows "strip_prefixes ws_encodings (c # s) = c # s"
    and "strip_prefixes (map rev ws_encodings) (c # s) = c # s"
proof -
  have "\<forall>p \<in> set ws_encodings. p \<noteq> [] \<and> \<not> (32 < (of_char (hd p) :: nat) \<and> (of_char (hd p) :: nat) < 128)
      \<and> \<not> (32 < (of_char (last p) :: nat) \<and> (of_char (last p) :: nat) < 128)"
    by (auto simp: ws_encodings_def of_char_of)
  then have *: "\<not> starts_with p (c # s) \<and> \<not> starts_with (rev p) (c # s)" if "p \<in> set ws_encodings" for p
    using assms that starts_with_hd [of p c s] starts_with_hd [of "rev p" c s]
    by (auto simp: hd_rev)
  show "strip_prefixes ws_encodings (c # s) = c # s"
    and "strip_prefixes (map rev ws_encodings) (c # s) = c # s"
    by (rule strip_prefixes_id; use * in auto)+
qed

text \<open>Text that begins and ends with a visible ASCII character is not trimmed.\<close>

lemma trim_graphic:
  assumes "s \<noteq> []" "32 < (of_char (hd s) :: nat)" "(of_char (hd s) :: nat) < 128"
    "32 < (of_char (last s) :: nat)" "(of_char (last s) :: nat) < 128"
  shows "trim s = s"
proof -
  obtain c cs where s: "s = c # cs" using assms(1) by (cases s) auto
  have "strip_prefixes ws_encodings s = s"
    using assms s strip_ws_graphic(1) [of c cs] by simp
  moreover obtain d ds where r: "rev s = d # ds" using assms(1) by (cases "rev s") auto
  then have "d = last s" by (metis hd_rev list.sel(1))
  then have "strip_prefixes (map rev ws_encodings) (rev s) = rev s"
    using assms(4,5) strip_ws_graphic(2) [of d ds] unfolding r by simp
  ultimately show ?thesis
    by (simp add: trim_def)
qed

lemma trim_show_nat [simp, codec_simps]: "trim (show_nat n) = show_nat n"
proof (rule trim_graphic)
  have "hd (show_nat n) \<in> Collect is_ascii_digit" "last (show_nat n) \<in> Collect is_ascii_digit"
    by (rule subsetD [OF show_nat_digits [of n]], simp)+
  then show "32 < (of_char (hd (show_nat n)) :: nat)" "(of_char (hd (show_nat n)) :: nat) < 128"
    "32 < (of_char (last (show_nat n)) :: nat)" "(of_char (last (show_nat n)) :: nat) < 128"
    by (auto simp: is_ascii_digit_def)
qed simp

lemma trim_neg_show_nat [simp, codec_simps]:
  "trim (CHR ''-'' # show_nat n) = CHR ''-'' # show_nat n"
proof (rule trim_graphic)
  have "last (show_nat n) \<in> Collect is_ascii_digit"
    by (rule subsetD [OF show_nat_digits [of n]], simp)+
  then show "32 < (of_char (last (CHR ''-'' # show_nat n)) :: nat)"
    "(of_char (last (CHR ''-'' # show_nat n)) :: nat) < 128"
    by (auto simp: is_ascii_digit_def)
qed simp_all

fun split_on :: "char \<Rightarrow> string \<Rightarrow> string list" where
  "split_on d [] = [[]]"
| "split_on d (c # cs) =
     (if c = d then [] # split_on d cs
      else (case split_on d cs of [] \<Rightarrow> [[c]] | w # ws \<Rightarrow> (c # w) # ws))"

text \<open>\<^verbatim>\<open>[..].join(sep)\<close>.\<close>

fun join :: "string \<Rightarrow> string list \<Rightarrow> string" where
  "join sep [] = []"
| "join sep [x] = x"
| "join sep (x # y # xs) = x @ sep @ join sep (y # xs)"

text \<open>
  \<^verbatim>\<open>str::to_lowercase\<close>. Only characters whose lower-case form contains ASCII matter to the
  sources, which compare the result with ASCII literals: the letters A-Z, the Kelvin sign and
  the dotted capital I; every other character is left as it is.
\<close>

fun to_lowercase :: "string \<Rightarrow> string" where
  "to_lowercase [] = []"
| "to_lowercase (c # cs) =
     (if 65 \<le> (of_char c :: nat) \<and> (of_char c :: nat) \<le> 90
        then char_of (of_char c + 32 :: nat) # to_lowercase cs
      else if starts_with (map char_of [0xE2, 0x84, 0xAA :: nat]) (c # cs)
        then CHR ''k'' # to_lowercase (drop 2 cs)
      else if starts_with (map char_of [0xC4, 0xB0 :: nat]) (c # cs)
        then CHR ''i'' # char_of (0xCC :: nat) # char_of (0x87 :: nat) # to_lowercase (drop 1 cs)
      else c # to_lowercase cs)"

text \<open>\<^verbatim>\<open>str::to_ascii_lowercase\<close>.\<close>

definition to_ascii_lowercase :: "string \<Rightarrow> string" where
  "to_ascii_lowercase s =
     map (\<lambda>c. if 65 \<le> (of_char c :: nat) \<and> (of_char c :: nat) \<le> 90 then char_of (of_char c + 32 :: nat) else c) s"

section \<open>Slices in chunks\<close>

text \<open>\<^verbatim>\<open>slice.chunks(n)\<close>, for \<open>n > 0\<close>.\<close>

function chunks_of :: "nat \<Rightarrow> 'a list \<Rightarrow> 'a list list" where
  "chunks_of n xs = (if n = 0 \<or> xs = [] then [] else take n xs # chunks_of n (drop n xs))"
  by pat_completeness auto
termination by (relation "measure (\<lambda>(n, xs). length xs)") auto

declare chunks_of.simps [simp del]

lemma concat_chunks: "0 < n \<Longrightarrow> concat (chunks_of n xs) = xs"
  by (induction n xs rule: chunks_of.induct) (subst chunks_of.simps, auto)

lemma chunks_bounds: "0 < n \<Longrightarrow> ch \<in> set (chunks_of n xs) \<Longrightarrow> ch \<noteq> [] \<and> length ch \<le> n"
proof (induction n xs rule: chunks_of.induct)
  case (1 n xs)
  then show ?case by (subst (asm) (2) chunks_of.simps) (auto split: if_splits)
qed

lemma length_chunks: "0 < n \<Longrightarrow> length xs \<le> k * n \<Longrightarrow> length (chunks_of n xs) \<le> k"
proof (induction k arbitrary: xs)
  case (Suc k)
  then show ?case by (subst chunks_of.simps) auto
qed (simp add: chunks_of.simps)

lemma fold_chunks: "0 < n \<Longrightarrow> fold (fold f) (chunks_of n xs) = fold f xs"
proof -
  have "fold (fold f) yss = fold f (concat yss)" for yss by (induction yss) auto
  then show "0 < n \<Longrightarrow> fold (fold f) (chunks_of n xs) = fold f xs" by (simp add: concat_chunks)
qed

end
