(* ===== verification/Dictionaries.thy ===== *)
theory Dictionaries
  imports Prelude "HOL-Library.AList" "HOL-Library.Multiset"
begin

text \<open>
  The two dictionary types of the sources. A \<^verbatim>\<open>BTreeMap\<close> (also the representation of
  \<^verbatim>\<open>serde_json::Map\<close>, whose \<^verbatim>\<open>preserve_order\<close> feature the workspace does not enable) iterates
  in ascending key order: it is a strictly key-sorted association list. A \<^verbatim>\<open>HashMap\<close> iterates
  in an order the program cannot rely on: it is an association list with distinct keys, and a
  loop over it takes the visiting order as a parameter.

  The locale \<open>dict\<close> is the contract both give their clients: what a lookup returns after an
  insertion, and the invariant. Its lemmas describe loops that fill a dictionary, either
  overwriting (\<^verbatim>\<open>insert\<close>, the last binding wins) or not (\<^verbatim>\<open>entry(..).or_insert(..)\<close>, the first
  binding wins).
\<close>

section \<open>The contract\<close>

locale dict =
  fixes empty :: "'m"
    and insert :: "'k \<Rightarrow> 'v \<Rightarrow> 'm \<Rightarrow> 'm"
    and get :: "'m \<Rightarrow> 'k \<Rightarrow> 'v option"
    and inv :: "'m \<Rightarrow> bool"
  assumes get_empty: "get empty k = None"
    and get_insert: "inv m \<Longrightarrow> get (insert k v m) = (get m)(k \<mapsto> v)"
    and inv_empty: "inv empty"
    and inv_insert: "inv m \<Longrightarrow> inv (insert k v m)"
begin

lemma inv_fold_insert:
  "inv m \<Longrightarrow> inv (fold (\<lambda>x. insert (kf x) (vf x)) xs m)"
  by (induction xs arbitrary: m) (auto simp: inv_insert)

lemma get_fold_insert:
  "inv m \<Longrightarrow> get (fold (\<lambda>x. insert (kf x) (vf x)) xs m)
     = get m ++ map_of (rev (map (\<lambda>x. (kf x, vf x)) xs))"
proof (induction xs arbitrary: m)
  case (Cons x xs)
  then show ?case
    by (simp add: inv_insert get_insert map_add_upd_left map_add_assoc [symmetric] fun_eq_iff map_add_def
        split: option.splits)
qed simp

lemma or_insert_fold:
  "inv m \<Longrightarrow>
     inv (fold (\<lambda>x m. if get m (kf x) = None then insert (kf x) (vf x) m else m) xs m) \<and>
     get (fold (\<lambda>x m. if get m (kf x) = None then insert (kf x) (vf x) m else m) xs m)
     = map_of (map (\<lambda>x. (kf x, vf x)) xs) ++ get m"
proof (induction xs arbitrary: m)
  case (Cons x xs)
  show ?case
  proof (cases "get m (kf x) = None")
    case True
    with Cons.IH [of "insert (kf x) (vf x) m"] Cons.prems show ?thesis
      by (auto simp: inv_insert get_insert fun_eq_iff map_add_def split: option.splits)
  next
    case False
    with Cons.IH [of m] Cons.prems show ?thesis
      by (auto simp: fun_eq_iff map_add_def split: option.splits)
  qed
qed simp

lemmas inv_fold_or_insert = or_insert_fold [THEN conjunct1]
lemmas get_fold_or_insert = or_insert_fold [THEN conjunct2]

end

section \<open>BTreeMap\<close>

type_synonym ('k, 'v) btree_map = "('k \<times> 'v) list"

abbreviation bt_inv :: "('k::linorder \<times> 'v) list \<Rightarrow> bool" where
  "bt_inv m \<equiv> sorted_wrt (<) (map fst m)"

fun bt_insert :: "'k::linorder \<Rightarrow> 'v \<Rightarrow> ('k, 'v) btree_map \<Rightarrow> ('k, 'v) btree_map" where
  "bt_insert k v [] = [(k, v)]"
| "bt_insert k v ((k', v') # m) =
     (if k < k' then (k, v) # (k', v') # m
      else if k = k' then (k, v) # m
      else (k', v') # bt_insert k v m)"

abbreviation bt_get :: "('k \<times> 'v) list \<Rightarrow> 'k \<Rightarrow> 'v option" where
  "bt_get m \<equiv> map_of m"

definition bt_keys :: "('k \<times> 'v) list \<Rightarrow> 'k list" where
  "bt_keys m = map fst m"

lemma bt_insert_keys: "set (map fst (bt_insert k v m)) = Set.insert k (set (map fst m))"
  by (induction k v m rule: bt_insert.induct) auto

lemma bt_insert_inv: "bt_inv m \<Longrightarrow> bt_inv (bt_insert k v m)"
proof (induction m)
  case (Cons p m)
  obtain k' v' where p: "p = (k', v')" by (cases p)
  have "set (map fst (bt_insert k v m)) = Set.insert k (set (map fst m))"
    by (rule bt_insert_keys)
  with Cons p show ?case
    by (auto dest: order.strict_trans)
qed simp

lemma bt_get_insert: "bt_get (bt_insert k v m) = (bt_get m)(k \<mapsto> v)"
  by (induction m) (auto simp: fun_eq_iff)

interpretation btree: dict "[]" bt_insert bt_get bt_inv
  by unfold_locales (auto simp: bt_get_insert bt_insert_inv simp del: map_map)

text \<open>\<^verbatim>\<open>iter().collect::<BTreeMap<_, _>>()\<close>: insert the pairs in order.\<close>

definition bt_of_list :: "('k::linorder \<times> 'v) list \<Rightarrow> ('k, 'v) btree_map" where
  "bt_of_list kvs = fold (\<lambda>x. bt_insert (fst x) (snd x)) kvs []"

lemma bt_of_list_inv: "bt_inv (bt_of_list kvs)"
  unfolding bt_of_list_def by (rule btree.inv_fold_insert [OF btree.inv_empty])

lemma bt_get_of_list: "bt_get (bt_of_list kvs) = map_of (rev kvs)"
  unfolding bt_of_list_def by (simp add: btree.get_fold_insert [OF btree.inv_empty])

lemma bt_inv_distinct: "bt_inv m \<Longrightarrow> distinct (map fst m)"
  by (simp add: strict_sorted_iff)

text \<open>A sorted association list is determined by its lookups.\<close>

lemma bt_eqI:
  assumes "bt_inv m" "bt_inv m'" "bt_get m = bt_get m'"
  shows "m = m'"
proof -
  have d: "distinct (map fst m)" "distinct (map fst m')"
    using assms(1,2) by (auto dest: bt_inv_distinct)
  have "set m = set m'"
    using assms(3) d by (metis map_of_inject_set)
  moreover have "sorted (map fst m)" "sorted (map fst m')"
    using assms(1,2) by (auto simp: strict_sorted_iff)
  moreover have "inj_on fst (set m \<union> set m')"
    using \<open>set m = set m'\<close> d(1) by (simp add: distinct_map)
  ultimately show ?thesis
    using d by (intro map_sorted_distinct_set_unique [of fst]) auto
qed

lemma bt_of_list_sorted: "bt_inv m \<Longrightarrow> bt_of_list m = m"
proof (rule bt_eqI)
  assume m: "bt_inv m"
  have "distinct (map fst (rev m))"
    using bt_inv_distinct [OF m] by (simp flip: rev_map)
  then show "bt_get (bt_of_list m) = bt_get m"
    using bt_inv_distinct [OF m]
    by (metis bt_get_of_list map_of_inject_set set_rev)
qed (auto simp: bt_of_list_inv)

section \<open>HashMap\<close>

type_synonym ('k, 'v) hash_map = "('k \<times> 'v) list"

abbreviation hm_inv :: "('k \<times> 'v) list \<Rightarrow> bool" where
  "hm_inv m \<equiv> distinct (map fst m)"

abbreviation hm_insert :: "'k \<Rightarrow> 'v \<Rightarrow> ('k \<times> 'v) list \<Rightarrow> ('k \<times> 'v) list" where
  "hm_insert k v m \<equiv> AList.update k v m"

abbreviation hm_get :: "('k \<times> 'v) list \<Rightarrow> 'k \<Rightarrow> 'v option" where
  "hm_get m \<equiv> map_of m"

definition hm_or_insert :: "'k \<Rightarrow> 'v \<Rightarrow> ('k, 'v) hash_map \<Rightarrow> ('k, 'v) hash_map" where
  "hm_or_insert k v m = (if hm_get m k = None then hm_insert k v m else m)"

interpretation hashm: dict "[]" hm_insert hm_get hm_inv
  by unfold_locales (auto simp: update_conv' distinct_update)

text \<open>
  A visiting order for a hash map: any function that returns the entries of its argument, each
  once, in some order.
\<close>

definition visits :: "(('k \<times> 'v) list \<Rightarrow> ('k \<times> 'v) list) \<Rightarrow> bool" where
  "visits it \<longleftrightarrow> (\<forall>m. mset (it m) = mset m)"

lemma visits_set: "visits it \<Longrightarrow> set (it m) = set m"
  unfolding visits_def by (metis set_mset_mset)

lemma visits_distinct: "visits it \<Longrightarrow> hm_inv m \<Longrightarrow> hm_inv (it m)"
  unfolding visits_def by (metis mset_eq_imp_distinct_iff mset_map)

end
