(* ===== verification/Json.thy ===== *)
theory Json
  imports Dictionaries
begin

text \<open>
  The JSON values of \<^verbatim>\<open>serde_json\<close> as the sources use them: the six kinds of \<^verbatim>\<open>Value\<close>, the
  three kinds of \<^verbatim>\<open>Number\<close>, the accessors (\<^verbatim>\<open>as_str\<close>, \<^verbatim>\<open>as_array\<close>, \<^verbatim>\<open>get\<close>, ...) and objects, which
  are key-sorted maps. \<^verbatim>\<open>jobj\<close> is the object the \<^verbatim>\<open>json!\<close> macro builds.
\<close>

text \<open>A float is kept by its IEEE bit pattern: the sources never compute with one.\<close>

datatype json_number = PosInt u64 | NegInt u64 | Float u64

datatype json =
    Null
  | Bool bool
  | Number json_number
  | Str string
  | Array "json list"
  | Object "(string \<times> json) list"

definition jobj :: "(string \<times> json) list \<Rightarrow> json" where
  "jobj kvs = Object (bt_of_list kvs)"

fun as_bool :: "json \<Rightarrow> bool option" where
  "as_bool (Bool b) = Some b"
| "as_bool _ = None"

fun as_str :: "json \<Rightarrow> string option" where
  "as_str (Str s) = Some s"
| "as_str _ = None"

fun as_u64 :: "json \<Rightarrow> u64 option" where
  "as_u64 (Number (PosInt n)) = Some n"
| "as_u64 _ = None"

fun as_array :: "json \<Rightarrow> json list option" where
  "as_array (Array a) = Some a"
| "as_array _ = None"

fun as_object :: "json \<Rightarrow> (string \<times> json) list option" where
  "as_object (Object m) = Some m"
| "as_object _ = None"

definition is_null :: "json \<Rightarrow> bool" where
  "is_null v \<longleftrightarrow> v = Null"

fun jget :: "string \<Rightarrow> json \<Rightarrow> json option" where
  "jget k (Object m) = bt_get m k"
| "jget k _ = None"

text \<open>\<^verbatim>\<open>Number::to_string\<close> for the integral kinds.\<close>

fun int_text :: "json \<Rightarrow> string option" where
  "int_text (Number (PosInt n)) = Some (show_nat (unat n))"
| "int_text (Number (NegInt n)) = Some (show_int (sint n))"
| "int_text _ = None"

lemma as_str_Some [simp]: "as_str v = Some s \<longleftrightarrow> v = Str s"
  by (cases v) auto

lemma as_array_Some [simp]: "as_array v = Some a \<longleftrightarrow> v = Array a"
  by (cases v) auto

lemma as_object_Some [simp]: "as_object v = Some m \<longleftrightarrow> v = Object m"
  by (cases v) auto

lemma as_bool_Some [simp]: "as_bool v = Some b \<longleftrightarrow> v = Bool b"
  by (cases v) auto

lemma as_u64_Some [simp]: "as_u64 v = Some n \<longleftrightarrow> v = Number (PosInt n)"
  by (cases v rule: as_u64.cases) auto

lemma jget_Some: "jget k v = Some x \<longleftrightarrow> (\<exists>m. v = Object m \<and> bt_get m k = Some x)"
  by (cases v) auto

section \<open>Sizes\<close>

text \<open>
  \<open>jsize\<close> counts the nodes of a value, object keys included: it decreases from a container to
  any element, entry or key, which is what the recursion over typed values needs.
\<close>

fun jsize :: "json \<Rightarrow> nat" where
  "jsize (Array a) = Suc (sum_list (map jsize a))"
| "jsize (Object m) = Suc (sum_list (map (\<lambda>p. 1 + jsize (snd p)) m))"
| "jsize _ = 1"

lemma jsize_pos [simp]: "0 < jsize v"
  by (cases v) auto

lemma jsize_elem: "x \<in> set a \<Longrightarrow> jsize x < jsize (Array a)"
  using member_le_sum_list [of "jsize x" "map jsize a"] by auto

lemma jsize_entry: "(k, x) \<in> set m \<Longrightarrow> jsize x < jsize (Object m)"
  using member_le_sum_list [of "1 + jsize x" "map (\<lambda>p. 1 + jsize (snd p)) m"] by force

lemma jsize_key: "(k, x) \<in> set m \<Longrightarrow> jsize (Str k) < jsize (Object m)"
  using jsize_entry [of k x m] jsize_pos [of x] by (simp del: jsize_pos)

lemma jsize_get: "jget k v = Some x \<Longrightarrow> jsize x < jsize v"
  by (auto simp: jget_Some dest!: map_of_SomeD jsize_entry)

lemmas jsize_less = jsize_elem jsize_entry jsize_key jsize_get

section \<open>Well-formed objects\<close>

text \<open>Every object that the program builds is a sorted map at every depth.\<close>

fun json_wf :: "json \<Rightarrow> bool" where
  "json_wf (Array a) = (\<forall>x \<in> set a. json_wf x)"
| "json_wf (Object m) = (bt_inv m \<and> (\<forall>p \<in> set m. json_wf (snd p)))"
| "json_wf _ = True"

lemma bt_insert_values:
  "p \<in> set (bt_insert k v m) \<Longrightarrow> p = (k, v) \<or> p \<in> set m"
  by (induction k v m rule: bt_insert.induct) (auto split: if_splits)

lemma bt_of_list_values: "p \<in> set (bt_of_list kvs) \<Longrightarrow> p \<in> set kvs"
proof -
  have *: "p \<in> set (fold (\<lambda>x. bt_insert (fst x) (snd x)) kvs m) \<Longrightarrow> p \<in> set kvs \<or> p \<in> set m" for m
  proof (induction kvs arbitrary: m)
    case (Cons x kvs)
    then show ?case using bt_insert_values [of p "fst x" "snd x" m] by auto
  qed simp
  show "p \<in> set (bt_of_list kvs) \<Longrightarrow> p \<in> set kvs"
    using * [of "[]"] by (simp add: bt_of_list_def)
qed

lemma json_wf_jobj [simp]: "list_all (\<lambda>p. json_wf (snd p)) kvs \<Longrightarrow> json_wf (jobj kvs)"
  by (auto simp: jobj_def bt_of_list_inv list_all_iff dest!: bt_of_list_values)

end
