(* ===== verification/Int256.thy ===== *)
theory Int256
  imports Json
begin

text \<open>
  The 128-bit and 256-bit integers of the XDR dialect. Rust has no 256-bit type, so the sources
  work on arrays of four big-endian 64-bit limbs with 128-bit intermediates, in two places that
  must agree: the decoder prints limbs in decimal (\<^verbatim>\<open>u256_to_decimal\<close>, \<^verbatim>\<open>i256_to_decimal\<close> of
  \<^verbatim>\<open>xdr.rs\<close>), the read layer parses decimal text into limbs (\<^verbatim>\<open>parse_u256\<close>, \<^verbatim>\<open>parse_i256\<close> of
  \<^verbatim>\<open>read.rs\<close>). A limb array is a list of \<^typ>\<open>u64\<close>; each loop over it is a recursion in the loop's
  direction, with the carry or remainder at its Rust width.
\<close>

section \<open>Data\<close>

datatype uint128_parts = UInt128Parts u64 u64
datatype int128_parts = Int128Parts u64 u64
datatype uint256_parts = UInt256Parts u64 u64 u64 u64
datatype int256_parts = Int256Parts u64 u64 u64 u64

text \<open>The errors of the read layer (\<^verbatim>\<open>EncodeError\<close>).\<close>

datatype encode_error =
    FunctionNotFound string
  | MissingArgument string
  | UnknownArgument string string
  | WrongArity nat nat
  | BadArgument string string
  | UnsupportedType string string
  | Build string

section \<open>Printing\<close>

definition u128_to_string :: "uint128_parts \<Rightarrow> string" where
  "u128_to_string p = (case p of UInt128Parts hi lo \<Rightarrow>
     show_nat (unat (push_bit 64 (ucast hi :: u128) OR ucast lo)))"

definition i128_to_string :: "int128_parts \<Rightarrow> string" where
  "i128_to_string p = (case p of Int128Parts hi lo \<Rightarrow>
     show_int (sint (push_bit 64 (scast hi :: u128) OR ucast lo)))"

definition CHUNK :: nat where
  "CHUNK = 10 ^ 19"

text \<open>One pass of the inner loop of \<^verbatim>\<open>u256_to_decimal\<close>: divide the limbs by \<^verbatim>\<open>CHUNK\<close>.\<close>

fun div_chunk :: "u128 \<Rightarrow> u64 list \<Rightarrow> u64 list \<times> u128" where
  "div_chunk rem [] = ([], rem)"
| "div_chunk rem (limb # limbs) =
     (let cur = push_bit 64 rem OR ucast limb;
          limb' = ucast (cur div of_nat CHUNK);
          (limbs', rem') = div_chunk (cur mod of_nat CHUNK) limbs
      in (limb' # limbs', rem'))"

text \<open>\<open>limbs_val\<close> is the number a limb array stands for; it is the measure of the outer loop.\<close>

fun limbs_val :: "u64 list \<Rightarrow> nat" where
  "limbs_val [] = 0"
| "limbs_val (l # ls) = unat l * 2 ^ (64 * length ls) + limbs_val ls"

lemma limbs_val_less: "limbs_val ls < 2 ^ (64 * length ls)"
proof (induction ls)
  case (Cons l ls)
  have "unat l < 2 ^ 64"
    using unsigned_less [where 'a = nat, of l] by simp
  then have "unat l * 2 ^ (64 * length ls) + limbs_val ls < (unat l + 1) * 2 ^ (64 * length ls)"
    using Cons by simp
  also have "\<dots> \<le> 2 ^ 64 * 2 ^ (64 * length ls)"
    using \<open>unat l < 2 ^ 64\<close> by (intro mult_right_mono) auto
  finally show ?case
    by (simp add: power_add)
qed simp

lemma limbs_val_inj:
  "length xs = length ys \<Longrightarrow> limbs_val xs = limbs_val ys \<Longrightarrow> xs = ys"
proof (induction xs ys rule: list_induct2)
  case (Cons x xs y ys)
  let ?B = "2 ^ (64 * length ys) :: nat"
  from Cons have eq: "unat x * ?B + limbs_val xs = unat y * ?B + limbs_val ys"
    by simp
  have b: "limbs_val xs < ?B" "limbs_val ys < ?B"
    using limbs_val_less [of xs] limbs_val_less [of ys] Cons.hyps by auto
  have "(unat x * ?B + limbs_val xs) div ?B = unat x" "(unat y * ?B + limbs_val ys) div ?B = unat y"
    using b by auto
  with eq have "unat x = unat y" by simp
  with eq Cons show ?case by (simp add: word_unat_eq_iff)
qed simp

lemma limbs_val_0_iff: "limbs_val ls = 0 \<longleftrightarrow> list_all (\<lambda>l. l = 0) ls"
  by (induction ls) (auto simp: unat_eq_0)

lemma unat_ucast_64_128 [limb_simps]: "unat (ucast (l :: u64) :: u128) = unat l"
  by (simp add: unsigned_ucast_eq take_bit_nat_eq_self unsigned_less [THEN order.strict_trans])

lemma unat_ucast_128_64 [limb_simps]: "unat (ucast (a :: u128) :: u64) = unat a mod 2 ^ 64"
  by (simp add: unsigned_ucast_eq take_bit_eq_mod)

lemma unat_shift_or:
  assumes "unat (r :: u128) < 2 ^ 64"
  shows "unat (push_bit 64 r OR ucast (l :: u64)) = unat r * 2 ^ 64 + unat l"
proof -
  have l: "unat l < 2 ^ 64"
    using unsigned_less [where 'a = nat, of l] by simp
  have "push_bit 64 r AND ucast l = (0 :: u128)"
    by (rule bit_eqI) (auto simp: bit_simps dest: bit_imp_le_length)
  then have "push_bit 64 r OR ucast l = push_bit 64 r + (ucast l :: u128)"
    by (rule disjunctive_add_eq_or [symmetric])
  moreover have p: "unat (push_bit 64 r) = unat r * 2 ^ 64"
    using assms by (simp add: push_bit_eq_mult unat_word_ariths)
  moreover have "unat (push_bit 64 r) + unat (ucast l :: u128) < 2 ^ 128"
    using assms l p by (simp add: unat_ucast_64_128)
  ultimately show ?thesis
    by (simp add: unat_word_ariths unat_ucast_64_128)
qed

lemma unat_CHUNK: "unat (of_nat CHUNK :: u128) = CHUNK"
  by (simp add: CHUNK_def)

lemma div_chunk_correct:
  assumes "unat rem < CHUNK"
  shows "length (fst (div_chunk rem ls)) = length ls
    \<and> limbs_val (fst (div_chunk rem ls)) = (unat rem * 2 ^ (64 * length ls) + limbs_val ls) div CHUNK
    \<and> unat (snd (div_chunk rem ls)) = (unat rem * 2 ^ (64 * length ls) + limbs_val ls) mod CHUNK"
  using assms
proof (induction ls arbitrary: rem)
  case Nil
  then show ?case by simp
next
  case (Cons l ls)
  define cur where "cur = push_bit 64 rem OR (ucast l :: u128)"
  define q where "q = unat cur div CHUNK"
  define r where "r = unat cur mod CHUNK"
  let ?P = "2 ^ (64 * length ls) :: nat"
  have C: "CHUNK < 2 ^ 64" "0 < CHUNK"
    by (auto simp: CHUNK_def)
  have l: "unat l < 2 ^ 64"
    using unsigned_less [where 'a = nat, of l] by simp
  have cur: "unat cur = unat rem * 2 ^ 64 + unat l"
    unfolding cur_def by (rule unat_shift_or) (use Cons.prems C in linarith)
  have "unat cur < CHUNK * 2 ^ 64"
  proof -
    have "unat rem * 2 ^ 64 + unat l < (unat rem + 1) * 2 ^ 64"
      using l by simp
    also have "\<dots> \<le> CHUNK * 2 ^ 64"
      using Cons.prems by (intro mult_right_mono) auto
    finally show ?thesis using cur by simp
  qed
  then have q: "q < 2 ^ 64"
    unfolding q_def using C by (simp add: less_mult_imp_div_less mult.commute)
  have ur: "unat (cur mod of_nat CHUNK) = r"
    by (simp add: unat_mod unat_CHUNK r_def)
  have uq: "unat (ucast (cur div of_nat CHUNK) :: u64) = q"
    using q by (simp add: unat_ucast_128_64 unat_div unat_CHUNK q_def)
  have IH: "length (fst (div_chunk (cur mod of_nat CHUNK) ls)) = length ls"
    "limbs_val (fst (div_chunk (cur mod of_nat CHUNK) ls)) = (r * ?P + limbs_val ls) div CHUNK"
    "unat (snd (div_chunk (cur mod of_nat CHUNK) ls)) = (r * ?P + limbs_val ls) mod CHUNK"
    using Cons.IH [of "cur mod of_nat CHUNK"] C ur by (auto simp: r_def)
  have "(unat rem * 2 ^ 64 + unat l) * ?P = (q * CHUNK + r) * ?P"
    using cur by (simp add: q_def r_def)
  then have total: "unat rem * 2 ^ (64 * length (l # ls)) + limbs_val (l # ls)
      = (q * ?P) * CHUNK + (r * ?P + limbs_val ls)"
    by (simp add: power_add algebra_simps)
  have step: "div_chunk rem (l # ls)
      = (ucast (cur div of_nat CHUNK) # fst (div_chunk (cur mod of_nat CHUNK) ls),
         snd (div_chunk (cur mod of_nat CHUNK) ls))"
    by (simp add: cur_def Let_def split_beta)
  show ?case
    unfolding step total using C IH uq by (simp add: add.commute)
qed

text \<open>The outer loop: the remainders, least significant chunk first.\<close>

function u256_chunks :: "u64 list \<Rightarrow> u64 list" where
  "u256_chunks limbs =
     (let (limbs', rem) = div_chunk 0 limbs
      in if list_all (\<lambda>l. l = 0) limbs' then [ucast rem]
         else ucast rem # u256_chunks limbs')"
  by pat_completeness auto
termination
proof (relation "measure limbs_val")
  fix limbs x limbs' rem
  assume x: "x = div_chunk 0 limbs" "(limbs', rem) = x"
    and nz: "\<not> list_all (\<lambda>l. l = 0) limbs'"
  have "limbs' = fst (div_chunk 0 limbs)"
    using x by (metis fst_conv)
  then have v: "limbs_val limbs' = limbs_val limbs div CHUNK"
    using div_chunk_correct [of 0 limbs] by (simp add: CHUNK_def)
  moreover have "limbs_val limbs' \<noteq> 0"
    using nz by (simp add: limbs_val_0_iff)
  ultimately show "(limbs', limbs) \<in> measure limbs_val"
    by (auto simp: CHUNK_def intro: div_less_dividend)
qed simp

declare u256_chunks.simps [simp del]

text \<open>\<^verbatim>\<open>format!("{c:019}")\<close>.\<close>

definition pad_to :: "nat \<Rightarrow> nat \<Rightarrow> string" where
  "pad_to w n = replicate (w - length (show_nat n)) CHR ''0'' @ show_nat n"

definition u256_to_decimal :: "uint256_parts \<Rightarrow> string" where
  "u256_to_decimal p = (case p of UInt256Parts hi_hi hi_lo lo_hi lo_lo \<Rightarrow>
     (case rev (u256_chunks [hi_hi, hi_lo, lo_hi, lo_lo]) of
        [] \<Rightarrow> show_nat 0
      | c # cs \<Rightarrow> show_nat (unat c) @ concat (map (\<lambda>c. pad_to 19 (unat c)) cs)))"

text \<open>The carry loop of \<^verbatim>\<open>i256_to_decimal\<close>, from the last limb to the first.\<close>

fun add_carry :: "u64 list \<Rightarrow> u128 \<Rightarrow> u64 list \<times> u128" where
  "add_carry [] carry = ([], carry)"
| "add_carry (limb # limbs) carry =
     (let (limbs', c) = add_carry limbs carry;
          sum = ucast limb + c
      in (ucast sum # limbs', drop_bit 64 sum))"

definition i256_to_decimal :: "int256_parts \<Rightarrow> string" where
  "i256_to_decimal p = (case p of Int256Parts hi_hi hi_lo lo_hi lo_lo \<Rightarrow>
     if \<not> sint hi_hi < 0 then u256_to_decimal (UInt256Parts hi_hi hi_lo lo_hi lo_lo)
     else (case fst (add_carry (map not [hi_hi, hi_lo, lo_hi, lo_lo]) 1) of
             [a, b, c, d] \<Rightarrow> CHR ''-'' # u256_to_decimal (UInt256Parts a b c d)
           | _ \<Rightarrow> []))"

section \<open>Parsing\<close>

type_synonym limbs = "u64 list"

definition i128_parts :: "u128 \<Rightarrow> int128_parts" where
  "i128_parts n = Int128Parts (ucast (drop_bit 64 n)) (ucast n)"

definition u128_parts :: "u128 \<Rightarrow> uint128_parts" where
  "u128_parts n = UInt128Parts (ucast (drop_bit 64 n)) (ucast n)"

fun mul10_add_go :: "u64 list \<Rightarrow> u128 \<Rightarrow> u64 list \<times> u128" where
  "mul10_add_go [] carry = ([], carry)"
| "mul10_add_go (limb # limbs) carry =
     (let (limbs', c) = mul10_add_go limbs carry;
          acc = ucast limb * 10 + c
      in (ucast acc # limbs', drop_bit 64 acc))"

definition mul10_add :: "limbs \<Rightarrow> u8 \<Rightarrow> limbs option" where
  "mul10_add limbs digit =
     (let (out, carry) = mul10_add_go limbs (ucast digit)
      in if carry = 0 then Some out else None)"

text \<open>\<^verbatim>\<open>negate\<close> leaves its loop as soon as the carry is zero.\<close>

fun negate_go :: "u64 list \<Rightarrow> u128 \<Rightarrow> u64 list \<times> u128" where
  "negate_go [] carry = ([], carry)"
| "negate_go (limb # limbs) carry =
     (let (limbs', c) = negate_go limbs carry
      in if c = 0 then (limb # limbs', 0)
         else let acc = ucast limb + c in (ucast acc # limbs', drop_bit 64 acc))"

definition negate :: "limbs \<Rightarrow> limbs" where
  "negate limbs = fst (negate_go (map not limbs) 1)"

fun parse_digits_loop :: "string \<Rightarrow> string \<Rightarrow> limbs \<Rightarrow> encode_error + limbs" where
  "parse_digits_loop name [] limbs = Inr limbs"
| "parse_digits_loop name (b # bs) limbs =
     bind_res
       (ok_or (BadArgument name ''integer out of range for 256 bits'')
          (mul10_add limbs (of_nat (digit_val b))))
       (parse_digits_loop name bs)"

definition parse_digits :: "string \<Rightarrow> string \<Rightarrow> encode_error + limbs" where
  "parse_digits s name =
     (if s = [] \<or> \<not> list_all is_ascii_digit s
      then Inl (BadArgument name ''expected a decimal integer'')
      else parse_digits_loop name s [0, 0, 0, 0])"

definition text_of_int :: "json \<Rightarrow> string \<Rightarrow> encode_error + string" where
  "text_of_int v name =
     (case v of
        Str s \<Rightarrow> Inr (trim s)
      | _ \<Rightarrow> ok_or (BadArgument name ''expected a 256-bit integer as a decimal string'') (int_text v))"

definition parse_u256 :: "json \<Rightarrow> string \<Rightarrow> encode_error + limbs" where
  "parse_u256 v name =
     bind_res (text_of_int v name) (\<lambda>s.
       if starts_with ''-'' s then Inl (BadArgument name ''expected an unsigned integer'')
       else parse_digits (strip_plus s) name)"

text \<open>\<^verbatim>\<open>strip_prefix(['-', '+'])\<close>: at most one leading sign.\<close>

definition strip_sign :: "string \<Rightarrow> string" where
  "strip_sign s = (case s of c # cs \<Rightarrow> if c = CHR ''-'' \<or> c = CHR ''+'' then cs else s | [] \<Rightarrow> [])"

definition parse_i256 :: "json \<Rightarrow> string \<Rightarrow> encode_error + limbs" where
  "parse_i256 v name =
     bind_res (text_of_int v name) (\<lambda>s.
       let negative = starts_with ''-'' s in
       bind_res (parse_digits (strip_sign s) name) (\<lambda>limbs.
         let top = (hd limbs AND push_bit 63 1 \<noteq> 0);
             is_min = (top \<and> tl limbs = [0, 0, 0] \<and> hd limbs = push_bit 63 1)
         in if \<not> negative \<and> top then Inl (BadArgument name ''integer out of range for i256'')
            else if negative \<and> top \<and> \<not> is_min
              then Inl (BadArgument name ''integer out of range for i256'')
            else if negative then Inr (negate limbs)
            else Inr limbs))"

definition u256_parts :: "limbs \<Rightarrow> uint256_parts" where
  "u256_parts l = UInt256Parts (l ! 0) (l ! 1) (l ! 2) (l ! 3)"

definition i256_parts :: "limbs \<Rightarrow> int256_parts" where
  "i256_parts l = Int256Parts (l ! 0) (l ! 1) (l ! 2) (l ! 3)"

section \<open>Printing is canonical\<close>

lemma digit_char_0: "digit_char 0 = CHR ''0''"
  by code_simp

lemma pad_to_Suc:
  assumes "0 < k"
  shows "pad_to (Suc k) m = pad_to k (m div 10) @ [digit_char (m mod 10)]"
proof (cases "m < 10")
  case True
  obtain j where "k = Suc j" using assms by (cases k) auto
  with True show ?thesis
    by (simp add: pad_to_def show_nat.simps [of m] show_nat.simps [of 0] digit_char_0
        replicate_append_same)
next
  case False
  then show ?thesis
    by (simp add: pad_to_def show_nat.simps [of m])
qed

lemma show_nat_split:
  "10 ^ Suc k \<le> n \<Longrightarrow> show_nat n = show_nat (n div 10 ^ Suc k) @ pad_to (Suc k) (n mod 10 ^ Suc k)"
proof (induction k arbitrary: n)
  case 0
  then show ?case
    by (simp add: show_nat.simps [of n] pad_to_def show_nat.simps [of "n mod 10"])
next
  case (Suc k)
  have "(1 :: nat) \<le> 10 ^ Suc k" "10 * 10 ^ Suc k \<le> n"
    using Suc.prems by auto
  then have n: "\<not> n < 10" "10 ^ Suc k \<le> n div 10"
    by (linarith, simp add: less_eq_div_iff_mult_less_eq)
  have dv: "n div 10 div 10 ^ Suc k = n div 10 ^ Suc (Suc k)"
    by (simp flip: div_mult2_eq)
  have md: "n div 10 mod 10 ^ Suc k = n mod 10 ^ Suc (Suc k) div 10"
    "n mod 10 = n mod 10 ^ Suc (Suc k) mod 10"
    using mod_mult2_eq [of n 10 "10 ^ Suc k"] by (auto simp: mod_mod_cancel)
  have "show_nat n = show_nat (n div 10) @ [digit_char (n mod 10)]"
    using n(1) by (subst show_nat.simps) simp
  also have "\<dots> = show_nat (n div 10 ^ Suc (Suc k))
      @ pad_to (Suc k) (n mod 10 ^ Suc (Suc k) div 10) @ [digit_char (n mod 10 ^ Suc (Suc k) mod 10)]"
    using Suc.IH [OF n(2)] dv md by simp
  finally show ?case
    by (simp add: pad_to_Suc [of "Suc k"])
qed

definition render_chunks :: "u64 list \<Rightarrow> string" where
  "render_chunks cs = (case rev cs of [] \<Rightarrow> show_nat 0
     | c # cs \<Rightarrow> show_nat (unat c) @ concat (map (\<lambda>c. pad_to 19 (unat c)) cs))"

lemma render_chunks_Cons:
  "cs \<noteq> [] \<Longrightarrow> render_chunks (c # cs) = render_chunks cs @ pad_to 19 (unat c)"
  by (cases "rev cs") (auto simp: render_chunks_def)

lemma u256_chunks_not_Nil: "u256_chunks ls \<noteq> []"
  by (subst u256_chunks.simps) (simp add: split_beta)

lemma render_chunks_val: "render_chunks (u256_chunks ls) = show_nat (limbs_val ls)"
proof (induction ls rule: u256_chunks.induct)
  case (1 ls)
  define qs r where "qs = fst (div_chunk 0 ls)" and "r = snd (div_chunk 0 ls)"
  have v: "limbs_val qs = limbs_val ls div CHUNK" "unat r = limbs_val ls mod CHUNK"
    using div_chunk_correct [of 0 ls] by (auto simp: qs_def r_def CHUNK_def)
  have r: "unat (ucast r :: u64) = limbs_val ls mod CHUNK"
    by (simp add: unat_ucast_128_64 v CHUNK_def)
  have eq: "u256_chunks ls = (if list_all (\<lambda>l. l = 0) qs then [ucast r] else ucast r # u256_chunks qs)"
    by (subst u256_chunks.simps) (simp add: qs_def r_def split_beta)
  show ?case
  proof (cases "list_all (\<lambda>l. l = 0) qs")
    case True
    then have "limbs_val ls div CHUNK = 0"
      using v(1) by (simp add: limbs_val_0_iff flip: v)
    then have "limbs_val ls mod CHUNK = limbs_val ls"
      by (metis add_0 div_mult_mod_eq mult_0)
    with True r eq show ?thesis
      by (simp add: render_chunks_def)
  next
    case False
    then have "render_chunks (u256_chunks qs) = show_nat (limbs_val ls div CHUNK)"
      using "1.IH" [of "div_chunk 0 ls" qs r] v(1) by (simp add: qs_def r_def)
    moreover have "limbs_val ls div CHUNK \<noteq> 0"
      using False v(1) by (simp add: limbs_val_0_iff [symmetric])
    then have "10 ^ Suc 18 \<le> limbs_val ls"
      by (auto simp: CHUNK_def div_eq_0_iff)
    ultimately show ?thesis
      using False eq r show_nat_split [of 18 "limbs_val ls"]
      by (simp add: render_chunks_Cons u256_chunks_not_Nil CHUNK_def)
  qed
qed

definition u256_val :: "uint256_parts \<Rightarrow> nat" where
  "u256_val p = (case p of UInt256Parts a b c d \<Rightarrow> limbs_val [a, b, c, d])"

definition i256_val :: "int256_parts \<Rightarrow> int" where
  "i256_val p = (case p of Int256Parts a b c d \<Rightarrow>
     if sint a < 0 then int (limbs_val [a, b, c, d]) - 2 ^ 256 else int (limbs_val [a, b, c, d]))"

lemma u256_to_decimal_val: "u256_to_decimal p = show_nat (u256_val p)"
proof (cases p)
  case (UInt256Parts a b c d)
  have "u256_to_decimal p = render_chunks (u256_chunks [a, b, c, d])"
    by (simp add: u256_to_decimal_def UInt256Parts render_chunks_def)
  then show ?thesis
    by (simp only: render_chunks_val) (simp add: u256_val_def UInt256Parts)
qed

section \<open>Carries\<close>

lemma unat_drop_64 [limb_simps]: "unat (drop_bit 64 (a :: u128)) = unat a div 2 ^ 64"
  by (simp only: unat_drop_bit_eq) (simp add: drop_bit_eq_div)

lemma mul10_add_go_correct:
  assumes "unat c < 10"
  shows "length (fst (mul10_add_go ls c)) = length ls \<and> unat (snd (mul10_add_go ls c)) < 10
    \<and> limbs_val (fst (mul10_add_go ls c)) + unat (snd (mul10_add_go ls c)) * 2 ^ (64 * length ls)
      = limbs_val ls * 10 + unat c"
proof (induction ls)
  case Nil
  with assms show ?case by simp
next
  case (Cons l ls)
  define ls' c' where "ls' = fst (mul10_add_go ls c)" and "c' = snd (mul10_add_go ls c)"
  define acc where "acc = (ucast l :: u128) * 10 + c'"
  let ?P = "2 ^ (64 * length ls) :: nat"
  have IH: "length ls' = length ls" "unat c' < 10" "limbs_val ls' + unat c' * ?P = limbs_val ls * 10 + unat c"
    using Cons.IH by (auto simp: ls'_def c'_def)
  have l: "unat l < 2 ^ 64"
    using unsigned_less [where 'a = nat, of l] by simp
  then have "unat ((ucast l :: u128) * 10) = unat l * 10"
    by (simp add: unat_word_ariths limb_simps)
  then have acc: "unat acc = unat l * 10 + unat c'"
    using l IH(2) by (simp add: acc_def unat_word_ariths)
  have hi: "unat (drop_bit 64 acc) = unat acc div 2 ^ 64"
    by (rule unat_drop_64)
  have sp: "unat (ucast acc :: u64) + unat (drop_bit 64 acc) * 2 ^ 64 = unat l * 10 + unat c'"
    using acc hi by (simp add: limb_simps)
  have step: "mul10_add_go (l # ls) c = (ucast acc # ls', drop_bit 64 acc)"
    by (simp add: acc_def ls'_def c'_def split_beta Let_def)
  have "unat (drop_bit 64 acc) < 10"
    using hi acc l IH(2) by simp
  moreover have "(unat (ucast acc :: u64) + unat (drop_bit 64 acc) * 2 ^ 64) * ?P + limbs_val ls'
      = (unat l * 10 + unat c') * ?P + limbs_val ls'"
    by (simp only: sp)
  ultimately show ?case
    using IH unfolding step by (simp add: power_add algebra_simps)
qed

lemma mul10_add_correct:
  assumes "d < 10" "length ls = 4"
  shows "mul10_add ls (of_nat d) =
      (if limbs_val ls * 10 + d < 2 ^ 256 then Some (fst (mul10_add_go ls (of_nat d))) else None)"
    and "limbs_val ls * 10 + d < 2 ^ 256 \<Longrightarrow>
      limbs_val (fst (mul10_add_go ls (of_nat d))) = limbs_val ls * 10 + d"
    and "length (fst (mul10_add_go ls (of_nat d))) = 4"
proof -
  define out c where "out = fst (mul10_add_go ls (of_nat d))" and "c = snd (mul10_add_go ls (of_nat d))"
  have d: "unat (of_nat d :: u128) = d" "(ucast (of_nat d :: u8) :: u128) = of_nat d"
    using assms(1)
    by (auto simp: unat_of_nat take_bit_nat_eq_self word_unat_eq_iff unsigned_ucast_eq)
  have *: "length out = 4" "limbs_val out + unat c * 2 ^ 256 = limbs_val ls * 10 + d"
    using mul10_add_go_correct [of "of_nat d" ls] assms d by (auto simp: out_def c_def)
  have "limbs_val out < 2 ^ 256"
    using limbs_val_less [of out] *(1) by simp
  then have c: "c = 0 \<longleftrightarrow> limbs_val ls * 10 + d < 2 ^ 256"
    using *(2) by (cases "unat c") (auto simp: unat_eq_0)
  show "mul10_add ls (of_nat d) =
      (if limbs_val ls * 10 + d < 2 ^ 256 then Some (fst (mul10_add_go ls (of_nat d))) else None)"
    using c d by (simp add: mul10_add_def split_beta out_def c_def)
  show "length (fst (mul10_add_go ls (of_nat d))) = 4"
    using *(1) by (simp add: out_def)
  show "limbs_val (fst (mul10_add_go ls (of_nat d))) = limbs_val ls * 10 + d"
    if "limbs_val ls * 10 + d < 2 ^ 256"
    using * c that by (simp add: out_def)
qed

lemma parse_digits_loop_correct:
  assumes "length ls = 4" "list_all is_ascii_digit s"
  shows "if limbs_val ls * 10 ^ length s + digits_value s < 2 ^ 256
      then \<exists>out. parse_digits_loop name s ls = Inr out \<and> length out = 4
        \<and> limbs_val out = limbs_val ls * 10 ^ length s + digits_value s
      else parse_digits_loop name s ls = Inl (BadArgument name ''integer out of range for 256 bits'')"
  using assms
proof (induction s arbitrary: ls)
  case Nil
  then show ?case
    using limbs_val_less [of ls] by simp
next
  case (Cons b s)
  define d where "d = digit_val b"
  define out where "out = fst (mul10_add_go ls (of_nat d))"
  let ?V = "limbs_val ls * 10 ^ length (b # s) + digits_value (b # s)"
  have d: "d < 10"
    using Cons.prems by (simp add: d_def digit_val_less)
  have V: "?V = (limbs_val ls * 10 + d) * 10 ^ length s + digits_value s"
    by (simp add: digits_value_Cons d_def algebra_simps)
  have m: "mul10_add ls (of_nat d) = (if limbs_val ls * 10 + d < 2 ^ 256 then Some out else None)"
    "limbs_val ls * 10 + d < 2 ^ 256 \<Longrightarrow> limbs_val out = limbs_val ls * 10 + d" "length out = 4"
    using mul10_add_correct [OF d Cons.prems(1)] by (auto simp: out_def)
  show ?case
  proof (cases "limbs_val ls * 10 + d < 2 ^ 256")
    case True
    then show ?thesis
      using Cons.IH [of out] Cons.prems(2) m V by (auto simp: d_def split: if_splits)
  next
    case False
    have "limbs_val ls * 10 + d \<le> (limbs_val ls * 10 + d) * 10 ^ length s"
      by simp
    with False have "\<not> ?V < 2 ^ 256"
      unfolding V by linarith
    moreover have "parse_digits_loop name (b # s) ls
        = Inl (BadArgument name ''integer out of range for 256 bits'')"
      using False m(1) by (simp add: d_def)
    ultimately show ?thesis
      by (simp only: if_False)
  qed
qed

lemma parse_digits_correct:
  assumes "parse_digits_nat s = Some n"
  shows "if n < 2 ^ 256
      then \<exists>out. parse_digits s name = Inr out \<and> length out = 4 \<and> limbs_val out = n
      else parse_digits s name = Inl (BadArgument name ''integer out of range for 256 bits'')"
proof -
  from assms have s: "s \<noteq> []" "list_all is_ascii_digit s" "n = digits_value s"
    by (auto simp: parse_digits_nat_def split: if_splits)
  then show ?thesis
    using parse_digits_loop_correct [of "[0, 0, 0, 0]" s name]
    by (auto simp: parse_digits_def split: if_splits)
qed

lemma parse_digits_bad:
  "parse_digits_nat s = None \<Longrightarrow> parse_digits s name = Inl (BadArgument name ''expected a decimal integer'')"
  by (auto simp: parse_digits_nat_def parse_digits_def split: if_splits)

lemma parse_digits_show:
  assumes "n < 2 ^ 256"
  obtains out where "parse_digits (show_nat n) name = Inr out" "length out = 4" "limbs_val out = n"
  using parse_digits_correct [OF parse_digits_show_nat, of n name] assms by auto

section \<open>Negation\<close>

lemma unat_not_64: "unat (not (l :: u64)) = 2 ^ 64 - 1 - unat l"
proof -
  have "l \<le> - 1" by (rule word_n1_ge)
  moreover have "not l = - 1 - l" by (simp add: not_eq_complement)
  ultimately show ?thesis
    by (simp add: unat_sub unsigned_minus_1_eq_mask mask_eq_exp_minus_1)
qed

lemma limbs_val_not: "limbs_val (map not ls) + limbs_val ls + 1 = 2 ^ (64 * length ls)"
proof (induction ls)
  case (Cons l ls)
  let ?P = "2 ^ (64 * length ls) :: nat"
  have l: "unat l < 2 ^ 64"
    using unsigned_less [where 'a = nat, of l] by simp
  have "limbs_val (map not (l # ls)) + limbs_val (l # ls) + 1
      = (2 ^ 64 - 1 - unat l) * ?P + unat l * ?P + (limbs_val (map not ls) + limbs_val ls + 1)"
    by (simp add: unat_not_64)
  also have "\<dots> = (2 ^ 64 - 1 - unat l + unat l) * ?P + ?P"
    using Cons.IH by (simp only: add_mult_distrib)
  also have "\<dots> = 2 ^ 64 * ?P"
    using l by (simp add: algebra_simps)
  finally show ?case
    by (simp add: power_add)
qed simp

lemma add_carry_correct:
  assumes "unat c \<le> 1"
  shows "length (fst (add_carry ls c)) = length ls \<and> unat (snd (add_carry ls c)) \<le> 1
    \<and> limbs_val (fst (add_carry ls c)) + unat (snd (add_carry ls c)) * 2 ^ (64 * length ls)
      = limbs_val ls + unat c"
proof (induction ls)
  case Nil
  with assms show ?case by simp
next
  case (Cons l ls)
  define ls' c' where "ls' = fst (add_carry ls c)" and "c' = snd (add_carry ls c)"
  define acc where "acc = (ucast l :: u128) + c'"
  let ?P = "2 ^ (64 * length ls) :: nat"
  have IH: "length ls' = length ls" "unat c' \<le> 1" "limbs_val ls' + unat c' * ?P = limbs_val ls + unat c"
    using Cons.IH by (auto simp: ls'_def c'_def)
  have l: "unat l < 2 ^ 64"
    using unsigned_less [where 'a = nat, of l] by simp
  then have acc: "unat acc = unat l + unat c'"
    using IH(2) by (simp add: acc_def unat_word_ariths limb_simps)
  have sp: "unat (ucast acc :: u64) + unat (drop_bit 64 acc) * 2 ^ 64 = unat l + unat c'"
    using acc by (simp add: limb_simps)
  have step: "add_carry (l # ls) c = (ucast acc # ls', drop_bit 64 acc)"
    by (simp add: acc_def ls'_def c'_def split_beta Let_def)
  have "unat (drop_bit 64 acc) \<le> 1"
    using acc l IH(2) by (simp add: limb_simps)
  moreover have "(unat (ucast acc :: u64) + unat (drop_bit 64 acc) * 2 ^ 64) * ?P + limbs_val ls'
      = (unat l + unat c') * ?P + limbs_val ls'"
    by (simp only: sp)
  ultimately show ?case
    using IH unfolding step by (simp add: power_add algebra_simps)
qed

text \<open>Leaving the loop early changes nothing: a zero carry leaves the remaining limbs alone.\<close>

lemma negate_go_add_carry: "negate_go ls c = add_carry ls c"
proof (induction ls)
  case (Cons l ls)
  show ?case
  proof (cases "snd (add_carry ls c) = 0")
    case True
    have "unat l < 2 ^ 64"
      using unsigned_less [where 'a = nat, of l] by simp
    then have "(ucast (ucast l :: u128) :: u64) = l" "drop_bit 64 (ucast l :: u128) = 0"
      by (simp_all only: word_unat_eq_iff limb_simps) simp_all
    with Cons True show ?thesis
      by (simp add: split_beta Let_def)
  next
    case False
    with Cons show ?thesis
      by (simp add: split_beta Let_def)
  qed
qed simp

lemma negate_val:
  assumes "length ls = 4"
  shows "length (negate ls) = 4"
    and "limbs_val (negate ls) = (2 ^ 256 - limbs_val ls) mod 2 ^ 256"
proof -
  define out c where "out = fst (add_carry (map not ls) 1)" and "c = snd (add_carry (map not ls) 1)"
  have len: "length out = 4" and eq: "limbs_val out + unat c * 2 ^ 256 = limbs_val (map not ls) + 1"
    using add_carry_correct [of 1 "map not ls"] assms by (auto simp: out_def c_def)
  have lt: "limbs_val out < 2 ^ 256"
    using limbs_val_less [of out] len by simp
  have "limbs_val (map not ls) + 1 = 2 ^ 256 - limbs_val ls"
    using limbs_val_not [of ls] assms by simp
  with eq lt have "limbs_val out = (2 ^ 256 - limbs_val ls) mod 2 ^ 256"
    by (metis mod_less mod_mult_self3 add.commute)
  then show "length (negate ls) = 4" "limbs_val (negate ls) = (2 ^ 256 - limbs_val ls) mod 2 ^ 256"
    using len by (simp_all add: negate_def negate_go_add_carry out_def)
qed

section \<open>Signed values\<close>

lemma bit_63_iff: "bit (a :: u64) 63 \<longleftrightarrow> 2 ^ 63 \<le> unat a"
proof -
  have "bit a 63 \<longleftrightarrow> bit (unat a) 63"
    by (simp add: bit_unsigned_iff)
  also have "\<dots> \<longleftrightarrow> odd (unat a div 2 ^ 63)"
    by (rule bit_iff_odd)
  also have "\<dots> \<longleftrightarrow> 2 ^ 63 \<le> unat a"
  proof -
    have "unat a div 2 ^ 63 < 2"
      using unsigned_less [where 'a = nat, of a] by (simp add: less_mult_imp_div_less)
    then have "unat a div 2 ^ 63 = 0 \<or> unat a div 2 ^ 63 = 1" by auto
    moreover have "unat a div 2 ^ 63 = 0 \<longleftrightarrow> unat a < 2 ^ 63"
      by (simp add: div_eq_0_iff)
    ultimately show ?thesis by (auto simp: not_less)
  qed
  finally show ?thesis .
qed

lemma sint_neg_iff: "sint (a :: u64) < 0 \<longleftrightarrow> 2 ^ 63 \<le> unat a"
  using bit_last_iff [of a] bit_63_iff [of a] by simp

lemma top_bit_iff: "(a :: u64) AND push_bit 63 1 \<noteq> 0 \<longleftrightarrow> 2 ^ 63 \<le> unat a"
  by (simp only: bit_iff_and_push_bit_not_eq_0 [symmetric] bit_63_iff)

text \<open>Four limbs stand for at least \<open>2 ^ 255\<close> exactly when the top bit is set.\<close>

lemma limbs4_cases:
  assumes "length ls = 4"
  obtains a b c d where "ls = [a, b, c, d]"
  using assms by (auto simp: length_Suc_conv numeral_eq_Suc)

lemma limbs_top: "2 ^ 63 \<le> unat a \<longleftrightarrow> 2 ^ 255 \<le> limbs_val [a, b, c, d]"
proof
  assume "2 ^ 63 \<le> unat a"
  then have "2 ^ 63 * 2 ^ 192 \<le> unat a * 2 ^ 192"
    by (intro mult_right_mono) auto
  then show "2 ^ 255 \<le> limbs_val [a, b, c, d]"
    by simp
next
  assume v: "2 ^ 255 \<le> limbs_val [a, b, c, d]"
  show "2 ^ 63 \<le> unat a"
  proof (rule ccontr)
    assume "\<not> 2 ^ 63 \<le> unat a"
    then have "unat a * 2 ^ 192 \<le> (2 ^ 63 - 1) * 2 ^ 192"
      by (intro mult_right_mono) auto
    moreover have "limbs_val [b, c, d] < 2 ^ 192"
      using limbs_val_less [of "[b, c, d]"] by simp
    ultimately show False
      using v by simp
  qed
qed

lemma sint_neg_limbs: "sint a < 0 \<longleftrightarrow> 2 ^ 255 \<le> limbs_val [a, b, c, d]"
  by (simp only: sint_neg_iff limbs_top)

lemma i256_val_eq:
  "length ls = 4 \<Longrightarrow> i256_val (i256_parts ls) =
     (if limbs_val ls < 2 ^ 255 then int (limbs_val ls) else int (limbs_val ls) - 2 ^ 256)"
proof (erule limbs4_cases)
  fix a b c d assume "ls = [a, b, c, d]"
  then show ?thesis
    using sint_neg_limbs [of a b c d]
    by (auto simp: i256_val_def i256_parts_def simp del: limbs_val.simps)
qed

lemma i256_val_range: "length ls = 4 \<Longrightarrow> - (2 ^ 255) \<le> i256_val (i256_parts ls)"
    "length ls = 4 \<Longrightarrow> i256_val (i256_parts ls) < 2 ^ 255"
  using limbs_val_less [of ls] by (auto simp: i256_val_eq)

lemma i256_val_inj:
  assumes "length xs = 4" "length ys = 4" "i256_val (i256_parts xs) = i256_val (i256_parts ys)"
  shows "xs = ys"
proof (rule limbs_val_inj)
  show "limbs_val xs = limbs_val ys"
    using assms limbs_val_less [of xs] limbs_val_less [of ys]
    by (auto simp: i256_val_eq split: if_splits)
qed (use assms in simp)

lemma i256_to_decimal_val: "i256_to_decimal p = show_int (i256_val p)"
proof (cases p)
  case (Int256Parts a b c d)
  let ?ls = "[a, b, c, d]"
  have v: "i256_val p = (if sint a < 0 then int (limbs_val ?ls) - 2 ^ 256 else int (limbs_val ?ls))"
    by (simp add: i256_val_def Int256Parts del: limbs_val.simps)
  show ?thesis
  proof (cases "sint a < 0")
    case True
    have n: "length (negate ?ls) = 4" "limbs_val (negate ?ls) = (2 ^ 256 - limbs_val ?ls) mod 2 ^ 256"
      using negate_val [of ?ls] by auto
    obtain a' b' c' d' where neg: "negate ?ls = [a', b', c', d']"
      by (rule limbs4_cases [OF n(1)])
    have lt: "limbs_val ?ls < 2 ^ 256" "2 ^ 255 \<le> limbs_val ?ls"
      using limbs_val_less [of ?ls] True sint_neg_limbs [of a b c d]
      by (auto simp del: limbs_val.simps)
    then have "limbs_val [a', b', c', d'] = 2 ^ 256 - limbs_val ?ls"
      using n(2) unfolding neg by simp
    moreover have "i256_to_decimal p = CHR ''-'' # show_nat (limbs_val [a', b', c', d'])"
      using True neg
      by (simp add: i256_to_decimal_def Int256Parts u256_to_decimal_val u256_val_def
          negate_def negate_go_add_carry del: limbs_val.simps)
    ultimately show ?thesis
      using True v lt by (simp add: show_int_def nat_diff_distrib' del: limbs_val.simps)
  next
    case False
    then show ?thesis
      using v by (simp add: i256_to_decimal_def Int256Parts u256_to_decimal_val u256_val_def
          show_int_def del: limbs_val.simps)
  qed
qed

lemma parse_u256_iff:
  "parse_u256 (Str s) name = Inr ls
     \<longleftrightarrow> length ls = 4 \<and> parse_unsigned 256 (trim s) = Some (limbs_val ls)"
proof (cases "starts_with ''-'' (trim s)")
  case True
  then have "parse_unsigned 256 (trim s) = None"
    by (cases "trim s")
      (auto simp: parse_unsigned_def parse_digits_nat_def strip_plus_def starts_with_def
        dest: digit_not_sign)
  with True show ?thesis
    by (simp add: parse_u256_def text_of_int_def)
next
  case False
  then have eq: "parse_u256 (Str s) name = parse_digits (strip_plus (trim s)) name"
    by (simp add: parse_u256_def text_of_int_def)
  show ?thesis
  proof (cases "parse_digits_nat (strip_plus (trim s))")
    case None
    then show ?thesis
      by (simp add: eq parse_digits_bad parse_unsigned_def)
  next
    case (Some n)
    show ?thesis
      using parse_digits_correct [OF Some, of name] limbs_val_inj [of _ ls]
      by (auto simp: eq parse_unsigned_def Some split: if_splits)
  qed
qed

lemma parse_i256_Str:
  "parse_i256 (Str s) name =
     bind_res (parse_digits (strip_sign (trim s)) name) (\<lambda>ls.
       if starts_with ''-'' (trim s)
       then (if limbs_val ls \<le> 2 ^ 255 then Inr (negate ls)
             else Inl (BadArgument name ''integer out of range for i256''))
       else (if limbs_val ls < 2 ^ 255 then Inr ls
             else Inl (BadArgument name ''integer out of range for i256'')))"
proof (cases "parse_digits (strip_sign (trim s)) name")
  case (Inr ls)
  then obtain n where "parse_digits_nat (strip_sign (trim s)) = Some n"
    using parse_digits_bad by (metis Inl_Inr_False not_Some_eq)
  then have len: "length ls = 4"
    using parse_digits_correct [of "strip_sign (trim s)" n name] Inr by (auto split: if_splits)
  obtain a b c d where ls: "ls = [a, b, c, d]" by (rule limbs4_cases [OF len])
  have top: "(hd ls AND push_bit 63 1 \<noteq> 0) \<longleftrightarrow> 2 ^ 255 \<le> limbs_val ls"
    by (simp only: ls list.sel top_bit_iff limbs_top)
  have min: "(tl ls = [0, 0, 0] \<and> hd ls = push_bit 63 1) \<longleftrightarrow> limbs_val ls = 2 ^ 255"
  proof
    assume "tl ls = [0, 0, 0] \<and> hd ls = push_bit 63 1"
    then show "limbs_val ls = 2 ^ 255" by (simp add: ls)
  next
    assume "limbs_val ls = 2 ^ 255"
    then have "limbs_val ls = limbs_val [push_bit 63 1, 0, 0, 0]" by simp
    then have "ls = [push_bit 63 1, 0, 0, 0]"
      by (rule limbs_val_inj [rotated]) (simp add: ls)
    then show "tl ls = [0, 0, 0] \<and> hd ls = push_bit 63 1" by simp
  qed
  show ?thesis
    using top min by (auto simp: parse_i256_def text_of_int_def Inr Let_def)
qed (simp add: parse_i256_def text_of_int_def)

lemma parse_i256_iff:
  "parse_i256 (Str s) name = Inr ls
     \<longleftrightarrow> length ls = 4 \<and> parse_signed 256 (trim s) = Some (i256_val (i256_parts ls))"
proof (cases "starts_with ''-'' (trim s)")
  case True
  then obtain t where t: "trim s = CHR ''-'' # t"
    by (cases "trim s") (auto simp: starts_with_def)
  show ?thesis
  proof (cases "parse_digits_nat t")
    case None
    then show ?thesis
      by (simp add: parse_i256_Str t strip_sign_def parse_digits_bad parse_signed_def)
  next
    case (Some n)
    have neg: "negate m = ls \<longleftrightarrow> length ls = 4 \<and> i256_val (i256_parts ls) = - int (limbs_val m)"
      if "length m = 4" "limbs_val m \<le> 2 ^ 255" for m
    proof -
      have "i256_val (i256_parts (negate m)) = - int (limbs_val m)" "length (negate m) = 4"
        using negate_val [OF that(1)] that(2) by (auto simp: i256_val_eq mod_if)
      then show ?thesis
        using i256_val_inj [of "negate m" ls] by auto
    qed
    show ?thesis
    proof (cases "n \<le> 2 ^ 255")
      case le: True
      then obtain out where out: "parse_digits t name = Inr out" "length out = 4" "limbs_val out = n"
        using parse_digits_correct [OF Some, of name] by auto
      then have "parse_i256 (Str s) name = Inr (negate out)"
        using True le by (simp add: parse_i256_Str t strip_sign_def)
      then show ?thesis
        using neg [of out] out le by (auto simp: parse_signed_def t Some)
    next
      case False
      then show ?thesis
        using parse_digits_correct [OF Some, of name] True
        by (auto simp: parse_i256_Str t strip_sign_def parse_signed_def Some split: if_splits)
    qed
  qed
next
  case False
  have st: "strip_sign (trim s) = strip_plus (trim s)"
    using False by (cases "trim s") (auto simp: starts_with_def strip_sign_def strip_plus_def)
  have ps: "parse_signed 256 (trim s) =
      (case parse_digits_nat (strip_plus (trim s)) of None \<Rightarrow> None
       | Some n \<Rightarrow> if n < 2 ^ 255 then Some (int n) else None)"
    using False
    by (cases "trim s") (auto simp: starts_with_def parse_signed_def parse_digits_nat_def strip_plus_def)
  show ?thesis
  proof (cases "parse_digits_nat (strip_plus (trim s))")
    case None
    then show ?thesis
      by (simp add: parse_i256_Str st ps parse_digits_bad)
  next
    case (Some n)
    have pos: "m = ls \<longleftrightarrow> length ls = 4 \<and> i256_val (i256_parts ls) = int (limbs_val m)"
      if "length m = 4" "limbs_val m < 2 ^ 255" for m
      using that i256_val_inj [of m ls] by (auto simp: i256_val_eq)
    show ?thesis
      using parse_digits_correct [OF Some, of name] pos False
      by (auto simp: parse_i256_Str st ps Some i256_val_eq split: if_splits)
  qed
qed

lemma u128_join:
  "push_bit 64 (ucast (ucast (drop_bit 64 n) :: u64) :: u128) OR ucast (ucast n :: u64) = n"
  by (rule bit_eqI) (auto simp: bit_simps)

lemma i128_join:
  "push_bit 64 (scast (ucast (drop_bit 64 n) :: u64) :: u128) OR ucast (ucast n :: u64) = n"
  by (rule bit_eqI) (auto simp: bit_simps)

section \<open>Properties\<close>

text \<open>
  Claim C12. \<^verbatim>\<open>u256_to_decimal\<close> and \<^verbatim>\<open>i256_to_decimal\<close>, which divide by \<open>10 ^ 19\<close> limb by limb and
  paste zero-padded chunks, print the canonical decimal form of the 256-bit number the limbs
  stand for (unsigned, and two's complement respectively).
\<close>

theorem decimal256_canonical:
  "u256_to_decimal p = show_nat (u256_val p) \<and> i256_to_decimal q = show_int (i256_val q)"
  by (simp add: u256_to_decimal_val i256_to_decimal_val)

text \<open>
  Claim C5. What the decoder prints for a \<^verbatim>\<open>U256\<close> or \<^verbatim>\<open>I256\<close> value, the read layer parses back to
  the same four limbs: every 256-bit value survives the trip through JSON, the most negative
  \<^verbatim>\<open>I256\<close> included.
\<close>

theorem int256_text_roundtrip:
  "map_sum id u256_parts (parse_u256 (Str (u256_to_decimal p)) name) = Inr p
   \<and> map_sum id i256_parts (parse_i256 (Str (i256_to_decimal q)) name) = Inr q"
proof
  obtain a b c d where p: "p = UInt256Parts a b c d" by (cases p)
  have "limbs_val [a, b, c, d] < 2 ^ 256"
    using limbs_val_less [of "[a, b, c, d]"] by simp
  then have "parse_u256 (Str (u256_to_decimal p)) name = Inr [a, b, c, d]"
    by (simp add: parse_u256_iff u256_to_decimal_val u256_val_def p parse_unsigned_show
        del: limbs_val.simps)
  then show "map_sum id u256_parts (parse_u256 (Str (u256_to_decimal p)) name) = Inr p"
    by (simp add: p u256_parts_def)
next
  obtain a b c d where q: "q = Int256Parts a b c d" by (cases q)
  have iq: "i256_parts [a, b, c, d] = q"
    by (simp add: q i256_parts_def)
  have "parse_signed 256 (show_int (i256_val q)) = Some (i256_val q)"
    using i256_val_range [of "[a, b, c, d]"] by (intro parse_signed_show) (auto simp: iq)
  moreover have "trim (show_int (i256_val q)) = show_int (i256_val q)"
    by (simp add: show_int_def)
  ultimately have "parse_i256 (Str (i256_to_decimal q)) name = Inr [a, b, c, d]"
    by (simp add: parse_i256_iff i256_to_decimal_val iq)
  then show "map_sum id i256_parts (parse_i256 (Str (i256_to_decimal q)) name) = Inr q"
    by (simp add: iq)
qed

text \<open>
  \<^verbatim>\<open>parse_u256\<close> and \<^verbatim>\<open>parse_i256\<close> accept exactly the decimal texts (white space and one
  sign allowed) whose value fits the 256-bit type, and return its limbs: the overflow check of
  \<^verbatim>\<open>mul10_add\<close> and the sign-bit checks reject everything else.
\<close>

theorem parse256_accepts_exactly_range:
  "(parse_u256 (Str s) name = Inr ls
      \<longleftrightarrow> length ls = 4 \<and> parse_unsigned 256 (trim s) = Some (limbs_val ls))
   \<and> (parse_i256 (Str s) name = Inr ls
      \<longleftrightarrow> length ls = 4 \<and> parse_signed 256 (trim s) = Some (i256_val (i256_parts ls)))"
  by (simp add: parse_u256_iff parse_i256_iff)

text \<open>
  Splitting a 128-bit integer into the two halves of the wire format and printing it
  from them gives back the integer, signed and unsigned: sign extension of the high half and
  the zero-extended low half never interfere.
\<close>

theorem int128_parts_roundtrip:
  "parse_unsigned 128 (u128_to_string (u128_parts n)) = Some (unat n)
   \<and> parse_signed 128 (i128_to_string (i128_parts m)) = Some (sint m)"
proof
  have "unat n < 2 ^ 128"
    using unsigned_less [where 'a = nat, of n] by simp
  then show "parse_unsigned 128 (u128_to_string (u128_parts n)) = Some (unat n)"
    by (simp add: u128_to_string_def u128_parts_def u128_join parse_unsigned_show)
  have "- (2 ^ 127) \<le> sint m" "sint m < 2 ^ 127"
    using sint_range_size [of m] by (auto simp: word_size)
  then show "parse_signed 128 (i128_to_string (i128_parts m)) = Some (sint m)"
    by (simp add: i128_to_string_def i128_parts_def i128_join parse_signed_show)
qed

end
