(* ===== verification/Scval.thy ===== *)
theory Scval
  imports Int256
begin

text \<open>
  The typed half of \<^verbatim>\<open>crates/lumenqraph-core/src/xdr.rs\<close>: the \<^verbatim>\<open>ScVal\<close> enum with the variants
  that \<^verbatim>\<open>decode_scval\<close> matches (exhaustively, without a wildcard), its rendering as JSON, the
  base64 entry points and the \<^verbatim>\<open>CONTRACT_IDS\<close> parser.

  Base64 decoding, the XDR parser of \<^verbatim>\<open>stellar-xdr\<close> and the strkey codecs of \<^verbatim>\<open>stellar-strkey\<close>
  are third-party code: they are arguments (\<open>b64\<close>, \<open>read_xdr\<close>, \<open>addr_str\<close>, \<open>contract_from_string\<close>).
\<close>

section \<open>Data\<close>

datatype sc_address =
    AccountAddr "u8 list"
  | ContractAddr "u8 list"
  | MuxedAddr u64 "u8 list"
  | ClaimableBalanceAddr "u8 list"
  | LiquidityPoolAddr "u8 list"

datatype sc_error = ScErr u32 u32

datatype contract_executable = WasmExec "u8 list" | StellarAsset

datatype scval =
    ScBool bool
  | ScVoid
  | ScError sc_error
  | ScU32 u32
  | ScI32 u32
  | ScU64 u64
  | ScI64 u64
  | ScTimepoint u64
  | ScDuration u64
  | ScU128 uint128_parts
  | ScI128 int128_parts
  | ScU256 uint256_parts
  | ScI256 int256_parts
  | ScBytes "u8 list"
  | ScString "u8 list"
  | ScSymbol "u8 list"
  | ScVec "scval list option"
  | ScMap "(scval \<times> scval) list option"
  | ScAddress sc_address
  | LedgerKeyContractInstance
  | LedgerKeyNonce u64
  | ContractInstance contract_executable "(scval \<times> scval) list option"

lemma scval_sub_size:
  "x \<in> set v \<Longrightarrow> size x < Suc (Suc (size_list size v))"
  "(a, b) \<in> set m \<Longrightarrow> size a < Suc (Suc (size_list (size_prod size size) m))"
  "(a, b) \<in> set m \<Longrightarrow> size b < Suc (Suc (size_list (size_prod size size) m))"
  by (induction v; force) (induction m; force)+

section \<open>The JSON dialect\<close>

definition json_u32 :: "u32 \<Rightarrow> json" where
  "json_u32 n = Number (PosInt (ucast n))"

definition json_i64 :: "u64 \<Rightarrow> json" where
  "json_i64 n = Number (if sint n < 0 then NegInt n else PosInt n)"

definition json_i32 :: "u32 \<Rightarrow> json" where
  "json_i32 n = json_i64 (scast n)"

lemma json_numbers_wf [simp]: "json_wf (json_u32 n)" "json_wf (json_i64 m)" "json_wf (json_i32 k)"
  by (simp_all add: json_u32_def json_i64_def json_i32_def)

definition text_or_hex :: "u8 list \<Rightarrow> json" where
  "text_or_hex bs = (case from_utf8 bs of Some t \<Rightarrow> Str t | None \<Rightarrow> Str (''0x'' @ hex bs))"

definition pair_json :: "json \<times> json \<Rightarrow> json" where
  "pair_json e = jobj [(''key'', fst e), (''val'', snd e)]"

fun is_str :: "json \<Rightarrow> bool" where
  "is_str (Str _) = True"
| "is_str _ = False"

fun the_str :: "json \<Rightarrow> string" where
  "the_str (Str s) = s"
| "the_str _ = []"

text \<open>\<open>str_entries\<close> are the entries the loop inserts into \<^verbatim>\<open>obj\<close>, in loop order.\<close>

definition str_entries :: "(json \<times> json) list \<Rightarrow> (string \<times> json) list" where
  "str_entries es = map (\<lambda>e. (the_str (fst e), snd e)) (filter (\<lambda>e. is_str (fst e)) es)"

text \<open>The \<^verbatim>\<open>ScVal::Map\<close> arm of \<^verbatim>\<open>decode_scval\<close>, after its entries are decoded.\<close>

definition decode_map :: "(json \<times> json) list \<Rightarrow> json" where
  "decode_map es =
     (let all_stringy = list_all (\<lambda>e. is_str (fst e)) es
      in if all_stringy then Object (bt_of_list (str_entries es)) else Array (map pair_json es))"

function decode_scval :: "(sc_address \<Rightarrow> string) \<Rightarrow> scval \<Rightarrow> json" where
  "decode_scval addr_str (ScBool b) = Bool b"
| "decode_scval addr_str ScVoid = Null"
| "decode_scval addr_str (ScError e) = jobj [(''_error'', Bool True)]"
| "decode_scval addr_str (ScU32 n) = json_u32 n"
| "decode_scval addr_str (ScI32 n) = json_i32 n"
| "decode_scval addr_str (ScU64 n) = Str (show_nat (unat n))"
| "decode_scval addr_str (ScI64 n) = Str (show_int (sint n))"
| "decode_scval addr_str (ScTimepoint n) = Str (show_nat (unat n))"
| "decode_scval addr_str (ScDuration n) = Str (show_nat (unat n))"
| "decode_scval addr_str (ScU128 p) = Str (u128_to_string p)"
| "decode_scval addr_str (ScI128 p) = Str (i128_to_string p)"
| "decode_scval addr_str (ScU256 p) = Str (u256_to_decimal p)"
| "decode_scval addr_str (ScI256 p) = Str (i256_to_decimal p)"
| "decode_scval addr_str (ScBytes b) = Str (''0x'' @ hex b)"
| "decode_scval addr_str (ScString s) = text_or_hex s"
| "decode_scval addr_str (ScSymbol s) = text_or_hex s"
| "decode_scval addr_str (ScVec None) = Array []"
| "decode_scval addr_str (ScVec (Some v)) = Array (map (decode_scval addr_str) v)"
| "decode_scval addr_str (ScMap None) = Object []"
| "decode_scval addr_str (ScMap (Some m)) =
     decode_map (map (\<lambda>e. (decode_scval addr_str (fst e), decode_scval addr_str (snd e))) m)"
| "decode_scval addr_str (ScAddress a) = Str (addr_str a)"
| "decode_scval addr_str LedgerKeyContractInstance =
     jobj [(''_type'', Str ''LedgerKeyContractInstance'')]"
| "decode_scval addr_str (LedgerKeyNonce n) =
     jobj [(''_type'', Str ''LedgerKeyNonce''), (''nonce'', json_i64 n)]"
| "decode_scval addr_str (ContractInstance (WasmExec h) st) =
     jobj [(''_type'', Str ''ContractInstance''), (''wasm_hash'', Str (hex h))]"
| "decode_scval addr_str (ContractInstance StellarAsset st) =
     jobj [(''_type'', Str ''ContractInstance''), (''stellar_asset'', Bool True)]"
  by pat_completeness auto
termination
  by (relation "measure (\<lambda>(a, v). size v)") (auto intro: scval_sub_size)

section \<open>Entry points\<close>

definition fallback_json :: "string \<Rightarrow> json" where
  "fallback_json b64s = jobj [(''_type'', Str ''unknown''), (''xdr'', Str b64s)]"

definition decode_scval_base64 ::
  "(string \<Rightarrow> u8 list option) \<Rightarrow> (u8 list \<Rightarrow> (scval \<times> u8 list) option) \<Rightarrow>
   (sc_address \<Rightarrow> string) \<Rightarrow> string \<Rightarrow> json" where
  "decode_scval_base64 b64 read_xdr addr_str s =
     (case b64 s of
        None \<Rightarrow> fallback_json s
      | Some bytes \<Rightarrow>
          (case read_xdr bytes of
             Some (sv, rest) \<Rightarrow> if rest = [] then decode_scval addr_str sv else fallback_json s
           | None \<Rightarrow> fallback_json s))"

definition decode_topics ::
  "(string \<Rightarrow> u8 list option) \<Rightarrow> (u8 list \<Rightarrow> (scval \<times> u8 list) option) \<Rightarrow>
   (sc_address \<Rightarrow> string) \<Rightarrow> string list \<Rightarrow> json list" where
  "decode_topics b64 read_xdr addr_str topics = map (decode_scval_base64 b64 read_xdr addr_str) topics"

definition event_name_from_topic ::
  "(string \<Rightarrow> u8 list option) \<Rightarrow> (u8 list \<Rightarrow> (scval \<times> u8 list) option) \<Rightarrow>
   string \<Rightarrow> string option" where
  "event_name_from_topic b64 read_xdr topic =
     (case b64 topic of
        None \<Rightarrow> None
      | Some bytes \<Rightarrow>
          (case read_xdr bytes of
             None \<Rightarrow> None
           | Some (sv, rest) \<Rightarrow>
               if rest \<noteq> [] then None
               else (case sv of
                       ScSymbol s \<Rightarrow> from_utf8 s
                     | ScString s \<Rightarrow> from_utf8 s
                     | _ \<Rightarrow> None)))"

definition is_valid_contract_id :: "(string \<Rightarrow> 'c option) \<Rightarrow> string \<Rightarrow> bool" where
  "is_valid_contract_id contract_from_string s = (contract_from_string s \<noteq> None)"

text \<open>
  \<^verbatim>\<open>parse_contract_ids\<close>: the error of the first invalid entry wins, then duplicates are dropped
  keeping the first occurrence, then the cap is enforced. The error carries the offending entry
  or the count, which is what its message is formatted from.
\<close>

datatype contract_ids_error = InvalidContractId string | TooManyContractIds nat

definition MAX_CONTRACT_IDS :: nat where
  "MAX_CONTRACT_IDS = 25"

fun dedup_loop :: "string list \<Rightarrow> string list \<Rightarrow> string list \<Rightarrow> string list" where
  "dedup_loop seen ids [] = ids"
| "dedup_loop seen ids (e # es) =
     (if e \<in> set seen then dedup_loop seen ids es
      else dedup_loop (e # seen) (ids @ [e]) es)"

definition parse_contract_ids ::
  "(string \<Rightarrow> 'c option) \<Rightarrow> string \<Rightarrow> contract_ids_error + string list" where
  "parse_contract_ids contract_from_string raw =
     (let entries = filter (\<lambda>s. s \<noteq> []) (map trim (split_on CHR '','' raw)) in
      case find (\<lambda>e. \<not> is_valid_contract_id contract_from_string e) entries of
        Some e \<Rightarrow> Inl (InvalidContractId e)
      | None \<Rightarrow>
          (let ids = dedup_loop [] [] entries
           in if length ids > MAX_CONTRACT_IDS then Inl (TooManyContractIds (length ids))
              else Inr ids))"

section \<open>Properties\<close>

lemma str_entries_set: "p \<in> set (str_entries es) \<Longrightarrow> \<exists>e \<in> set es. snd p = snd e"
  by (force simp: str_entries_def)

lemma json_wf_decode_map:
  assumes "\<And>e. e \<in> set es \<Longrightarrow> json_wf (fst e) \<and> json_wf (snd e)"
  shows "json_wf (decode_map es)"
proof -
  have "json_wf (Object (bt_of_list (str_entries es)))"
    using assms by (auto simp: bt_of_list_inv dest!: bt_of_list_values str_entries_set)
  moreover have "json_wf (Array (map pair_json es))"
    using assms by (auto simp: pair_json_def)
  ultimately show ?thesis
    by (simp add: decode_map_def Let_def)
qed

lemma json_wf_text_or_hex [simp]: "json_wf (text_or_hex b)"
  by (simp add: text_or_hex_def split: option.splits)

lemma json_wf_decode_scval [simp]: "json_wf (decode_scval a v)"
proof (induction a v rule: decode_scval.induct)
  case (20 a m)
  then have "json_wf (fst e) \<and> json_wf (snd e)"
    if "e \<in> set (map (\<lambda>e. (decode_scval a (fst e), decode_scval a (snd e))) m)" for e
    using that by force
  then show ?case
    unfolding decode_scval.simps by (rule json_wf_decode_map)
qed auto

text \<open>
  The name the indexer stores for an event is the text of its first topic: whenever
  \<^verbatim>\<open>event_name_from_topic\<close> finds a name, the topic's JSON is exactly that string; and every topic
  decodes to a well-formed JSON value, undecodable ones included.
\<close>

theorem event_name_is_decoded_topic:
  "json_wf (decode_scval_base64 b64 read_xdr addr_str t)
   \<and> (event_name_from_topic b64 read_xdr t = Some n
       \<longrightarrow> decode_scval_base64 b64 read_xdr addr_str t = Str n)"
proof (intro conjI impI)
  show "json_wf (decode_scval_base64 b64 read_xdr addr_str t)"
    by (auto simp: decode_scval_base64_def fallback_json_def split: option.splits)
  show "decode_scval_base64 b64 read_xdr addr_str t = Str n"
    if "event_name_from_topic b64 read_xdr t = Some n"
    using that
    by (auto simp: event_name_from_topic_def decode_scval_base64_def text_or_hex_def
        split: option.splits if_splits scval.splits)
qed

theorem event_name_is_decoded_topic_witness:
  "event_name_from_topic (\<lambda>s. Some (bytes_of_text s)) (\<lambda>b. Some (ScSymbol b, [])) ''mint'' = Some ''mint''
   \<and> decode_scval_base64 (\<lambda>s. Some (bytes_of_text s)) (\<lambda>b. Some (ScSymbol b, [])) (\<lambda>_. []) ''mint''
     = Str ''mint''"
proof -
  have "event_name_from_topic (\<lambda>s. Some (bytes_of_text s)) (\<lambda>b. Some (ScSymbol b, [])) ''mint'' = Some ''mint''"
    by code_simp
  then show ?thesis
    using event_name_is_decoded_topic [of "\<lambda>s. Some (bytes_of_text s)" "\<lambda>b. Some (ScSymbol b, [])"
        "\<lambda>_. []" "''mint''" "''mint''"]
    by simp
qed

lemma dedup_loop_set:
  "set seen = set ids \<Longrightarrow> set (dedup_loop seen ids es) = set ids \<union> set es"
  by (induction seen ids es rule: dedup_loop.induct) auto

lemma dedup_loop_distinct:
  "set seen = set ids \<Longrightarrow> distinct ids \<Longrightarrow> distinct (dedup_loop seen ids es)"
  by (induction seen ids es rule: dedup_loop.induct) auto

lemma dedup_loop_order:
  "set seen = set ids \<Longrightarrow>
   dedup_loop seen ids es = ids @ rev (remdups (rev (filter (\<lambda>e. e \<notin> set ids) es)))"
proof (induction seen ids es rule: dedup_loop.induct)
  case (2 seen ids e es)
  have *: "filter (\<lambda>x. x \<notin> set ids \<and> x \<noteq> e) es = filter (\<lambda>x. x \<noteq> e) (filter (\<lambda>x. x \<notin> set ids) es)"
    by (auto intro: filter_cong)
  have "remdups (ys @ [e]) = remdups (filter (\<lambda>x. x \<noteq> e) ys) @ [e]" for ys
    by (induction ys) auto
  from this [of "rev (filter (\<lambda>x. x \<notin> set ids) es)"] 2 show ?case
    by (auto simp: rev_filter * conj_commute)
qed simp

lemma list_all_iff_find: "list_all P xs \<longleftrightarrow> find (\<lambda>x. \<not> P x) xs = None"
  by (auto simp: find_None_iff list_all_iff)

text \<open>
  \<^verbatim>\<open>parse_contract_ids\<close> succeeds exactly when every non-blank comma-separated entry is a
  valid contract strkey and there are at most 25 different ones, and then returns each of them
  once, in the order of first appearance.
\<close>

theorem parse_contract_ids_spec:
  "parse_contract_ids cfs raw = Inr ids \<longleftrightarrow>
     (let entries = filter (\<lambda>s. s \<noteq> []) (map trim (split_on CHR '','' raw))
      in list_all (\<lambda>e. cfs e \<noteq> None) entries \<and> card (set entries) \<le> 25
         \<and> distinct ids \<and> ids = rev (remdups (rev entries)))"
proof -
  define entries where "entries = filter (\<lambda>s. s \<noteq> []) (map trim (split_on CHR '','' raw))"
  have "dedup_loop [] [] entries = rev (remdups (rev entries))"
    using dedup_loop_order [of "[]" "[]" entries] by simp
  moreover have "card (set entries) = length (dedup_loop [] [] entries)"
    using distinct_card [OF dedup_loop_distinct [of "[]" "[]" entries]]
      dedup_loop_set [of "[]" "[]" entries] by simp
  ultimately show ?thesis
    unfolding parse_contract_ids_def Let_def entries_def [symmetric] list_all_iff_find
      is_valid_contract_id_def MAX_CONTRACT_IDS_def
    by (auto split: option.splits)
qed

end
