(* ===== verification/Xdr_Cursor.thy ===== *)
theory Xdr_Cursor
  imports Scval "HOL-Library.Monad_Syntax"
begin

text \<open>
  The byte-level half of \<^verbatim>\<open>xdr.rs\<close>: the \<^verbatim>\<open>Cursor\<close> over a byte slice and its methods. A method
  that takes \<^verbatim>\<open>&mut self\<close> and returns \<^verbatim>\<open>Option<T>\<close> maps a cursor to an optional result and the
  advanced cursor; \<^verbatim>\<open>?\<close> is the bind of the option monad. The recursion of \<^verbatim>\<open>read_scval\<close> is bounded
  by its \<^verbatim>\<open>depth\<close> argument, which is what makes it total.

  \<open>xdr_scval\<close> is the XDR wire format of an \<^verbatim>\<open>ScVal\<close> (big-endian integers, opaque data padded to
  four bytes, unions with a 32-bit discriminant), the specification the reader is checked
  against.
\<close>

section \<open>The cursor\<close>

record cursor =
  buf :: "u8 list"
  pos :: nat

definition cursor_new :: "u8 list \<Rightarrow> cursor" where
  "cursor_new b = \<lparr>buf = b, pos = 0\<rparr>"

type_synonym 'a reader = "cursor \<Rightarrow> ('a \<times> cursor) option"

definition take_bytes :: "nat \<Rightarrow> u8 list reader" where
  "take_bytes n c =
     (let stop = pos c + n
      in if stop > length (buf c) then None
         else Some (take n (drop (pos c) (buf c)), c\<lparr>pos := stop\<rparr>))"

text \<open>\<^verbatim>\<open>from_be_bytes\<close> as a number.\<close>

definition be_val :: "u8 list \<Rightarrow> nat" where
  "be_val bs = foldl (\<lambda>a b. a * 256 + unat b) 0 bs"

definition rd_u32 :: "u32 reader" where
  "rd_u32 c = do { (b, c) \<leftarrow> take_bytes 4 c; Some (of_nat (be_val b), c) }"

definition rd_i32 :: "u32 reader" where
  "rd_i32 c = do { (b, c) \<leftarrow> take_bytes 4 c; Some (of_nat (be_val b), c) }"

definition rd_u64 :: "u64 reader" where
  "rd_u64 c = do { (b, c) \<leftarrow> take_bytes 8 c; Some (of_nat (be_val b), c) }"

definition rd_i64 :: "u64 reader" where
  "rd_i64 c = do { (b, c) \<leftarrow> take_bytes 8 c; Some (of_nat (be_val b), c) }"

definition var_bytes :: "u8 list reader" where
  "var_bytes c = do {
     (len, c) \<leftarrow> rd_u32 c;
     (data, c) \<leftarrow> take_bytes (unat len) c;
     (_, c) \<leftarrow> take_bytes ((4 - unat len mod 4) mod 4) c;
     Some (data, c) }"

section \<open>Reading values\<close>

definition MAX_DEPTH :: nat where
  "MAX_DEPTH = 256"

text \<open>A \<^verbatim>\<open>for _ in 0..len\<close> loop that pushes what the body reads.\<close>

fun repeat_read :: "nat \<Rightarrow> 'a reader \<Rightarrow> 'a list reader" where
  "repeat_read 0 f c = Some ([], c)"
| "repeat_read (Suc n) f c = do {
     (x, c) \<leftarrow> f c;
     (xs, c) \<leftarrow> repeat_read n f c;
     Some (x # xs, c) }"

definition read_pair :: "'a reader \<Rightarrow> ('a \<times> 'a) reader" where
  "read_pair f c = do { (k, c) \<leftarrow> f c; (v, c) \<leftarrow> f c; Some ((k, v), c) }"

definition error_type_name :: "u32 \<Rightarrow> string" where
  "error_type_name t =
     (if t = 0 then ''Contract'' else if t = 1 then ''WasmVm'' else if t = 2 then ''Context''
      else if t = 3 then ''Storage'' else if t = 4 then ''Object'' else if t = 5 then ''Crypto''
      else if t = 6 then ''Events'' else if t = 7 then ''Budget'' else if t = 8 then ''Value''
      else if t = 9 then ''Auth'' else ''Unknown'')"

definition error_code_name :: "u32 \<Rightarrow> string" where
  "error_code_name k =
     (if k = 0 then ''ArithDomain'' else if k = 1 then ''IndexBounds''
      else if k = 2 then ''InvalidInput'' else if k = 3 then ''MissingValue''
      else if k = 4 then ''ExistingValue'' else if k = 5 then ''ExceededLimit''
      else if k = 6 then ''InvalidAction'' else if k = 7 then ''InternalError''
      else if k = 8 then ''UnexpectedType'' else if k = 9 then ''UnexpectedSize''
      else ''Unknown'')"

definition error_json :: "u32 \<Rightarrow> u32 \<Rightarrow> json" where
  "error_json error_type code =
     jobj [(''error'', jobj [(''type'', Str (error_type_name error_type)),
       (''code'', if error_type = 0 then json_u32 code else Str (error_code_name code))])]"

text \<open>
  \<^verbatim>\<open>read_address\<close>: the payload determines the address; how \<^verbatim>\<open>stellar-strkey\<close> spells it is the
  parameter \<open>addr_str\<close>. The key type of an account is read and ignored.
\<close>

definition read_address :: "(sc_address \<Rightarrow> string) \<Rightarrow> string reader" where
  "read_address addr_str c = do {
     (t, c) \<leftarrow> rd_u32 c;
     if t = 0 then do {
       (_, c) \<leftarrow> rd_u32 c; (raw, c) \<leftarrow> take_bytes 32 c; Some (addr_str (AccountAddr raw), c) }
     else if t = 1 then do {
       (raw, c) \<leftarrow> take_bytes 32 c; Some (addr_str (ContractAddr raw), c) }
     else if t = 2 then do {
       (id, c) \<leftarrow> rd_u64 c; (key, c) \<leftarrow> take_bytes 32 c; Some (addr_str (MuxedAddr id key), c) }
     else if t = 3 then do {
       (v, c) \<leftarrow> rd_u32 c;
       if v \<noteq> 0 then None
       else do { (h, c) \<leftarrow> take_bytes 32 c; Some (addr_str (ClaimableBalanceAddr h), c) } }
     else if t = 4 then do {
       (h, c) \<leftarrow> take_bytes 32 c; Some (addr_str (LiquidityPoolAddr h), c) }
     else None }"

text \<open>
  The end of \<^verbatim>\<open>read_map\<close>: a plain object only when every key is a string and no insertion hit
  an existing key.
\<close>

definition map_json :: "(json \<times> json) list \<Rightarrow> json" where
  "map_json es =
     (let all_stringy = list_all (\<lambda>e. is_str (fst e)) es;
          has_collision = (\<not> distinct (map fst (str_entries es)))
      in if all_stringy \<and> \<not> has_collision then Object (bt_of_list (str_entries es))
         else Array (map pair_json es))"

text \<open>
  The methods that call back into \<^verbatim>\<open>read_scval\<close> take the reader for one level deeper
  (\<open>self.read_scval(depth + 1)\<close>) as an argument; \<open>read_scval\<close> ties the knot.
\<close>

definition read_map :: "json reader \<Rightarrow> nat \<Rightarrow> json reader" where
  "read_map rec len c = do { (es, c) \<leftarrow> repeat_read len (read_pair rec) c; Some (map_json es, c) }"

definition skip_contract_instance_payload :: "json reader \<Rightarrow> unit reader" where
  "skip_contract_instance_payload rec c = do {
     (exec_kind, c) \<leftarrow> rd_u32 c;
     (_, c) \<leftarrow> (if exec_kind = 0 then take_bytes 32 c
               else if exec_kind = 1 then Some ([], c) else None);
     (present, c) \<leftarrow> rd_u32 c;
     if present = 0 then Some ((), c)
     else do {
       (len, c) \<leftarrow> rd_u32 c;
       (_, c) \<leftarrow> repeat_read (unat len) (read_pair rec) c;
       Some ((), c) } }"

abbreviation (input) SCV_BOOL :: u32 where "SCV_BOOL \<equiv> 0"
abbreviation (input) SCV_VOID :: u32 where "SCV_VOID \<equiv> 1"
abbreviation (input) SCV_ERROR :: u32 where "SCV_ERROR \<equiv> 2"
abbreviation (input) SCV_U32 :: u32 where "SCV_U32 \<equiv> 3"
abbreviation (input) SCV_I32 :: u32 where "SCV_I32 \<equiv> 4"
abbreviation (input) SCV_U64 :: u32 where "SCV_U64 \<equiv> 5"
abbreviation (input) SCV_I64 :: u32 where "SCV_I64 \<equiv> 6"
abbreviation (input) SCV_TIMEPOINT :: u32 where "SCV_TIMEPOINT \<equiv> 7"
abbreviation (input) SCV_DURATION :: u32 where "SCV_DURATION \<equiv> 8"
abbreviation (input) SCV_U128 :: u32 where "SCV_U128 \<equiv> 9"
abbreviation (input) SCV_I128 :: u32 where "SCV_I128 \<equiv> 10"
abbreviation (input) SCV_U256 :: u32 where "SCV_U256 \<equiv> 11"
abbreviation (input) SCV_I256 :: u32 where "SCV_I256 \<equiv> 12"
abbreviation (input) SCV_BYTES :: u32 where "SCV_BYTES \<equiv> 13"
abbreviation (input) SCV_STRING :: u32 where "SCV_STRING \<equiv> 14"
abbreviation (input) SCV_SYMBOL :: u32 where "SCV_SYMBOL \<equiv> 15"
abbreviation (input) SCV_VEC :: u32 where "SCV_VEC \<equiv> 16"
abbreviation (input) SCV_MAP :: u32 where "SCV_MAP \<equiv> 17"
abbreviation (input) SCV_ADDRESS :: u32 where "SCV_ADDRESS \<equiv> 18"
abbreviation (input) SCV_CONTRACT_INSTANCE :: u32 where "SCV_CONTRACT_INSTANCE \<equiv> 19"
abbreviation (input) SCV_LEDGER_KEY_CONTRACT_INSTANCE :: u32 where "SCV_LEDGER_KEY_CONTRACT_INSTANCE \<equiv> 20"
abbreviation (input) SCV_LEDGER_KEY_NONCE :: u32 where "SCV_LEDGER_KEY_NONCE \<equiv> 21"

text \<open>The \<^verbatim>\<open>match tag\<close> of \<^verbatim>\<open>read_scval\<close>.\<close>

definition read_tagged :: "(sc_address \<Rightarrow> string) \<Rightarrow> json reader \<Rightarrow> u32 \<Rightarrow> json reader" where
  "read_tagged addr_str rec tag c =
     (if tag = SCV_BOOL then do {
        (raw, c) \<leftarrow> rd_u32 c;
        if raw = 0 then Some (Bool False, c) else if raw = 1 then Some (Bool True, c) else None }
      else if tag = SCV_VOID then Some (Null, c)
      else if tag = SCV_ERROR then do {
        (error_type, c) \<leftarrow> rd_u32 c; (code, c) \<leftarrow> rd_u32 c; Some (error_json error_type code, c) }
      else if tag = SCV_U32 then do { (n, c) \<leftarrow> rd_u32 c; Some (json_u32 n, c) }
      else if tag = SCV_I32 then do { (n, c) \<leftarrow> rd_i32 c; Some (json_i32 n, c) }
      else if tag = SCV_U64 then do { (n, c) \<leftarrow> rd_u64 c; Some (Str (show_nat (unat n)), c) }
      else if tag = SCV_I64 then do { (n, c) \<leftarrow> rd_i64 c; Some (Str (show_int (sint n)), c) }
      else if tag = SCV_TIMEPOINT then do { (n, c) \<leftarrow> rd_u64 c; Some (Str (show_nat (unat n)), c) }
      else if tag = SCV_DURATION then do { (n, c) \<leftarrow> rd_u64 c; Some (Str (show_nat (unat n)), c) }
      else if tag = SCV_U128 then do {
        (hi, c) \<leftarrow> rd_u64 c; (lo, c) \<leftarrow> rd_u64 c;
        Some (Str (u128_to_string (UInt128Parts hi lo)), c) }
      else if tag = SCV_I128 then do {
        (hi, c) \<leftarrow> rd_i64 c; (lo, c) \<leftarrow> rd_u64 c;
        Some (Str (i128_to_string (Int128Parts hi lo)), c) }
      else if tag = SCV_U256 \<or> tag = SCV_I256 then do {
        (raw, c) \<leftarrow> take_bytes 32 c; Some (jobj [(''_u256_hex'', Str (hex raw))], c) }
      else if tag = SCV_BYTES then do { (b, c) \<leftarrow> var_bytes c; Some (Str (''0x'' @ hex b), c) }
      else if tag = SCV_STRING then do { (b, c) \<leftarrow> var_bytes c; Some (text_or_hex b, c) }
      else if tag = SCV_SYMBOL then do { (b, c) \<leftarrow> var_bytes c; Some (text_or_hex b, c) }
      else if tag = SCV_VEC then do {
        (present, c) \<leftarrow> rd_u32 c;
        if present = 0 then Some (Array [], c)
        else do {
          (len, c) \<leftarrow> rd_u32 c;
          (items, c) \<leftarrow> repeat_read (unat len) rec c;
          Some (Array items, c) } }
      else if tag = SCV_MAP then do {
        (present, c) \<leftarrow> rd_u32 c;
        if present = 0 then Some (Object [], c)
        else do { (len, c) \<leftarrow> rd_u32 c; read_map rec (unat len) c } }
      else if tag = SCV_ADDRESS then do { (a, c) \<leftarrow> read_address addr_str c; Some (Str a, c) }
      else if tag = SCV_CONTRACT_INSTANCE then do {
        (_, c) \<leftarrow> skip_contract_instance_payload rec c;
        Some (jobj [(''_xdr_tag'', json_u32 SCV_CONTRACT_INSTANCE)], c) }
      else if tag = SCV_LEDGER_KEY_CONTRACT_INSTANCE then
        Some (jobj [(''_xdr_tag'', json_u32 SCV_LEDGER_KEY_CONTRACT_INSTANCE)], c)
      else if tag = SCV_LEDGER_KEY_NONCE then do {
        (_, c) \<leftarrow> rd_i64 c; Some (jobj [(''_xdr_tag'', json_u32 SCV_LEDGER_KEY_NONCE)], c) }
      else None)"

lemma read_tagged_cong [fundef_cong]:
  "tag = tag' \<Longrightarrow> (\<And>c. f c = g c) \<Longrightarrow> c = c' \<Longrightarrow> read_tagged a f tag c = read_tagged a g tag' c'"
  by (auto dest: ext)

function read_scval :: "(sc_address \<Rightarrow> string) \<Rightarrow> nat \<Rightarrow> json reader" where
  "read_scval addr_str depth c =
     (if depth > MAX_DEPTH then None
      else do {
        (tag, c) \<leftarrow> rd_u32 c;
        read_tagged addr_str (read_scval addr_str (depth + 1)) tag c })"
  by pat_completeness auto
termination
  by (relation "measure (\<lambda>(a, depth, c). Suc MAX_DEPTH - depth)") auto

declare read_scval.simps [simp del]

section \<open>The cursor stays inside its buffer\<close>

definition advances :: "cursor \<Rightarrow> cursor \<Rightarrow> bool" where
  "advances c c' \<longleftrightarrow> buf c' = buf c \<and> pos c \<le> pos c'
     \<and> (pos c \<le> length (buf c) \<longrightarrow> pos c' \<le> length (buf c))"

lemma advances_refl [simp]: "advances c c"
  by (simp add: advances_def)

lemma advances_trans [trans]: "advances c d \<Longrightarrow> advances d e \<Longrightarrow> advances c e"
  by (auto simp: advances_def)

text \<open>
  \<open>ensures f P\<close>: whenever \<open>f\<close> succeeds, its result satisfies \<open>P\<close> and the cursor only moved
  forward, inside the buffer. The rules follow the syntax of the readers.
\<close>

definition ensures :: "'a reader \<Rightarrow> ('a \<Rightarrow> bool) \<Rightarrow> bool" where
  "ensures f P \<longleftrightarrow> (\<forall>c x c'. f c = Some (x, c') \<longrightarrow> P x \<and> advances c c')"

lemma ensuresI: "(\<And>c x c'. f c = Some (x, c') \<Longrightarrow> P x \<and> advances c c') \<Longrightarrow> ensures f P"
  by (auto simp: ensures_def)

lemma ensuresD: "ensures f P \<Longrightarrow> f c = Some (x, c') \<Longrightarrow> P x \<and> advances c c'"
  by (simp add: ensures_def)

lemma ensures_weaken: "ensures f Q \<Longrightarrow> (\<And>x. Q x \<Longrightarrow> P x) \<Longrightarrow> ensures f P"
  by (auto simp: ensures_def)

lemma ensures_bind:
  assumes "ensures f Q" "\<And>x. Q x \<Longrightarrow> ensures (g x) P"
  shows "ensures (\<lambda>c. Option.bind (f c) (\<lambda>(x, c). g x c)) P"
proof (rule ensuresI)
  fix c y c'
  assume "Option.bind (f c) (\<lambda>(x, c). g x c) = Some (y, c')"
  then obtain x d where "f c = Some (x, d)" "g x d = Some (y, c')"
    by (auto simp: bind_eq_Some_conv)
  with assms show "P y \<and> advances c c'"
    by (blast dest: ensuresD intro: advances_trans)
qed

lemma ensures_any: "ensures f Q \<Longrightarrow> ensures f (\<lambda>_. True)"
  by (rule ensures_weaken) simp_all

lemma ensures_step:
  "ensures f (\<lambda>_. True) \<Longrightarrow> (\<And>x. ensures (g x) P)
   \<Longrightarrow> ensures (\<lambda>c. Option.bind (f c) (\<lambda>(x, c). g x c)) P"
  by (rule ensures_bind)

lemma ensures_Some: "P v \<Longrightarrow> ensures (\<lambda>c. Some (v, c)) P"
  by (simp add: ensures_def)

lemma ensures_None: "ensures (\<lambda>c. None) P"
  by (simp add: ensures_def)

lemma ensures_if:
  "(b \<Longrightarrow> ensures f P) \<Longrightarrow> (\<not> b \<Longrightarrow> ensures g P) \<Longrightarrow> ensures (\<lambda>c. if b then f c else g c) P"
  by (cases b) auto

lemma ensures_take: "ensures (take_bytes n) (\<lambda>_. True)"
  by (rule ensuresI) (auto simp: take_bytes_def advances_def Let_def split: if_splits)

lemmas ensures_syntax = ensures_if ensures_None ensures_step

lemma ensures_prims:
  "ensures rd_u32 (\<lambda>_. True)" "ensures rd_i32 (\<lambda>_. True)"
  "ensures rd_u64 (\<lambda>_. True)" "ensures rd_i64 (\<lambda>_. True)"
  unfolding rd_u32_def [abs_def] rd_i32_def [abs_def] rd_u64_def [abs_def] rd_i64_def [abs_def]
  by (rule ensures_step [OF ensures_take], rule ensures_Some, simp)+

lemma ensures_var_bytes: "ensures var_bytes (\<lambda>_. True)"
  unfolding var_bytes_def [abs_def]
  by (intro ensures_syntax ensures_take ensures_prims ensures_Some TrueI)

lemma ensures_read_address: "ensures (read_address a) (\<lambda>_. True)"
  unfolding read_address_def [abs_def]
  by (intro ensures_syntax ensures_take ensures_prims ensures_Some TrueI)

lemma ensures_repeat:
  assumes "ensures f P"
  shows "ensures (repeat_read n f) (\<lambda>xs. length xs = n \<and> list_all P xs)"
proof (rule ensuresI)
  fix c xs c'
  assume "repeat_read n f c = Some (xs, c')"
  then show "(length xs = n \<and> list_all P xs) \<and> advances c c'"
  proof (induction n arbitrary: c xs)
    case (Suc n)
    then obtain x d ys where "f c = Some (x, d)" "repeat_read n f d = Some (ys, c')" "xs = x # ys"
      by (auto simp: bind_eq_Some_conv)
    with Suc.IH [of d ys] ensuresD [OF assms] show ?case
      by (auto intro: advances_trans)
  qed simp
qed

lemma ensures_pair:
  "ensures f P \<Longrightarrow> ensures (read_pair f) (\<lambda>p. P (fst p) \<and> P (snd p))"
  unfolding read_pair_def [abs_def]
  by (rule ensures_bind, assumption, rule ensures_bind, assumption, rule ensures_Some, simp)

section \<open>Nesting and well-formedness of the decoded value\<close>

fun jdepth :: "json \<Rightarrow> nat" where
  "jdepth (Array a) = Suc (Max (insert 0 (set (map jdepth a))))"
| "jdepth (Object m) = Suc (Max (insert 0 (set (map (\<lambda>p. jdepth (snd p)) m))))"
| "jdepth _ = 0"

lemma jdepth_Array: "(\<And>x. x \<in> set a \<Longrightarrow> jdepth x \<le> n) \<Longrightarrow> jdepth (Array a) \<le> Suc n"
  by auto

lemma jdepth_Object: "(\<And>p. p \<in> set m \<Longrightarrow> jdepth (snd p) \<le> n) \<Longrightarrow> jdepth (Object m) \<le> Suc n"
  by auto

lemma jdepth_jobj: "list_all (\<lambda>p. jdepth (snd p) \<le> n) kvs \<Longrightarrow> jdepth (jobj kvs) \<le> Suc n"
  unfolding jobj_def by (rule jdepth_Object) (auto simp: list_all_iff dest!: bt_of_list_values)

lemma jdepth_numbers [simp]: "jdepth (json_u32 n) = 0" "jdepth (json_i32 k) = 0"
  by (simp_all add: json_u32_def json_i64_def json_i32_def)

lemma jdepth_map_json:
  assumes "\<And>e. e \<in> set es \<Longrightarrow> jdepth (fst e) \<le> n \<and> jdepth (snd e) \<le> n"
  shows "jdepth (map_json es) \<le> Suc (Suc n)"
proof -
  have "jdepth (Array (map pair_json es)) \<le> Suc (Suc n)"
    by (rule jdepth_Array) (use assms in \<open>auto simp: pair_json_def intro!: jdepth_jobj\<close>)
  moreover have "jdepth (Object (bt_of_list (str_entries es))) \<le> Suc n"
    by (rule jdepth_Object) (use assms in \<open>fastforce dest!: bt_of_list_values str_entries_set\<close>)
  ultimately show ?thesis
    by (auto simp: map_json_def Let_def)
qed

lemma json_wf_map_json:
  assumes "\<And>e. e \<in> set es \<Longrightarrow> json_wf (fst e) \<and> json_wf (snd e)"
  shows "json_wf (map_json es)"
proof -
  have "json_wf (Object (bt_of_list (str_entries es)))"
    using assms by (auto simp: bt_of_list_inv dest!: bt_of_list_values str_entries_set)
  moreover have "json_wf (Array (map pair_json es))"
    using assms by (auto simp: pair_json_def)
  ultimately show ?thesis
    by (simp add: map_json_def Let_def)
qed

definition decoded_ok :: "nat \<Rightarrow> json \<Rightarrow> bool" where
  "decoded_ok depth v \<longleftrightarrow> depth \<le> MAX_DEPTH \<and> jdepth v \<le> 2 * (Suc MAX_DEPTH - depth) \<and> json_wf v"

lemma decoded_ok_leaf:
  "depth \<le> MAX_DEPTH \<Longrightarrow> jdepth v \<le> 2 \<Longrightarrow> json_wf v \<Longrightarrow> decoded_ok depth v"
  by (auto simp: decoded_ok_def MAX_DEPTH_def)

lemma decoded_ok_Array:
  assumes "depth \<le> MAX_DEPTH" "list_all (decoded_ok (depth + 1)) items"
  shows "decoded_ok depth (Array items)"
proof -
  have "jdepth (Array items) \<le> Suc (2 * (MAX_DEPTH - depth))"
    by (rule jdepth_Array) (use assms in \<open>auto simp: list_all_iff decoded_ok_def\<close>)
  moreover have "json_wf (Array items)"
    using assms by (auto simp: list_all_iff decoded_ok_def)
  ultimately show ?thesis
    using assms(1) unfolding decoded_ok_def by linarith
qed

lemma decoded_ok_map:
  assumes "depth \<le> MAX_DEPTH"
    "list_all (\<lambda>p. decoded_ok (depth + 1) (fst p) \<and> decoded_ok (depth + 1) (snd p)) es"
  shows "decoded_ok depth (map_json es)"
proof -
  have "jdepth (map_json es) \<le> Suc (Suc (2 * (MAX_DEPTH - depth)))"
    by (rule jdepth_map_json) (use assms in \<open>auto simp: list_all_iff decoded_ok_def\<close>)
  moreover have "json_wf (map_json es)"
    by (rule json_wf_map_json) (use assms in \<open>auto simp: list_all_iff decoded_ok_def\<close>)
  ultimately show ?thesis
    using assms by (auto simp: decoded_ok_def)
qed

lemma decoded_ok_obj:
  assumes "depth \<le> MAX_DEPTH" "jdepth v \<le> 1" "json_wf v"
  shows "decoded_ok depth (jobj [(k, v)])"
  using assms jdepth_jobj [of 1 "[(k, v)]"] by (intro decoded_ok_leaf) auto

lemma decoded_ok_error: "depth \<le> MAX_DEPTH \<Longrightarrow> decoded_ok depth (error_json t n)"
  unfolding error_json_def
  by (rule decoded_ok_obj) (auto intro!: jdepth_jobj [of 0, simplified])

lemma decoded_ok_text: "depth \<le> MAX_DEPTH \<Longrightarrow> decoded_ok depth (text_or_hex b)"
  by (rule decoded_ok_leaf) (auto simp: text_or_hex_def split: option.splits)

lemmas decoded_ok_leaves =
  decoded_ok_leaf [of _ Null] decoded_ok_leaf [of _ "Bool b" for b] decoded_ok_leaf [of _ "Str s" for s]
  decoded_ok_leaf [of _ "Array []"] decoded_ok_leaf [of _ "Object []"]
  decoded_ok_leaf [of _ "json_u32 n" for n] decoded_ok_leaf [of _ "json_i32 n" for n]

lemma ensures_exec:
  "ensures (\<lambda>c. if k = 0 then take_bytes 32 c else if k = 1 then Some ([], c) else None) (\<lambda>_. True)"
  by (intro ensures_if ensures_take ensures_Some ensures_None TrueI)

lemmas ensures_steps =
  ensures_prims [THEN ensures_step] ensures_take [THEN ensures_step]
  ensures_var_bytes [THEN ensures_step] ensures_read_address [THEN ensures_step]
  ensures_exec [THEN ensures_step]

lemma ensures_skip:
  "ensures rec P \<Longrightarrow> ensures (skip_contract_instance_payload rec) (\<lambda>_. True)"
  unfolding skip_contract_instance_payload_def [abs_def]
  by (intro ensures_if ensures_steps ensures_Some ensures_pair [THEN ensures_repeat, THEN ensures_bind]) simp_all

lemma ensures_read_map:
  assumes "depth \<le> MAX_DEPTH" "ensures rec (decoded_ok (depth + 1))"
  shows "ensures (read_map rec n) (decoded_ok depth)"
  unfolding read_map_def [abs_def]
  by (rule ensures_bind [OF ensures_repeat [OF ensures_pair [OF assms(2)]]])
    (use assms(1) in \<open>auto intro!: ensures_Some decoded_ok_map\<close>)

lemma ensures_read_tagged:
  assumes d: "depth \<le> MAX_DEPTH" and IH: "ensures rec (decoded_ok (depth + 1))"
  shows "ensures (read_tagged a rec tag) (decoded_ok depth)"
  unfolding read_tagged_def [abs_def]
  by (intro ensures_if ensures_None ensures_steps ensures_skip [OF IH, THEN ensures_step]
      ensures_bind [OF ensures_repeat [OF IH]] ensures_read_map [OF d IH] ensures_Some;
      use d in \<open>auto intro: decoded_ok_obj decoded_ok_error decoded_ok_text decoded_ok_leaves
        decoded_ok_Array\<close>)

lemma read_scval_ensures: "ensures (read_scval a depth) (decoded_ok depth)"
proof (induction "Suc MAX_DEPTH - depth" arbitrary: depth rule: less_induct)
  case less
  show ?case
  proof (cases "depth > MAX_DEPTH")
    case True
    then have "read_scval a depth = (\<lambda>c. None)"
      by (intro ext) (subst read_scval.simps, simp)
    then show ?thesis by (simp add: ensures_None)
  next
    case False
    with less have "ensures (read_scval a (depth + 1)) (decoded_ok (depth + 1))"
      by simp
    with False show ?thesis
      by (subst read_scval.simps [abs_def])
        (intro ensures_if ensures_None ensures_steps ensures_read_tagged; simp)
  qed
qed

section \<open>The wire format\<close>

fun be_bytes :: "nat \<Rightarrow> nat \<Rightarrow> u8 list" where
  "be_bytes 0 n = []"
| "be_bytes (Suc k) n = be_bytes k (n div 256) @ [of_nat (n mod 256)]"

definition xdr_u32 :: "u32 \<Rightarrow> u8 list" where
  "xdr_u32 w = be_bytes 4 (unat w)"

definition xdr_u64 :: "u64 \<Rightarrow> u8 list" where
  "xdr_u64 w = be_bytes 8 (unat w)"

definition xdr_opaque :: "u8 list \<Rightarrow> u8 list" where
  "xdr_opaque b = xdr_u32 (of_nat (length b)) @ b @ replicate ((4 - length b mod 4) mod 4) 0"

fun xdr_address :: "sc_address \<Rightarrow> u8 list" where
  "xdr_address (AccountAddr k) = xdr_u32 0 @ xdr_u32 0 @ k"
| "xdr_address (ContractAddr h) = xdr_u32 1 @ h"
| "xdr_address (MuxedAddr i k) = xdr_u32 2 @ xdr_u64 i @ k"
| "xdr_address (ClaimableBalanceAddr h) = xdr_u32 3 @ xdr_u32 0 @ h"
| "xdr_address (LiquidityPoolAddr h) = xdr_u32 4 @ h"

fun xdr_exec :: "contract_executable \<Rightarrow> u8 list" where
  "xdr_exec (WasmExec h) = xdr_u32 0 @ h"
| "xdr_exec StellarAsset = xdr_u32 1"

function xdr_scval :: "scval \<Rightarrow> u8 list" where
  "xdr_scval (ScBool b) = xdr_u32 SCV_BOOL @ xdr_u32 (of_bool b)"
| "xdr_scval ScVoid = xdr_u32 SCV_VOID"
| "xdr_scval (ScError (ScErr t n)) = xdr_u32 SCV_ERROR @ xdr_u32 t @ xdr_u32 n"
| "xdr_scval (ScU32 n) = xdr_u32 SCV_U32 @ xdr_u32 n"
| "xdr_scval (ScI32 n) = xdr_u32 SCV_I32 @ xdr_u32 n"
| "xdr_scval (ScU64 n) = xdr_u32 SCV_U64 @ xdr_u64 n"
| "xdr_scval (ScI64 n) = xdr_u32 SCV_I64 @ xdr_u64 n"
| "xdr_scval (ScTimepoint n) = xdr_u32 SCV_TIMEPOINT @ xdr_u64 n"
| "xdr_scval (ScDuration n) = xdr_u32 SCV_DURATION @ xdr_u64 n"
| "xdr_scval (ScU128 (UInt128Parts hi lo)) = xdr_u32 SCV_U128 @ xdr_u64 hi @ xdr_u64 lo"
| "xdr_scval (ScI128 (Int128Parts hi lo)) = xdr_u32 SCV_I128 @ xdr_u64 hi @ xdr_u64 lo"
| "xdr_scval (ScU256 (UInt256Parts a b c d)) =
     xdr_u32 SCV_U256 @ xdr_u64 a @ xdr_u64 b @ xdr_u64 c @ xdr_u64 d"
| "xdr_scval (ScI256 (Int256Parts a b c d)) =
     xdr_u32 SCV_I256 @ xdr_u64 a @ xdr_u64 b @ xdr_u64 c @ xdr_u64 d"
| "xdr_scval (ScBytes b) = xdr_u32 SCV_BYTES @ xdr_opaque b"
| "xdr_scval (ScString b) = xdr_u32 SCV_STRING @ xdr_opaque b"
| "xdr_scval (ScSymbol b) = xdr_u32 SCV_SYMBOL @ xdr_opaque b"
| "xdr_scval (ScVec None) = xdr_u32 SCV_VEC @ xdr_u32 0"
| "xdr_scval (ScVec (Some v)) =
     xdr_u32 SCV_VEC @ xdr_u32 1 @ xdr_u32 (of_nat (length v)) @ concat (map xdr_scval v)"
| "xdr_scval (ScMap None) = xdr_u32 SCV_MAP @ xdr_u32 0"
| "xdr_scval (ScMap (Some m)) =
     xdr_u32 SCV_MAP @ xdr_u32 1 @ xdr_u32 (of_nat (length m))
     @ concat (map (\<lambda>e. xdr_scval (fst e) @ xdr_scval (snd e)) m)"
| "xdr_scval (ScAddress a) = xdr_u32 SCV_ADDRESS @ xdr_address a"
| "xdr_scval (ContractInstance x None) =
     xdr_u32 SCV_CONTRACT_INSTANCE @ xdr_exec x @ xdr_u32 0"
| "xdr_scval (ContractInstance x (Some m)) =
     xdr_u32 SCV_CONTRACT_INSTANCE @ xdr_exec x @ xdr_u32 1 @ xdr_u32 (of_nat (length m))
     @ concat (map (\<lambda>e. xdr_scval (fst e) @ xdr_scval (snd e)) m)"
| "xdr_scval LedgerKeyContractInstance = xdr_u32 SCV_LEDGER_KEY_CONTRACT_INSTANCE"
| "xdr_scval (LedgerKeyNonce n) = xdr_u32 SCV_LEDGER_KEY_NONCE @ xdr_u64 n"
  by pat_completeness auto
termination
  by (relation "measure size") (auto intro: scval_sub_size)

text \<open>The JSON the module's table documents for the byte-level reader, variant by variant.\<close>

function byte_json :: "(sc_address \<Rightarrow> string) \<Rightarrow> scval \<Rightarrow> json" where
  "byte_json a (ScError (ScErr t n)) = error_json t n"
| "byte_json a (ScU256 (UInt256Parts p q r s)) =
     jobj [(''_u256_hex'', Str (hex (xdr_u64 p @ xdr_u64 q @ xdr_u64 r @ xdr_u64 s)))]"
| "byte_json a (ScI256 (Int256Parts p q r s)) =
     jobj [(''_u256_hex'', Str (hex (xdr_u64 p @ xdr_u64 q @ xdr_u64 r @ xdr_u64 s)))]"
| "byte_json a (ScVec (Some v)) = Array (map (byte_json a) v)"
| "byte_json a (ScMap (Some m)) = map_json (map (\<lambda>e. (byte_json a (fst e), byte_json a (snd e))) m)"
| "byte_json a (ContractInstance x st) = jobj [(''_xdr_tag'', json_u32 19)]"
| "byte_json a LedgerKeyContractInstance = jobj [(''_xdr_tag'', json_u32 20)]"
| "byte_json a (LedgerKeyNonce n) = jobj [(''_xdr_tag'', json_u32 21)]"
| "byte_json a (ScVec None) = Array []"
| "byte_json a (ScMap None) = Object []"
| "byte_json a (ScBool b) = decode_scval a (ScBool b)"
| "byte_json a ScVoid = decode_scval a ScVoid"
| "byte_json a (ScU32 n) = decode_scval a (ScU32 n)"
| "byte_json a (ScI32 n) = decode_scval a (ScI32 n)"
| "byte_json a (ScU64 x) = decode_scval a (ScU64 x)"
| "byte_json a (ScI64 x) = decode_scval a (ScI64 x)"
| "byte_json a (ScTimepoint x) = decode_scval a (ScTimepoint x)"
| "byte_json a (ScDuration x) = decode_scval a (ScDuration x)"
| "byte_json a (ScU128 p) = decode_scval a (ScU128 p)"
| "byte_json a (ScI128 p) = decode_scval a (ScI128 p)"
| "byte_json a (ScBytes b) = decode_scval a (ScBytes b)"
| "byte_json a (ScString b) = decode_scval a (ScString b)"
| "byte_json a (ScSymbol b) = decode_scval a (ScSymbol b)"
| "byte_json a (ScAddress x) = decode_scval a (ScAddress x)"
  by pat_completeness auto
termination
  by (relation "measure (\<lambda>(a, v). size v)") (auto intro: scval_sub_size)

text \<open>
  A value of the wire format: payload lengths that fit their 32-bit length prefixes, 32-byte
  keys and hashes. \<open>sdepth\<close> is the nesting depth.
\<close>

fun address_wf :: "sc_address \<Rightarrow> bool" where
  "address_wf (AccountAddr k) = (length k = 32)"
| "address_wf (ContractAddr k) = (length k = 32)"
| "address_wf (MuxedAddr i k) = (length k = 32)"
| "address_wf (ClaimableBalanceAddr k) = (length k = 32)"
| "address_wf (LiquidityPoolAddr k) = (length k = 32)"

fun exec_wf :: "contract_executable \<Rightarrow> bool" where
  "exec_wf (WasmExec h) = (length h = 32)"
| "exec_wf StellarAsset = True"

function scval_wf :: "scval \<Rightarrow> bool" where
  "scval_wf (ScBytes b) = (length b < 2 ^ 32)"
| "scval_wf (ScString b) = (length b < 2 ^ 32)"
| "scval_wf (ScSymbol b) = (length b < 2 ^ 32)"
| "scval_wf (ScVec (Some v)) = (length v < 2 ^ 32 \<and> list_all scval_wf v)"
| "scval_wf (ScMap (Some m)) =
     (length m < 2 ^ 32 \<and> list_all (\<lambda>e. scval_wf (fst e) \<and> scval_wf (snd e)) m)"
| "scval_wf (ContractInstance x (Some m)) =
     (exec_wf x \<and> length m < 2 ^ 32 \<and> list_all (\<lambda>e. scval_wf (fst e) \<and> scval_wf (snd e)) m)"
| "scval_wf (ContractInstance x None) = exec_wf x"
| "scval_wf (ScAddress a) = address_wf a"
| "scval_wf (ScVec None) = True"
| "scval_wf (ScMap None) = True"
| "scval_wf (ScBool b) = True"
| "scval_wf ScVoid = True"
| "scval_wf (ScError e) = True"
| "scval_wf (ScU32 n) = True"
| "scval_wf (ScI32 n) = True"
| "scval_wf (ScU64 x) = True"
| "scval_wf (ScI64 x) = True"
| "scval_wf (ScTimepoint x) = True"
| "scval_wf (ScDuration x) = True"
| "scval_wf (ScU128 p) = True"
| "scval_wf (ScI128 p') = True"
| "scval_wf (ScU256 q) = True"
| "scval_wf (ScI256 q') = True"
| "scval_wf LedgerKeyContractInstance = True"
| "scval_wf (LedgerKeyNonce x) = True"
  by pat_completeness auto
termination
  by (relation "measure size") (auto intro: scval_sub_size)

function sdepth :: "scval \<Rightarrow> nat" where
  "sdepth v = (case v of
     ScVec (Some xs) \<Rightarrow> Suc (foldr max (map sdepth xs) 0)
   | ScMap (Some m) \<Rightarrow> Suc (foldr max (map (\<lambda>e. max (sdepth (fst e)) (sdepth (snd e))) m) 0)
   | ContractInstance x (Some m) \<Rightarrow>
       Suc (foldr max (map (\<lambda>e. max (sdepth (fst e)) (sdepth (snd e))) m) 0)
   | _ \<Rightarrow> 0)"
  by pat_completeness auto
termination
  by (relation "measure size") (auto intro: scval_sub_size)

declare sdepth.simps [simp del]

lemma foldr_max_ge: "x \<in> set xs \<Longrightarrow> x \<le> foldr max xs (0 :: nat)"
  by (induction xs) auto

lemma sdepth_sub:
  "x \<in> set v \<Longrightarrow> sdepth x < sdepth (ScVec (Some v))"
  "e \<in> set m \<Longrightarrow> sdepth (fst e) < sdepth (ScMap (Some m)) \<and> sdepth (snd e) < sdepth (ScMap (Some m))"
  "e \<in> set m \<Longrightarrow> sdepth (fst e) < sdepth (ContractInstance y (Some m))
     \<and> sdepth (snd e) < sdepth (ContractInstance y (Some m))"
proof -
  have m: "max (sdepth (fst e)) (sdepth (snd e))
      \<le> foldr max (map (\<lambda>e. max (sdepth (fst e)) (sdepth (snd e))) m) 0" if "e \<in> set m"
    using that by (intro foldr_max_ge) auto
  show "x \<in> set v \<Longrightarrow> sdepth x < sdepth (ScVec (Some v))"
    using foldr_max_ge [of "sdepth x" "map sdepth v"]
    by (simp add: sdepth.simps [of "ScVec (Some v)"] less_Suc_eq_le)
  show "e \<in> set m \<Longrightarrow> sdepth (fst e) < sdepth (ScMap (Some m)) \<and> sdepth (snd e) < sdepth (ScMap (Some m))"
    using m by (simp add: sdepth.simps [of "ScMap (Some m)"])
  show "e \<in> set m \<Longrightarrow> sdepth (fst e) < sdepth (ContractInstance y (Some m))
     \<and> sdepth (snd e) < sdepth (ContractInstance y (Some m))"
    using m by (simp add: sdepth.simps [of "ContractInstance y (Some m)"])
qed

section \<open>Reading what was written\<close>

text \<open>
  \<open>reads f bs x\<close>: wherever \<open>bs\<close> stands in a buffer, \<open>f\<close> started there returns \<open>x\<close> and stops
  right behind it.
\<close>

definition reads :: "'a reader \<Rightarrow> u8 list \<Rightarrow> 'a \<Rightarrow> bool" where
  "reads f bs x \<longleftrightarrow> (\<forall>pre rest. f \<lparr>buf = pre @ bs @ rest, pos = length pre\<rparr>
     = Some (x, \<lparr>buf = pre @ bs @ rest, pos = length pre + length bs\<rparr>))"

lemma reads_bind:
  assumes "reads f bs x" "reads (g x) cs y"
  shows "reads (\<lambda>c. Option.bind (f c) (\<lambda>(x, c). g x c)) (bs @ cs) y"
  unfolding reads_def
proof (intro allI)
  fix pre rest
  have "f \<lparr>buf = pre @ (bs @ cs) @ rest, pos = length pre\<rparr>
      = Some (x, \<lparr>buf = pre @ bs @ cs @ rest, pos = length pre + length bs\<rparr>)"
    using assms(1) by (simp add: reads_def)
  moreover have "g x \<lparr>buf = (pre @ bs) @ cs @ rest, pos = length (pre @ bs)\<rparr>
      = Some (y, \<lparr>buf = (pre @ bs) @ cs @ rest, pos = length (pre @ bs) + length cs\<rparr>)"
    using assms(2) unfolding reads_def by blast
  ultimately show "Option.bind (f \<lparr>buf = pre @ (bs @ cs) @ rest, pos = length pre\<rparr>) (\<lambda>(x, c). g x c)
      = Some (y, \<lparr>buf = pre @ (bs @ cs) @ rest, pos = length pre + length (bs @ cs)\<rparr>)"
    by (simp add: add.assoc)
qed

lemma reads_Some: "reads (\<lambda>c. Some (v, c)) [] v"
  by (simp add: reads_def)

lemma reads_last:
  "reads f bs x \<Longrightarrow> y = h x \<Longrightarrow> reads (\<lambda>c. Option.bind (f c) (\<lambda>(x, c). Some (h x, c))) bs y"
  using reads_bind [of f bs x "\<lambda>x c. Some (h x, c)" "[]" "h x"] by (simp add: reads_Some)

lemma reads_take: "length bs = n \<Longrightarrow> reads (take_bytes n) bs bs"
  by (auto simp: reads_def take_bytes_def)

lemma length_be_bytes [simp]: "length (be_bytes k n) = k"
  by (induction k arbitrary: n) auto

lemma be_val_be_bytes [codec_simps]: "be_val (be_bytes k n) = n mod 256 ^ k"
proof (induction k arbitrary: n)
  case (Suc k)
  have "unat (of_nat (n mod 256) :: u8) = n mod 256"
    by (simp add: unat_of_nat take_bit_eq_mod)
  then have "be_val (be_bytes (Suc k) n) = be_val (be_bytes k (n div 256)) * 256 + n mod 256"
    by (simp add: be_val_def)
  also have "\<dots> = n mod 256 ^ Suc k"
    by (simp add: Suc mod_mult2_eq mult.commute)
  finally show ?case .
qed (simp add: be_val_def)

lemma reads_prims:
  "reads rd_u32 (xdr_u32 w) w" "reads rd_i32 (xdr_u32 w) w"
  "reads rd_u64 (xdr_u64 x) x" "reads rd_i64 (xdr_u64 x) x"
proof -
  have "unat w < 256 ^ 4" "unat x < 256 ^ 8"
    using unsigned_less [where 'a = nat, of w] unsigned_less [where 'a = nat, of x] by auto
  then have v: "of_nat (be_val (xdr_u32 w)) = w" "of_nat (be_val (xdr_u64 x)) = x"
    by (simp_all add: xdr_u32_def xdr_u64_def be_val_be_bytes)
  have l: "length (xdr_u32 w) = 4" "length (xdr_u64 x) = 8"
    by (simp_all add: xdr_u32_def xdr_u64_def)
  show "reads rd_u32 (xdr_u32 w) w" unfolding rd_u32_def [abs_def]
    by (rule reads_last [OF reads_take [OF l(1)]]) (simp add: v)
  show "reads rd_i32 (xdr_u32 w) w" unfolding rd_i32_def [abs_def]
    by (rule reads_last [OF reads_take [OF l(1)]]) (simp add: v)
  show "reads rd_u64 (xdr_u64 x) x" unfolding rd_u64_def [abs_def]
    by (rule reads_last [OF reads_take [OF l(2)]]) (simp add: v)
  show "reads rd_i64 (xdr_u64 x) x" unfolding rd_i64_def [abs_def]
    by (rule reads_last [OF reads_take [OF l(2)]]) (simp add: v)
qed

lemma unat_of_nat_32: "n < 2 ^ 32 \<Longrightarrow> unat (of_nat n :: u32) = n"
  by (simp add: unat_of_nat take_bit_nat_eq_self)

lemma reads_var_bytes:
  assumes "length b < 2 ^ 32"
  shows "reads var_bytes (xdr_opaque b) b"
  unfolding var_bytes_def [abs_def] xdr_opaque_def
  by (rule reads_bind [OF reads_prims(1)], rule reads_bind [OF reads_take],
      simp add: unat_of_nat_32 [OF assms], rule reads_last [OF reads_take])
    (simp_all add: unat_of_nat_32 [OF assms])

lemma reads_repeat:
  assumes "\<And>x. x \<in> set xs \<Longrightarrow> reads f (enc x) (val x)"
  shows "reads (repeat_read (length xs) f) (concat (map enc xs)) (map val xs)"
  using assms
proof (induction xs)
  case Nil
  show ?case by (simp add: reads_def)
next
  case (Cons x xs)
  have "reads (\<lambda>c. Option.bind (f c) (\<lambda>(y, c). Option.bind (repeat_read (length xs) f c)
      (\<lambda>(ys, c). Some (y # ys, c)))) (enc x @ concat (map enc xs)) (val x # map val xs)"
    by (rule reads_bind [OF Cons.prems [of x]], simp,
        rule reads_last [OF Cons.IH], use Cons.prems in auto)
  then show ?case
    by (simp add: reads_def)
qed

lemma reads_pair:
  "reads f bs x \<Longrightarrow> reads f cs y \<Longrightarrow> reads (read_pair f) (bs @ cs) (x, y)"
  unfolding read_pair_def [abs_def] by (rule reads_bind, assumption, rule reads_last, assumption, simp)

lemma reads_if: "reads (if b then f else g) bs x \<Longrightarrow> reads (\<lambda>c. if b then f c else g c) bs x"
  by (cases b) auto

lemma reads_read_address:
  assumes "address_wf x"
  shows "reads (read_address a) (xdr_address x) (a x)"
  using assms unfolding read_address_def [abs_def]
  by (cases x)
    (simp_all, (rule reads_bind [OF reads_prims(1)], simp;
      (rule reads_bind [OF reads_prims(1)] reads_bind [OF reads_prims(3)])?; simp?;
      rule reads_last [OF reads_take]; simp)+)

lemma reads_exec:
  assumes "exec_wf x" "reads g bs y"
  shows "reads (\<lambda>c. Option.bind (rd_u32 c) (\<lambda>(k, c). Option.bind
           (if k = 0 then take_bytes 32 c else if k = 1 then Some ([], c) else None)
           (\<lambda>(_, c). g c))) (xdr_exec x @ bs) y"
proof (cases x)
  case (WasmExec h)
  have "reads (\<lambda>c. Option.bind (take_bytes 32 c) (\<lambda>(_, c). g c)) (h @ bs) y"
    using assms WasmExec by (intro reads_bind [OF reads_take]) simp_all
  with WasmExec show ?thesis
    by (simp, intro reads_bind [OF reads_prims(1)]) simp
next
  case StellarAsset
  with assms show ?thesis
    by (simp, intro reads_bind [OF reads_prims(1)]) simp
qed

lemma reads_entries:
  assumes "length m < 2 ^ 32"
    "\<And>e. e \<in> set m \<Longrightarrow> reads rec (xdr_scval (fst e)) (val (fst e)) \<and> reads rec (xdr_scval (snd e)) (val (snd e))"
  shows "reads (repeat_read (unat (of_nat (length m) :: u32)) (read_pair rec))
           (concat (map (\<lambda>e. xdr_scval (fst e) @ xdr_scval (snd e)) m))
           (map (\<lambda>e. (val (fst e), val (snd e))) m)"
  unfolding unat_of_nat_32 [OF assms(1)]
  by (rule reads_repeat) (use assms(2) in \<open>blast intro: reads_pair\<close>)

text \<open>The arms of \<open>read_tagged\<close> that call back, given readers for the components.\<close>

lemma reads_vec:
  assumes "length v < 2 ^ 32" "\<And>x. x \<in> set v \<Longrightarrow> reads rec (xdr_scval x) (val x)"
  shows "reads (read_tagged a rec SCV_VEC)
    (xdr_u32 1 @ xdr_u32 (of_nat (length v)) @ concat (map xdr_scval v)) (Array (map val v))"
proof -
  have "reads (repeat_read (unat (of_nat (length v) :: u32)) rec) (concat (map xdr_scval v)) (map val v)"
    unfolding unat_of_nat_32 [OF assms(1)] using assms(2) by (rule reads_repeat)
  then show ?thesis
    unfolding read_tagged_def [abs_def]
    by (simp, intro reads_bind [OF reads_prims(1)], simp)
      (intro reads_bind [OF reads_prims(1)], rule reads_last, simp_all)
qed

lemma reads_map:
  assumes "length m < 2 ^ 32"
    "\<And>e. e \<in> set m \<Longrightarrow> reads rec (xdr_scval (fst e)) (val (fst e)) \<and> reads rec (xdr_scval (snd e)) (val (snd e))"
  shows "reads (read_tagged a rec SCV_MAP)
    (xdr_u32 1 @ xdr_u32 (of_nat (length m)) @ concat (map (\<lambda>e. xdr_scval (fst e) @ xdr_scval (snd e)) m))
    (map_json (map (\<lambda>e. (val (fst e), val (snd e))) m))"
  unfolding read_tagged_def [abs_def] read_map_def
  by (simp, rule reads_bind [OF reads_prims(1)], simp, rule reads_bind [OF reads_prims(1)])
    (rule reads_last [OF reads_entries [OF assms]], simp_all)

lemma reads_instance:
  assumes "exec_wf x" "length m < 2 ^ 32"
    "\<And>e. e \<in> set m \<Longrightarrow> reads rec (xdr_scval (fst e)) (val (fst e)) \<and> reads rec (xdr_scval (snd e)) (val (snd e))"
  shows "reads (read_tagged a rec SCV_CONTRACT_INSTANCE)
    (xdr_exec x @ xdr_u32 1 @ xdr_u32 (of_nat (length m))
     @ concat (map (\<lambda>e. xdr_scval (fst e) @ xdr_scval (snd e)) m))
    (jobj [(''_xdr_tag'', json_u32 19)])"
proof -
  have "reads (skip_contract_instance_payload rec) (xdr_exec x @ xdr_u32 1 @ xdr_u32 (of_nat (length m))
     @ concat (map (\<lambda>e. xdr_scval (fst e) @ xdr_scval (snd e)) m)) ()"
    unfolding skip_contract_instance_payload_def [abs_def]
    by (rule reads_exec [OF assms(1)], rule reads_bind [OF reads_prims(1)], simp,
        rule reads_bind [OF reads_prims(1)])
      (rule reads_last [OF reads_entries [OF assms(2,3)]], simp_all)
  then show ?thesis
    unfolding read_tagged_def [abs_def] by (simp, rule reads_last) simp_all
qed

lemma reads_instance_None:
  assumes "exec_wf x"
  shows "reads (read_tagged a rec SCV_CONTRACT_INSTANCE) (xdr_exec x @ xdr_u32 0)
    (jobj [(''_xdr_tag'', json_u32 19)])"
proof -
  have "reads (skip_contract_instance_payload rec) (xdr_exec x @ xdr_u32 0) ()"
    unfolding skip_contract_instance_payload_def [abs_def]
    by (rule reads_exec [OF assms(1)], rule reads_bind [OF reads_prims(1), where cs = "[]", simplified])
      (simp add: reads_Some)
  then show ?thesis
    unfolding read_tagged_def [abs_def] by (simp, rule reads_last) simp_all
qed

lemma reads_bool: "reads (read_tagged a rec SCV_BOOL) (xdr_u32 (of_bool b)) (Bool b)"
proof -
  have "reads (\<lambda>c. Option.bind (rd_u32 c) (\<lambda>(raw, c).
      if raw = 0 then Some (Bool False, c) else if raw = 1 then Some (Bool True, c) else None))
    (xdr_u32 (of_bool b) @ []) (Bool b)"
    by (rule reads_bind [OF reads_prims(1)]) (cases b, simp_all add: reads_Some)
  then show ?thesis
    by (simp add: read_tagged_def [abs_def])
qed

lemma reads_no_payload:
  "reads (read_tagged a rec SCV_VOID) [] Null"
  "reads (read_tagged a rec SCV_LEDGER_KEY_CONTRACT_INSTANCE) [] (jobj [(''_xdr_tag'', json_u32 20)])"
  unfolding read_tagged_def [abs_def] by (simp_all add: reads_Some)

lemma reads_numbers:
  "reads (read_tagged a rec SCV_U32) (xdr_u32 w) (json_u32 w)"
  "reads (read_tagged a rec SCV_I32) (xdr_u32 w) (json_i32 w)"
  "reads (read_tagged a rec SCV_U64) (xdr_u64 x) (Str (show_nat (unat x)))"
  "reads (read_tagged a rec SCV_I64) (xdr_u64 x) (Str (show_int (sint x)))"
  "reads (read_tagged a rec SCV_TIMEPOINT) (xdr_u64 x) (Str (show_nat (unat x)))"
  "reads (read_tagged a rec SCV_DURATION) (xdr_u64 x) (Str (show_nat (unat x)))"
  "reads (read_tagged a rec SCV_LEDGER_KEY_NONCE) (xdr_u64 x) (jobj [(''_xdr_tag'', json_u32 21)])"
  unfolding read_tagged_def [abs_def]
  by (simp, rule reads_last [OF reads_prims(1)], simp)
    (simp, rule reads_last [OF reads_prims(2)], simp, simp, rule reads_last [OF reads_prims(3)], simp,
     simp, rule reads_last [OF reads_prims(4)], simp, simp, rule reads_last [OF reads_prims(3)], simp,
     simp, rule reads_last [OF reads_prims(3)], simp, simp, rule reads_last [OF reads_prims(4)], simp)

lemma reads_two_words:
  "reads (read_tagged a rec SCV_ERROR) (xdr_u32 w @ xdr_u32 w') (error_json w w')"
  "reads (read_tagged a rec SCV_U128) (xdr_u64 x @ xdr_u64 y) (Str (u128_to_string (UInt128Parts x y)))"
  "reads (read_tagged a rec SCV_I128) (xdr_u64 x @ xdr_u64 y) (Str (i128_to_string (Int128Parts x y)))"
  unfolding read_tagged_def [abs_def]
  by (simp, rule reads_bind [OF reads_prims(1)], rule reads_last [OF reads_prims(1)], simp)
    (simp, rule reads_bind [OF reads_prims(3)], rule reads_last [OF reads_prims(3)], simp,
     simp, rule reads_bind [OF reads_prims(4)], rule reads_last [OF reads_prims(3)], simp)

lemma reads_u256:
  assumes "length bs = 32"
  shows "reads (read_tagged a rec SCV_U256) bs (jobj [(''_u256_hex'', Str (hex bs))])"
    and "reads (read_tagged a rec SCV_I256) bs (jobj [(''_u256_hex'', Str (hex bs))])"
  unfolding read_tagged_def [abs_def]
  by (simp, rule reads_last [OF reads_take [OF assms]], simp)
    (simp, rule reads_last [OF reads_take [OF assms]], simp)

lemma reads_opaque:
  assumes "length b < 2 ^ 32"
  shows "reads (read_tagged a rec SCV_BYTES) (xdr_opaque b) (Str (''0x'' @ hex b))"
    and "reads (read_tagged a rec SCV_STRING) (xdr_opaque b) (text_or_hex b)"
    and "reads (read_tagged a rec SCV_SYMBOL) (xdr_opaque b) (text_or_hex b)"
  unfolding read_tagged_def [abs_def]
  by (simp, rule reads_last [OF reads_var_bytes [OF assms]], simp)
    (simp, rule reads_last [OF reads_var_bytes [OF assms]], simp,
     simp, rule reads_last [OF reads_var_bytes [OF assms]], simp)

lemma reads_absent:
  "reads (read_tagged a rec SCV_VEC) (xdr_u32 0) (Array [])"
  "reads (read_tagged a rec SCV_MAP) (xdr_u32 0) (Object [])"
  unfolding read_tagged_def [abs_def]
  by (simp, rule reads_bind [OF reads_prims(1), where cs = "[]", simplified], simp add: reads_Some)
    (simp, rule reads_bind [OF reads_prims(1), where cs = "[]", simplified], simp add: reads_Some)

lemma reads_tagged_address:
  "address_wf x \<Longrightarrow> reads (read_tagged a rec SCV_ADDRESS) (xdr_address x) (Str (a x))"
  unfolding read_tagged_def [abs_def] by (simp, rule reads_last [OF reads_read_address]) simp_all

lemmas reads_flat = reads_bool reads_no_payload reads_numbers reads_two_words reads_u256
  reads_opaque reads_absent reads_tagged_address reads_instance_None

lemma read_scval_step:
  assumes "depth \<le> MAX_DEPTH" "reads (read_tagged a (read_scval a (depth + 1)) t) bs x"
  shows "reads (read_scval a depth) (xdr_u32 t @ bs) x"
proof -
  have "read_scval a depth = (\<lambda>c. Option.bind (rd_u32 c)
      (\<lambda>(tag, c). read_tagged a (read_scval a (depth + 1)) tag c))"
    using assms(1) by (intro ext) (subst read_scval.simps, simp)
  then show ?thesis
    by (simp only:) (rule reads_bind [OF reads_prims(1)], rule assms(2))
qed

lemma read_scval_reads:
  assumes "scval_wf v" "depth + sdepth v \<le> MAX_DEPTH"
  shows "reads (read_scval a depth) (xdr_scval v) (byte_json a v)"
  using assms
proof (induction "size v" arbitrary: v depth rule: less_induct)
  case less
  have d: "depth \<le> MAX_DEPTH"
    using less.prems by simp
  note step = read_scval_step [OF d]
  have vec: ?case if v: "v = ScVec (Some xs)" for xs
    unfolding v xdr_scval.simps byte_json.simps
    using less.prems v sdepth_sub(1) [of _ xs]
    by (intro step reads_vec less.hyps) (force simp: list_all_iff intro: scval_sub_size)+
  have map: ?case if v: "v = ScMap (Some m)" for m
    unfolding v xdr_scval.simps byte_json.simps
    using less.prems v sdepth_sub(2) [of _ m]
    by (intro step reads_map conjI less.hyps) (force simp: list_all_iff intro: scval_sub_size)+
  have inst: ?case if v: "v = ContractInstance x (Some m)" for x m
    unfolding v xdr_scval.simps byte_json.simps
    using less.prems v sdepth_sub(3) [of _ m x]
    by (intro step reads_instance [where val = "byte_json a"] conjI less.hyps) (force simp: list_all_iff intro: scval_sub_size)+
  have "reads (read_scval a depth) (xdr_u32 t) x"
    if "reads (read_tagged a (read_scval a (depth + 1)) t) [] x" for t x
    using step [OF that] by simp
  note flat = reads_flat [THEN step] reads_no_payload [THEN this]
  have u256: "length (xdr_u64 p @ xdr_u64 q @ xdr_u64 r @ xdr_u64 s) = 32" for p q r s
    by (simp add: xdr_u64_def)
  show ?case
  proof (cases "(\<exists>xs. v = ScVec (Some xs)) \<or> (\<exists>m. v = ScMap (Some m)) \<or> (\<exists>x m. v = ContractInstance x (Some m))")
    case True
    then show ?thesis using vec map inst by blast
  next
    case False
    then show ?thesis
      by (cases v rule: xdr_scval.cases)
        (use less.prems in \<open>simp_all only: xdr_scval.simps byte_json.simps decode_scval.simps
          scval_wf.simps flat u256, blast+\<close>)
  qed
qed

section \<open>Properties\<close>

text \<open>
  Claim C6. Reading back the wire format: wherever the XDR encoding of a value stands in a buffer,
  \<^verbatim>\<open>read_scval\<close> started there succeeds, returns the JSON of that value and leaves the cursor right
  behind the encoding, provided the value nests at most 256 levels deep.
\<close>

theorem byte_reader_roundtrip:
  assumes "scval_wf v" "sdepth v \<le> MAX_DEPTH"
  shows "read_scval a 0 \<lparr>buf = pre @ xdr_scval v @ rest, pos = length pre\<rparr>
    = Some (byte_json a v, \<lparr>buf = pre @ xdr_scval v @ rest, pos = length pre + length (xdr_scval v)\<rparr>)"
  using read_scval_reads [of v 0 a] assms unfolding reads_def by simp

theorem byte_reader_roundtrip_witness:
  "read_scval (\<lambda>_. []) 0 \<lparr>buf = xdr_scval (ScVec (Some [ScU32 7])) @ [255], pos = 0\<rparr>
    = Some (Array [json_u32 7], \<lparr>buf = xdr_scval (ScVec (Some [ScU32 7])) @ [255], pos = 20\<rparr>)"
proof -
  let ?v = "ScVec (Some [ScU32 7])"
  have "scval_wf ?v" "sdepth ?v \<le> MAX_DEPTH" "length (xdr_scval ?v) = 20"
    by (simp_all add: sdepth.simps MAX_DEPTH_def xdr_u32_def)
  then show ?thesis
    using byte_reader_roundtrip [of ?v "\<lambda>_. []" "[]" "[255]"] by (simp del: xdr_scval.simps)
qed

lemma take_bytes_pos: "take_bytes n c = Some (x, c') \<Longrightarrow> pos c' = pos c + n"
  by (auto simp: take_bytes_def Let_def split: if_splits)

lemma read_scval_progress:
  assumes "read_scval a depth c = Some (j, c')"
  shows "pos c + 4 \<le> pos c'"
proof -
  obtain tag d where *: "rd_u32 c = Some (tag, d)" "depth \<le> MAX_DEPTH"
    "read_tagged a (read_scval a (depth + 1)) tag d = Some (j, c')"
    using assms by (subst (asm) read_scval.simps) (auto simp: bind_eq_Some_conv split: if_splits)
  have "pos d = pos c + 4"
    using *(1) by (auto simp: rd_u32_def bind_eq_Some_conv dest: take_bytes_pos)
  moreover have "advances d c'"
    using ensuresD [OF ensures_read_tagged [OF *(2) read_scval_ensures] *(3)] by simp
  ultimately show ?thesis
    by (simp add: advances_def)
qed

text \<open>
  Claim C7. Safety of the byte reader on arbitrary, possibly hostile input: a successful
  \<^verbatim>\<open>read_scval\<close> consumed at least the tag, stayed inside the buffer, did not change it, was within
  the depth limit, and returned a well-formed JSON value of bounded nesting.
\<close>

theorem byte_reader_safe:
  assumes "read_scval a depth c = Some (j, c')" "pos c \<le> length (buf c)"
  shows "buf c' = buf c \<and> pos c + 4 \<le> pos c' \<and> pos c' \<le> length (buf c)
    \<and> depth \<le> MAX_DEPTH \<and> jdepth j \<le> 2 * (257 - depth) \<and> json_wf j"
  using ensuresD [OF read_scval_ensures assms(1)] read_scval_progress [OF assms(1)] assms(2)
  by (auto simp: advances_def decoded_ok_def MAX_DEPTH_def)

theorem byte_reader_safe_witness:
  "\<exists>c'. read_scval (\<lambda>_. []) 0 \<lparr>buf = [0,0,0,0,0,0,0,1], pos = 0\<rparr> = Some (Bool True, c') \<and> pos c' \<le> 8"
proof -
  let ?c = "\<lparr>buf = [0,0,0,0,0,0,0,1], pos = 0\<rparr>"
  have "read_scval (\<lambda>_. []) 0 ?c = Some (Bool True, \<lparr>buf = [0,0,0,0,0,0,0,1], pos = 8\<rparr>)"
    by (simp add: read_scval.simps read_tagged_def rd_u32_def take_bytes_def be_val_def MAX_DEPTH_def)
  then show ?thesis
    using byte_reader_safe [of "\<lambda>_. []" 0 ?c "Bool True"] by auto
qed

text \<open>
  The typed and the byte-level decoder: the values on which they are documented to agree and do.
  Maps must have no two keys that decode to the same string.
\<close>

definition no_collision :: "(json \<times> json) list \<Rightarrow> bool" where
  "no_collision es \<longleftrightarrow> (list_all (\<lambda>e. is_str (fst e)) es \<longrightarrow> distinct (map fst (str_entries es)))"

lemma map_json_eq_decode_map: "map_json es = decode_map es \<longleftrightarrow> no_collision es"
  by (auto simp: map_json_def decode_map_def no_collision_def Let_def)

function agreeing :: "(sc_address \<Rightarrow> string) \<Rightarrow> scval \<Rightarrow> bool" where
  "agreeing a v = (case v of
     ScError _ \<Rightarrow> False
   | ScU256 _ \<Rightarrow> False
   | ScI256 _ \<Rightarrow> False
   | LedgerKeyContractInstance \<Rightarrow> False
   | LedgerKeyNonce _ \<Rightarrow> False
   | ContractInstance _ _ \<Rightarrow> False
   | ScVec (Some xs) \<Rightarrow> list_all (agreeing a) xs
   | ScMap (Some m) \<Rightarrow> list_all (\<lambda>e. agreeing a (fst e) \<and> agreeing a (snd e)) m
       \<and> no_collision (map (\<lambda>e. (decode_scval a (fst e), decode_scval a (snd e))) m)
   | _ \<Rightarrow> True)"
  by pat_completeness auto
termination
  by (relation "measure (\<lambda>(a, v). size v)") (auto intro: scval_sub_size)

declare agreeing.simps [simp del]

lemma decoders_agree_on: "agreeing a v \<Longrightarrow> byte_json a v = decode_scval a v"
proof (induction a v rule: byte_json.induct)
  case (4 a v)
  then show ?case by (simp add: agreeing.simps [of a "ScVec (Some v)"] list_all_iff)
next
  case (5 a m)
  then have "map (\<lambda>e. (byte_json a (fst e), byte_json a (snd e))) m
      = map (\<lambda>e. (decode_scval a (fst e), decode_scval a (snd e))) m"
    "no_collision (map (\<lambda>e. (decode_scval a (fst e), decode_scval a (snd e))) m)"
    by (auto simp: agreeing.simps [of a "ScMap (Some m)"] list_all_iff)
  then show ?case unfolding byte_json.simps decode_scval.simps by (metis map_json_eq_decode_map)
qed (auto simp: agreeing.simps)

text \<open>
  Claim C8. The two decoders of a decoded map: they give the same JSON exactly when the keys do
  not collide. On a collision the byte reader returns the list of pairs, while the typed
  decoder returns an object in which the last of the colliding entries has silently replaced
  the others. Hence on values without collisions, errors, 256-bit integers and instance
  entries, what the byte reader returns for the wire format is what the typed decoder returns.
\<close>

theorem decoders_agree:
  "(map_json es = decode_map es \<longleftrightarrow> no_collision es)
   \<and> (\<not> no_collision es \<longrightarrow> map_json es = Array (map pair_json es)
        \<and> decode_map es = Object (bt_of_list (str_entries es)))
   \<and> (agreeing a v \<longrightarrow> scval_wf v \<longrightarrow> sdepth v \<le> MAX_DEPTH \<longrightarrow>
        map_option fst (read_scval a 0 (cursor_new (xdr_scval v))) = Some (decode_scval a v))"
proof (intro conjI impI)
  show "map_json es = decode_map es \<longleftrightarrow> no_collision es"
    by (rule map_json_eq_decode_map)
  assume v: "agreeing a v" "scval_wf v" "sdepth v \<le> MAX_DEPTH"
  then have "read_scval a 0 \<lparr>buf = [] @ xdr_scval v @ [], pos = length []\<rparr>
      = Some (byte_json a v, \<lparr>buf = [] @ xdr_scval v @ [], pos = length [] + length (xdr_scval v)\<rparr>)"
    using read_scval_reads [of v 0 a, unfolded reads_def, THEN spec, THEN spec, of "[]" "[]"] by simp
  with v(1) show "map_option fst (read_scval a 0 (cursor_new (xdr_scval v))) = Some (decode_scval a v)"
    by (simp add: cursor_new_def decoders_agree_on)
qed (auto simp: map_json_def decode_map_def no_collision_def Let_def)

theorem decoders_agree_witness:
  "map_json [(Str ''a'', Null), (Str ''a'', Bool True)] \<noteq> decode_map [(Str ''a'', Null), (Str ''a'', Bool True)]
   \<and> decode_map [(Str ''a'', Null), (Str ''a'', Bool True)] = Object [(''a'', Bool True)]
   \<and> map_option fst (read_scval (\<lambda>_. []) 0 (cursor_new (xdr_scval (ScVec (Some [ScVoid])))))
       = Some (Array [Null])"
proof -
  let ?v = "ScVec (Some [ScVoid])"
  let ?es = "[(Str ''a'', Null), (Str ''a'', Bool True)]"
  have "agreeing (\<lambda>_. []) ?v" "scval_wf ?v" "sdepth ?v \<le> MAX_DEPTH"
    by (simp_all add: agreeing.simps sdepth.simps MAX_DEPTH_def)
  moreover have "\<not> no_collision ?es" "bt_of_list (str_entries ?es) = [(''a'', Bool True)]"
    by code_simp+
  ultimately show ?thesis
    using decoders_agree [of ?es "\<lambda>_. []" ?v] by simp
qed

end
