(* ===== verification/Wasm_Section.thy ===== *)
theory Wasm_Section
  imports Xdr_Cursor
begin

text \<open>
  The WASM walk of \<^verbatim>\<open>crates/lumenqraph-core/src/spec.rs\<close>: the \<^verbatim>\<open>Reader\<close> (a buffer and a position,
  the fields of \<open>cursor\<close>), LEB128 numbers bounded to five bytes, and the search for a custom
  section by name. \<open>wasm_module\<close> is the module layout the search is checked against.
\<close>

section \<open>The reader\<close>

definition reader_byte :: "u8 reader" where
  "reader_byte c = (if pos c < length (buf c) then Some (buf c ! pos c, c\<lparr>pos := pos c + 1\<rparr>) else None)"

definition reader_take :: "nat \<Rightarrow> u8 list reader" where
  "reader_take n c =
     (let stop = pos c + n
      in if stop \<le> length (buf c) then Some (take n (drop (pos c) (buf c)), c\<lparr>pos := stop\<rparr>) else None)"

fun leb_loop :: "nat \<Rightarrow> u32 \<Rightarrow> nat \<Rightarrow> u32 reader" where
  "leb_loop 0 res shift c = None"
| "leb_loop (Suc k) res shift c = do {
     (byte, c) \<leftarrow> reader_byte c;
     let res = res OR push_bit shift (ucast (byte AND 0x7f));
     if byte AND 0x80 = 0 then Some (res, c) else leb_loop k res (shift + 7) c }"

definition leb_u32 :: "u32 reader" where
  "leb_u32 c = leb_loop 5 0 0 c"

section \<open>The section search\<close>

definition slice_get :: "u8 list \<Rightarrow> nat \<Rightarrow> nat \<Rightarrow> u8 list option" where
  "slice_get w i j = (if i \<le> j \<and> j \<le> length w then Some (take (j - i) (drop i w)) else None)"

lemma reader_byte_Some:
  "reader_byte c = Some (b, c') \<Longrightarrow> buf c' = buf c \<and> pos c' = Suc (pos c) \<and> pos c' \<le> length (buf c)"
  by (auto simp: reader_byte_def split: if_splits)

lemma leb_loop_Some:
  "leb_loop k res s c = Some (x, c') \<Longrightarrow> buf c' = buf c \<and> pos c < pos c' \<and> pos c' \<le> length (buf c)"
proof (induction k arbitrary: res s c)
  case (Suc k)
  then obtain b d where d: "reader_byte c = Some (b, d)"
    and "(if b AND 0x80 = 0 then Some (res OR push_bit s (ucast (b AND 0x7f)), d)
          else leb_loop k (res OR push_bit s (ucast (b AND 0x7f))) (s + 7) d) = Some (x, c')"
    by (auto simp: bind_eq_Some_conv Let_def)
  then show ?case
    using reader_byte_Some [OF d]
      Suc.IH [of "res OR push_bit s (ucast (b AND 0x7f))" "s + 7" d] by (auto split: if_splits)
qed simp

lemma leb_u32_Some:
  "leb_u32 c = Some (x, c') \<Longrightarrow> buf c' = buf c \<and> pos c < pos c' \<and> pos c' \<le> length (buf c)"
  unfolding leb_u32_def by (rule leb_loop_Some)

lemma reader_take_Some:
  "reader_take n c = Some (x, c') \<Longrightarrow>
   buf c' = buf c \<and> pos c' = pos c + n \<and> pos c' \<le> length (buf c) \<and> x = take n (drop (pos c) (buf c))"
  by (auto simp: reader_take_def Let_def split: if_splits)

text \<open>
  The \<^verbatim>\<open>while c.pos < wasm.len()\<close> loop. The header of a section takes at least two bytes and the
  position never goes back behind it, so the loop ends.
\<close>

function section_loop :: "u8 list \<Rightarrow> u8 list \<Rightarrow> nat \<Rightarrow> u8 list option" where
  "section_loop wasm want p =
     (if p < length wasm then do {
        (id, c) \<leftarrow> reader_byte \<lparr>buf = wasm, pos = p\<rparr>;
        (size, c) \<leftarrow> leb_u32 c;
        let body_end = pos c + unat size;
        if body_end > length wasm then None
        else if id = 0 then do {
          (name_len, c) \<leftarrow> leb_u32 c;
          (name_bytes, c) \<leftarrow> reader_take (unat name_len) c;
          if name_bytes = want then slice_get wasm (pos c) body_end
          else section_loop wasm want body_end }
        else section_loop wasm want body_end }
      else None)"
  by pat_completeness auto
termination
  by (relation "measure (\<lambda>(w, n, p). length w - p)")
    (auto dest!: reader_byte_Some leb_u32_Some simp del: One_nat_def)

declare section_loop.simps [simp del]

definition wasm_custom_section :: "u8 list \<Rightarrow> u8 list \<Rightarrow> u8 list option" where
  "wasm_custom_section wasm want = do {
     (magic, c) \<leftarrow> reader_take 4 \<lparr>buf = wasm, pos = 0\<rparr>;
     if magic \<noteq> [0x00, 0x61, 0x73, 0x6d] then None
     else do {
       (_, c) \<leftarrow> reader_take 4 c;
       section_loop wasm want (pos c) } }"

definition spec_section_of :: "u8 list \<Rightarrow> u8 list option" where
  "spec_section_of wasm = wasm_custom_section wasm (bytes_of_text ''contractspecv0'')"

section \<open>LEB128\<close>

function leb_bytes :: "nat \<Rightarrow> u8 list" where
  "leb_bytes n = (if n < 128 then [of_nat n] else of_nat (n mod 128 + 128) # leb_bytes (n div 128))"
  by pat_completeness auto
termination
  by (relation "measure id") auto

declare leb_bytes.simps [simp del]

lemma reads_reader_byte: "reads reader_byte [b] b"
  by (simp add: reads_def reader_byte_def nth_append)

lemma reads_reader_take: "length bs = n \<Longrightarrow> reads (reader_take n) bs bs"
  by (auto simp: reads_def reader_take_def Let_def)

lemma leb_byte_parts:
  assumes "m < 128"
  shows "(of_nat m :: u8) AND 0x80 = 0" "(of_nat m :: u8) AND 0x7f = of_nat m"
    "(of_nat (m + 128) :: u8) AND 0x80 \<noteq> 0" "(of_nat (m + 128) :: u8) AND 0x7f = of_nat m"
proof -
  have "\<forall>m \<in> set [0..<128]. (of_nat m :: u8) AND 0x80 = 0 \<and> (of_nat m :: u8) AND 0x7f = of_nat m
    \<and> (of_nat (m + 128) :: u8) AND 0x80 \<noteq> 0 \<and> (of_nat (m + 128) :: u8) AND 0x7f = of_nat m"
    by code_simp
  with assms show "(of_nat m :: u8) AND 0x80 = 0" "(of_nat m :: u8) AND 0x7f = of_nat m"
    "(of_nat (m + 128) :: u8) AND 0x80 \<noteq> 0" "(of_nat (m + 128) :: u8) AND 0x7f = of_nat m"
    by auto
qed

lemma ucast_small: "m < 128 \<Longrightarrow> (ucast (of_nat m :: u8) :: u32) = of_nat m"
  by (simp add: unsigned_of_nat take_bit_nat_eq_self)

lemma or_push_bit_add:
  fixes acc :: u32
  assumes "unat acc < 2 ^ s"
  shows "acc OR push_bit s x = acc + x * 2 ^ s"
proof -
  have "unat (take_bit s acc) = unat acc"
    using assms by (simp add: unsigned_take_bit_eq take_bit_nat_eq_self)
  then have "take_bit s acc = acc"
    by (rule word_unat_eq_iff [THEN iffD2])
  then have "bit acc n \<Longrightarrow> n < s" for n
    by (metis bit_take_bit_iff)
  then have "acc + push_bit s x = acc OR push_bit s x"
    by (intro disjunctive_add) (metis bit_push_bit_iff leD)
  then show ?thesis
    by (simp add: push_bit_eq_mult)
qed

lemma unat_add_of_nat: "unat (a :: u32) + m < 2 ^ 32 \<Longrightarrow> unat (a + of_nat m) = unat a + m"
  by (simp add: unat_word_ariths unat_of_nat take_bit_nat_eq_self take_bit_eq_mod)

lemma reads_leb_loop:
  assumes "unat acc < 2 ^ s" "n < 2 ^ (7 * k)" "k > 0" "unat acc + n * 2 ^ s < 2 ^ 32"
  shows "reads (leb_loop k acc s) (leb_bytes n) (acc + of_nat (n * 2 ^ s))"
  using assms
proof (induction k arbitrary: acc s n)
  case (Suc k)
  have step: "reads (leb_loop (Suc k) acc s) (b # bs) y"
    if "reads (\<lambda>c. if b AND 0x80 = 0 then Some (acc OR push_bit s (ucast (b AND 0x7f)), c)
        else leb_loop k (acc OR push_bit s (ucast (b AND 0x7f))) (s + 7) c) bs y" for b bs y
    using reads_bind [OF reads_reader_byte [of b], where cs = bs and y = y and
        g = "\<lambda>byte c. let res = acc OR push_bit s (ucast (byte AND 0x7f)) in
             if byte AND 0x80 = 0 then Some (res, c) else leb_loop k res (s + 7) c"] that
    by (simp add: Let_def reads_def)
  show ?case
  proof (cases "n < 128")
    case True
    then show ?thesis
      unfolding leb_bytes.simps [of n] if_P [OF True]
      by (intro step)
        (simp add: leb_byte_parts ucast_small or_push_bit_add [OF Suc.prems(1)] reads_Some)
  next
    case False
    let ?m = "n mod 128"
    let ?acc = "acc + of_nat (?m * 2 ^ s)"
    have "(m + 128 * q) * 2 ^ s = m * 2 ^ s + q * 2 ^ (s + 7)" for m q :: nat
      by (simp add: power_add algebra_simps)
    from this [of ?m "n div 128"] have n: "n * 2 ^ s = ?m * 2 ^ s + n div 128 * 2 ^ (s + 7)"
      by (simp only: mod_mult_div_eq)
    have small: "unat acc + ?m * 2 ^ s < 2 ^ (s + 7)"
    proof -
      have "unat acc + ?m * 2 ^ s < (?m + 1) * 2 ^ s"
        using Suc.prems(1) by (simp add: algebra_simps)
      also have "\<dots> \<le> 128 * 2 ^ s"
        by (rule mult_right_mono) simp_all
      finally show ?thesis by (simp add: power_add)
    qed
    have le: "?m * 2 ^ s \<le> n * 2 ^ s"
      by simp
    have acc: "unat ?acc = unat acc + ?m * 2 ^ s"
      using Suc.prems(4) le by (intro unat_add_of_nat) linarith
    have "reads (leb_loop k ?acc (s + 7)) (leb_bytes (n div 128)) (?acc + of_nat (n div 128 * 2 ^ (s + 7)))"
    proof (rule Suc.IH)
      show "unat ?acc < 2 ^ (s + 7)" using acc small by simp
      show "n div 128 < 2 ^ (7 * k)" using Suc.prems(2) by (simp add: less_mult_imp_div_less power_add mult.commute)
      show "unat ?acc + n div 128 * 2 ^ (s + 7) < 2 ^ 32" using n acc Suc.prems(4) by simp
      show "k > 0" using Suc.prems(2) False by (cases k) auto
    qed
    moreover have "?acc + of_nat (n div 128 * 2 ^ (s + 7)) = acc + of_nat (n * 2 ^ s)"
      by (metis n add.assoc of_nat_add)
    ultimately have "reads (leb_loop k ?acc (s + 7)) (leb_bytes (n div 128)) (acc + of_nat (n * 2 ^ s))"
      by (simp only:)
    then show ?thesis
      unfolding leb_bytes.simps [of n] if_not_P [OF False]
      using False leb_byte_parts [of ?m]
      by (intro step) (simp add: ucast_small or_push_bit_add [OF Suc.prems(1)])
  qed
qed simp

lemma reads_leb_u32: "n < 2 ^ 32 \<Longrightarrow> reads leb_u32 (leb_bytes n) (of_nat n)"
  using reads_leb_loop [of 0 0 n 5] unfolding leb_u32_def [abs_def] by simp

section \<open>Modules\<close>

datatype wasm_sec = Custom "u8 list" "u8 list" | Other u8 "u8 list"

fun sec_id :: "wasm_sec \<Rightarrow> u8" where
  "sec_id (Custom n c) = 0"
| "sec_id (Other i b) = i"

fun sec_body :: "wasm_sec \<Rightarrow> u8 list" where
  "sec_body (Custom n c) = leb_bytes (length n) @ n @ c"
| "sec_body (Other i b) = b"

definition sec_bytes :: "wasm_sec \<Rightarrow> u8 list" where
  "sec_bytes x = [sec_id x] @ leb_bytes (length (sec_body x)) @ sec_body x"

fun sec_wf :: "wasm_sec \<Rightarrow> bool" where
  "sec_wf (Custom n c) = (length (sec_body (Custom n c)) < 2 ^ 32)"
| "sec_wf (Other i b) = (i \<noteq> 0 \<and> length b < 2 ^ 32)"

definition wasm_module :: "u8 list \<Rightarrow> wasm_sec list \<Rightarrow> u8 list" where
  "wasm_module version secs = [0x00, 0x61, 0x73, 0x6d] @ version @ concat (map sec_bytes secs)"

fun find_custom :: "u8 list \<Rightarrow> wasm_sec list \<Rightarrow> u8 list option" where
  "find_custom want [] = None"
| "find_custom want (Custom n c # secs) = (if n = want then Some c else find_custom want secs)"
| "find_custom want (Other i b # secs) = find_custom want secs"

lemma readsD:
  "reads f bs x \<Longrightarrow> w = pre @ bs @ rest \<Longrightarrow> p = length pre
   \<Longrightarrow> f \<lparr>buf = w, pos = p\<rparr> = Some (x, \<lparr>buf = w, pos = p + length bs\<rparr>)"
  by (simp add: reads_def)

lemma section_loop_step:
  assumes w: "w = pre @ sec_bytes x @ rest" and "sec_wf x"
  shows "section_loop w want (length pre) =
    (if find_custom want [x] \<noteq> None then find_custom want [x]
     else section_loop w want (length (pre @ sec_bytes x)))"
proof -
  let ?hd = "[sec_id x] @ leb_bytes (length (sec_body x))"
  have len: "length (sec_body x) < 2 ^ 32"
    using assms(2) by (cases x) auto
  have in_w: "length pre < length w"
    by (simp add: w sec_bytes_def)
  have id: "reader_byte \<lparr>buf = w, pos = length pre\<rparr> = Some (sec_id x, \<lparr>buf = w, pos = length pre + 1\<rparr>)"
    using readsD [OF reads_reader_byte, of w pre "sec_id x"] by (simp add: w sec_bytes_def)
  have size: "leb_u32 \<lparr>buf = w, pos = length pre + 1\<rparr>
      = Some (of_nat (length (sec_body x)), \<lparr>buf = w, pos = length (pre @ ?hd)\<rparr>)"
    using readsD [OF reads_leb_u32 [OF len], of w "pre @ [sec_id x]"] by (simp add: w sec_bytes_def)
  have stop: "length (pre @ ?hd) + unat (of_nat (length (sec_body x)) :: u32) = length (pre @ sec_bytes x)"
    by (simp add: unat_of_nat_32 [OF len] sec_bytes_def)
  have fits: "\<not> length (pre @ sec_bytes x) > length w"
    by (simp add: w)
  note start = section_loop.simps [of w want "length pre"] if_P [OF in_w] id size bind.bind_lunit prod.case
    Let_def cursor.select_convs stop if_not_P [OF fits]
  show ?thesis
  proof (cases x)
    case (Other i b)
    with assms(2) show ?thesis
      unfolding start by simp
  next
    case (Custom n c)
    have n: "length n < 2 ^ 32"
      using assms(2) Custom by simp
    have nlen: "leb_u32 \<lparr>buf = w, pos = length (pre @ ?hd)\<rparr>
        = Some (of_nat (length n), \<lparr>buf = w, pos = length (pre @ ?hd @ leb_bytes (length n))\<rparr>)"
      using readsD [OF reads_leb_u32 [OF n], of w "pre @ ?hd"] by (simp add: w Custom sec_bytes_def)
    have name: "reader_take (unat (of_nat (length n) :: u32))
        \<lparr>buf = w, pos = length (pre @ ?hd @ leb_bytes (length n))\<rparr>
        = Some (n, \<lparr>buf = w, pos = length (pre @ ?hd @ leb_bytes (length n) @ n)\<rparr>)"
      using readsD [OF reads_reader_take [OF refl], of w "pre @ ?hd @ leb_bytes (length n)" n]
      by (simp add: w Custom sec_bytes_def unat_of_nat_32 [OF n])
    have "slice_get w (length (pre @ ?hd @ leb_bytes (length n) @ n)) (length (pre @ sec_bytes x)) = Some c"
      by (simp add: slice_get_def w Custom sec_bytes_def)
    moreover have "sec_id x = 0"
      by (simp add: Custom)
    ultimately show ?thesis
      unfolding start nlen name bind.bind_lunit prod.case cursor.select_convs
      by (simp only: if_True simp_thms) (simp add: Custom)
  qed
qed

lemma section_loop_end: "section_loop w want (length w) = None"
  by (simp add: section_loop.simps)

lemma section_loop_finds:
  "list_all sec_wf secs \<Longrightarrow>
   section_loop (pre @ concat (map sec_bytes secs)) want (length pre) = find_custom want secs"
proof (induction secs arbitrary: pre)
  case Nil
  show ?case using section_loop_end [of pre] by simp
next
  case (Cons x secs)
  let ?w = "pre @ sec_bytes x @ concat (map sec_bytes secs)"
  have "section_loop ?w want (length (pre @ sec_bytes x)) = find_custom want secs"
    using Cons.IH [of "pre @ sec_bytes x"] Cons.prems by simp
  then show ?case
    using section_loop_step [of ?w pre x _ want] Cons.prems by (cases x) (simp_all del: length_append)
qed

section \<open>Properties\<close>

text \<open>
  Claim C13. In every WASM module laid out as the format prescribes (LEB128 sizes, any number of
  sections of any kind), the walk returns exactly the content of the first custom section of
  the requested name, and nothing when there is none.
\<close>

theorem wasm_section_found:
  assumes "length version = 4" "list_all sec_wf secs"
  shows "wasm_custom_section (wasm_module version secs) want = find_custom want secs"
proof -
  let ?w = "wasm_module version secs"
  have "reader_take 4 \<lparr>buf = ?w, pos = 0\<rparr> = Some ([0x00, 0x61, 0x73, 0x6d], \<lparr>buf = ?w, pos = 4\<rparr>)"
    "reader_take 4 \<lparr>buf = ?w, pos = 4\<rparr> = Some (version, \<lparr>buf = ?w, pos = 8\<rparr>)"
    using assms(1) by (simp_all add: reader_take_def wasm_module_def)
  then have "wasm_custom_section ?w want = section_loop ?w want 8"
    by (simp add: wasm_custom_section_def)
  also have "\<dots> = find_custom want secs"
    using section_loop_finds [OF assms(2), of "[0x00, 0x61, 0x73, 0x6d] @ version" want] assms(1)
    by (simp add: wasm_module_def)
  finally show ?thesis .
qed

theorem wasm_section_found_witness:
  "wasm_custom_section (wasm_module [1,0,0,0] [Other 1 [7], Custom [65] [9], Custom [66] [5,6]]) [66]
   = Some [5,6]"
proof -
  let ?secs = "[Other 1 [7], Custom [65] [9], Custom [66] [5,6]]"
  have "list_all sec_wf ?secs"
    by (simp add: leb_bytes.simps)
  then show ?thesis
    using wasm_section_found [of "[1,0,0,0]" ?secs "[66]"] by simp
qed

lemma section_loop_slice:
  "section_loop w want p = Some x \<Longrightarrow> \<exists>pre post. w = pre @ want @ x @ post \<and> p \<le> length pre"
proof (induction "length w - p" arbitrary: p rule: less_induct)
  case less
  obtain i c size d where r: "p < length w" "reader_byte \<lparr>buf = w, pos = p\<rparr> = Some (i, c)"
    "leb_u32 c = Some (size, d)" "pos d + unat size \<le> length w"
    using less.prems
    by (subst (asm) section_loop.simps) (auto simp: bind_eq_Some_conv Let_def split: if_splits)
  note facts = reader_byte_Some [OF r(2)] leb_u32_Some [OF r(3)]
  have again: ?case if "section_loop w want (pos d + unat size) = Some x"
    using less.hyps [OF _ that] facts r by fastforce
  show ?case
  proof (cases "i = 0")
    case False
    with less.prems r have "section_loop w want (pos d + unat size) = Some x"
      by (subst (asm) section_loop.simps) (simp add: Let_def)
    then show ?thesis by (rule again)
  next
    case True
    then obtain k e n f where n: "leb_u32 d = Some (k, e)" "reader_take (unat k) e = Some (n, f)"
      "(if n = want then slice_get w (pos f) (pos d + unat size)
        else section_loop w want (pos d + unat size)) = Some x"
      using less.prems r by (subst (asm) section_loop.simps) (auto simp: bind_eq_Some_conv Let_def)
    show ?thesis
    proof (cases "n = want")
      case True
      note take = reader_take_Some [OF n(2)]
      have f: "pos f \<le> pos d + unat size" "pos d + unat size \<le> length w"
        "x = take (pos d + unat size - pos f) (drop (pos f) w)"
        using n(3) True by (auto simp: slice_get_def split: if_splits)
      have "w = take (pos e) w @ want @ drop (pos f) w"
        using take True facts leb_u32_Some [OF n(1)]
        by (metis (no_types, lifting) append_take_drop_id cursor.select_convs(1) drop_drop add.commute)
      moreover have "drop (pos f) w = x @ drop (pos d + unat size) w"
        using f by (metis append_take_drop_id drop_drop le_add_diff_inverse2)
      ultimately have "w = take (pos e) w @ want @ x @ drop (pos d + unat size) w"
        by simp
      moreover have "p \<le> length (take (pos e) w)"
        using facts leb_u32_Some [OF n(1)] by simp
      ultimately show ?thesis by blast
    qed (use n(3) again in simp)
  qed
qed

text \<open>
  On arbitrary bytes, well-formed or not, the walk ends, and what it returns is a slice of
  the input behind the eight-byte header that directly follows an occurrence of the
  requested name; without the WASM magic it returns nothing.
\<close>

theorem wasm_section_is_slice:
  assumes "wasm_custom_section w want = Some x"
  shows "take 4 w = [0x00, 0x61, 0x73, 0x6d]
    \<and> (\<exists>pre post. w = pre @ want @ x @ post \<and> 8 \<le> length pre)"
proof -
  obtain m c v d where r: "reader_take 4 \<lparr>buf = w, pos = 0\<rparr> = Some (m, c)"
    "m = [0x00, 0x61, 0x73, 0x6d]" "reader_take 4 c = Some (v, d)" "section_loop w want (pos d) = Some x"
    using assms by (auto simp: wasm_custom_section_def bind_eq_Some_conv split: if_splits)
  have "pos d = 8" "m = take 4 w"
    using reader_take_Some [OF r(1)] reader_take_Some [OF r(3)] by simp_all
  then show ?thesis
    using section_loop_slice [OF r(4)] r(2) by simp
qed

theorem wasm_section_is_slice_witness:
  "\<exists>x pre post. wasm_custom_section (wasm_module [1,0,0,0] [Custom [66] [5]]) [66] = Some x
     \<and> wasm_module [1,0,0,0] [Custom [66] [5]] = pre @ [66] @ x @ post"
proof -
  have "wasm_custom_section (wasm_module [1,0,0,0] [Custom [66] [5]]) [66] = Some [5]"
    by code_simp
  then show ?thesis
    using wasm_section_is_slice [of "wasm_module [1,0,0,0] [Custom [66] [5]]" "[66]" "[5]"] by blast
qed

end
