(* ===== verification/Contract_Spec.thy ===== *)
theory Contract_Spec
  imports Json Wasm_Section "HOL-Library.Sublist"
begin

text \<open>
  The contract interface of \<^verbatim>\<open>crates/lumenqraph-core/src/spec.rs\<close>: the structures of a parsed
  \<^verbatim>\<open>contractspecv0\<close> section, the loop that fills them from the stream of XDR entries, the lookup
  indexes \<^verbatim>\<open>reindex\<close> builds and the accessors that use them.

  The XDR decoder of \<^verbatim>\<open>stellar-xdr\<close> is a parameter: \<open>read_iter\<close> maps the section bytes to the results
  its entry iterator yields, in order. So is \<open>lossy\<close>, its \<^verbatim>\<open>to_utf8_string_lossy\<close>. The entry types
  carry the fields the program reads.
\<close>

section \<open>Types and entries of the XDR spec\<close>

datatype type_def =
    TVal | TBool | TVoid | TError | TU32 | TI32 | TU64 | TI64 | TTimepoint | TDuration
  | TU128 | TI128 | TU256 | TI256 | TBytes | TString | TSymbol | TAddress | TMuxedAddress
  | TOption type_def
  | TResult type_def type_def
  | TVec type_def
  | TMap type_def type_def
  | TTuple "type_def list"
  | TBytesN u32
  | TUdt "u8 list"

datatype event_param_location = TopicList | Data

datatype event_data_format = SingleValue | FormatVec | FormatMap

datatype udt_union_case_v0 = VoidV0 "u8 list" | TupleV0 "u8 list" "type_def list"

datatype sc_spec_entry =
    FunctionV0 "u8 list" "u8 list" "(u8 list \<times> type_def) list" "type_def list"
  | UdtStructV0 "u8 list" "(u8 list \<times> type_def) list"
  | UdtUnionV0 "u8 list" "udt_union_case_v0 list"
  | UdtEnumV0 "u8 list" "(u8 list \<times> u32) list"
  | EventV0 "u8 list" "u8 list" "u8 list list"
      "(u8 list \<times> type_def \<times> event_param_location) list" event_data_format
  | UdtErrorEnumV0 "u8 list" "u8 list" "(u8 list \<times> u32 \<times> u8 list) list"

section \<open>The parsed interface\<close>

record field =
  field_name :: string
  field_type_name :: string
  field_ty :: type_def

record function_spec =
  fn_name :: string
  fn_doc :: string
  fn_inputs :: "field list"
  fn_outputs :: "string list"
  fn_output_tys :: "type_def list"

record event_param =
  ep_name :: string
  ep_type_name :: string
  ep_location :: string
  ep_ty :: type_def

record event_spec =
  ev_name :: string
  ev_doc :: string
  ev_prefix_topics :: "string list"
  ev_params :: "event_param list"
  ev_data_format :: string

record udt_struct =
  st_name :: string
  st_fields :: "field list"

record union_case =
  uc_name :: string
  uc_type_names :: "string list"
  uc_tys :: "type_def list"

record udt_union =
  un_name :: string
  un_cases :: "union_case list"

record udt_enum =
  en_name :: string
  en_cases :: "(string \<times> u32) list"

record error_case =
  ec_name :: string
  ec_code :: u32
  ec_doc :: string

record udt_error_enum =
  ee_name :: string
  ee_doc :: string
  ee_cases :: "error_case list"

datatype udt_ref = EnumRef nat | UnionRef nat | StructRef nat

datatype udt_def = EnumDef udt_enum | UnionDef udt_union | StructDef udt_struct

record contract_spec =
  cs_functions :: "function_spec list"
  cs_events :: "event_spec list"
  cs_structs :: "udt_struct list"
  cs_unions :: "udt_union list"
  cs_enums :: "udt_enum list"
  cs_error_enums :: "udt_error_enum list"
  cs_errors :: "udt_error_enum list"
  events_by_name :: "(string, nat) hash_map"
  events_by_prefix :: "(string list, nat) hash_map"
  functions_by_name :: "(string, nat) hash_map"
  udts_by_name :: "(string, udt_ref) hash_map"
  enum_cases :: "(u32, string) hash_map list"
  error_code_index :: "(u32, string \<times> string) hash_map"

record parsed_spec =
  ps_spec :: contract_spec
  ps_complete :: bool
  ps_skipped_entries :: nat
  ps_error :: "string option"

definition spec_default :: contract_spec where
  "spec_default = \<lparr>cs_functions = [], cs_events = [], cs_structs = [], cs_unions = [], cs_enums = [],
     cs_error_enums = [], cs_errors = [], events_by_name = [], events_by_prefix = [],
     functions_by_name = [], udts_by_name = [], enum_cases = [], error_code_index = []\<rparr>"

section \<open>Type names\<close>

fun type_name :: "(u8 list \<Rightarrow> string) \<Rightarrow> type_def \<Rightarrow> string" where
  "type_name lossy TVal = ''Val''"
| "type_name lossy TBool = ''bool''"
| "type_name lossy TVoid = ''void''"
| "type_name lossy TError = ''Error''"
| "type_name lossy TU32 = ''u32''"
| "type_name lossy TI32 = ''i32''"
| "type_name lossy TU64 = ''u64''"
| "type_name lossy TI64 = ''i64''"
| "type_name lossy TTimepoint = ''Timepoint''"
| "type_name lossy TDuration = ''Duration''"
| "type_name lossy TU128 = ''u128''"
| "type_name lossy TI128 = ''i128''"
| "type_name lossy TU256 = ''u256''"
| "type_name lossy TI256 = ''i256''"
| "type_name lossy TBytes = ''Bytes''"
| "type_name lossy TString = ''String''"
| "type_name lossy TSymbol = ''Symbol''"
| "type_name lossy TAddress = ''Address''"
| "type_name lossy TMuxedAddress = ''MuxedAddress''"
| "type_name lossy (TOption t) = ''Option<'' @ type_name lossy t @ ''>''"
| "type_name lossy (TResult t e) = ''Result<'' @ type_name lossy t @ '', '' @ type_name lossy e @ ''>''"
| "type_name lossy (TVec t) = ''Vec<'' @ type_name lossy t @ ''>''"
| "type_name lossy (TMap k v) = ''Map<'' @ type_name lossy k @ '', '' @ type_name lossy v @ ''>''"
| "type_name lossy (TTuple ts) = ''('' @ join '', '' (map (type_name lossy) ts) @ '')''"
| "type_name lossy (TBytesN n) = ''BytesN<'' @ show_nat (unat n) @ ''>''"
| "type_name lossy (TUdt u) = lossy u"

section \<open>Filling the interface\<close>

definition to_field :: "(u8 list \<Rightarrow> string) \<Rightarrow> u8 list \<times> type_def \<Rightarrow> field" where
  "to_field lossy i = \<lparr>field_name = lossy (fst i), field_type_name = type_name lossy (snd i), field_ty = snd i\<rparr>"

fun to_union_case :: "(u8 list \<Rightarrow> string) \<Rightarrow> udt_union_case_v0 \<Rightarrow> union_case" where
  "to_union_case lossy (VoidV0 n) = \<lparr>uc_name = lossy n, uc_type_names = [], uc_tys = []\<rparr>"
| "to_union_case lossy (TupleV0 n ts) =
     \<lparr>uc_name = lossy n, uc_type_names = map (type_name lossy) ts, uc_tys = ts\<rparr>"

fun location_text :: "event_param_location \<Rightarrow> string" where
  "location_text TopicList = ''topic''"
| "location_text Data = ''data''"

fun format_text :: "event_data_format \<Rightarrow> string" where
  "format_text SingleValue = ''single''"
| "format_text FormatVec = ''vec''"
| "format_text FormatMap = ''map''"

definition to_event_param ::
  "(u8 list \<Rightarrow> string) \<Rightarrow> u8 list \<times> type_def \<times> event_param_location \<Rightarrow> event_param" where
  "to_event_param lossy p = (case p of (n, ty, loc) \<Rightarrow>
     \<lparr>ep_name = lossy n, ep_type_name = type_name lossy ty, ep_location = location_text loc, ep_ty = ty\<rparr>)"

definition to_error_case :: "(u8 list \<Rightarrow> string) \<Rightarrow> u8 list \<times> u32 \<times> u8 list \<Rightarrow> error_case" where
  "to_error_case lossy c = (case c of (n, code, doc) \<Rightarrow>
     \<lparr>ec_name = lossy n, ec_code = code, ec_doc = lossy doc\<rparr>)"

fun push_entry :: "(u8 list \<Rightarrow> string) \<Rightarrow> sc_spec_entry \<Rightarrow> contract_spec \<Rightarrow> contract_spec" where
  "push_entry lossy (FunctionV0 n doc ins outs) s =
     s\<lparr>cs_functions := cs_functions s @ [\<lparr>fn_name = lossy n, fn_doc = lossy doc,
         fn_inputs = map (to_field lossy) ins, fn_outputs = map (type_name lossy) outs,
         fn_output_tys = outs\<rparr>]\<rparr>"
| "push_entry lossy (UdtStructV0 n fs) s =
     s\<lparr>cs_structs := cs_structs s @ [\<lparr>st_name = lossy n, st_fields = map (to_field lossy) fs\<rparr>]\<rparr>"
| "push_entry lossy (UdtUnionV0 n cs) s =
     s\<lparr>cs_unions := cs_unions s @ [\<lparr>un_name = lossy n, un_cases = map (to_union_case lossy) cs\<rparr>]\<rparr>"
| "push_entry lossy (UdtEnumV0 n cs) s =
     s\<lparr>cs_enums := cs_enums s @ [\<lparr>en_name = lossy n, en_cases = map (\<lambda>c. (lossy (fst c), snd c)) cs\<rparr>]\<rparr>"
| "push_entry lossy (EventV0 n doc pfx params fmt) s =
     s\<lparr>cs_events := cs_events s @ [\<lparr>ev_name = lossy n, ev_doc = lossy doc, ev_prefix_topics = map lossy pfx,
         ev_params = map (to_event_param lossy) params, ev_data_format = format_text fmt\<rparr>]\<rparr>"
| "push_entry lossy (UdtErrorEnumV0 n doc cs) s =
     (let e = \<lparr>ee_name = lossy n, ee_doc = lossy doc, ee_cases = map (to_error_case lossy) cs\<rparr>
      in s\<lparr>cs_error_enums := cs_error_enums s @ [e], cs_errors := cs_errors s @ [e]\<rparr>)"

definition spec_is_empty :: "contract_spec \<Rightarrow> bool" where
  "spec_is_empty s \<longleftrightarrow> cs_functions s = [] \<and> cs_events s = [] \<and> cs_structs s = [] \<and> cs_unions s = []
     \<and> cs_enums s = [] \<and> cs_error_enums s = [] \<and> cs_errors s = []"

definition has_events :: "contract_spec \<Rightarrow> bool" where
  "has_events s \<longleftrightarrow> cs_events s \<noteq> []"

section \<open>The indexes\<close>

definition build_events_by_prefix :: "event_spec list \<Rightarrow> (string list, nat) hash_map" where
  "build_events_by_prefix evs =
     fold (\<lambda>ie m. if ev_prefix_topics (snd ie) \<noteq> []
                  then hm_insert (ev_prefix_topics (snd ie)) (fst ie) m else m)
       (enumerate 0 evs) []"

definition build_events_by_name :: "event_spec list \<Rightarrow> (string, nat) hash_map" where
  "build_events_by_name evs =
     fold (\<lambda>ie m. case ev_prefix_topics (snd ie) of
                    [] \<Rightarrow> m
                  | first # _ \<Rightarrow> hm_insert first (fst ie) m)
       (enumerate 0 evs)
       (fold (\<lambda>ie. hm_or_insert (ev_name (snd ie)) (fst ie)) (enumerate 0 evs) [])"

definition build_udts_by_name ::
  "udt_enum list \<Rightarrow> udt_union list \<Rightarrow> udt_struct list \<Rightarrow> (string, udt_ref) hash_map" where
  "build_udts_by_name es us ss =
     fold (\<lambda>ix. hm_or_insert (st_name (snd ix)) (StructRef (fst ix))) (enumerate 0 ss)
       (fold (\<lambda>ix. hm_or_insert (un_name (snd ix)) (UnionRef (fst ix))) (enumerate 0 us)
         (fold (\<lambda>ix. hm_or_insert (en_name (snd ix)) (EnumRef (fst ix))) (enumerate 0 es) []))"

definition reindex :: "contract_spec \<Rightarrow> contract_spec" where
  "reindex s = s\<lparr>
     events_by_prefix := build_events_by_prefix (cs_events s),
     events_by_name := build_events_by_name (cs_events s),
     functions_by_name :=
       fold (\<lambda>ix. hm_or_insert (fn_name (snd ix)) (fst ix)) (enumerate 0 (cs_functions s)) [],
     udts_by_name := build_udts_by_name (cs_enums s) (cs_unions s) (cs_structs s),
     enum_cases := map (\<lambda>e. fold (\<lambda>c. hm_insert (snd c) (fst c)) (en_cases e) []) (cs_enums s),
     error_code_index :=
       fold (\<lambda>ee m. fold (\<lambda>c. hm_insert (ec_code c) (ec_name c, ec_doc c)) (ee_cases ee) m)
         (cs_error_enums s) []\<rparr>"

text \<open>
  An index out of range panics in the source (\<^verbatim>\<open>self.functions[i]\<close>); the accessors return it as an
  error value, and \<open>indexed_lookups\<close> below shows that it cannot happen after \<^verbatim>\<open>reindex\<close>.
\<close>

datatype index_panic = IndexOutOfBounds

definition at :: "'a list \<Rightarrow> nat \<Rightarrow> index_panic + 'a" where
  "at xs i = (if i < length xs then Inr (xs ! i) else Inl IndexOutOfBounds)"

definition function_of :: "contract_spec \<Rightarrow> string \<Rightarrow> index_panic + function_spec option" where
  "function_of s n = (case hm_get (functions_by_name s) n of
       None \<Rightarrow> Inr None
     | Some i \<Rightarrow> map_sum id Some (at (cs_functions s) i))"

definition udt_def_of :: "contract_spec \<Rightarrow> string \<Rightarrow> index_panic + udt_def option" where
  "udt_def_of s n = (case hm_get (udts_by_name s) n of
       None \<Rightarrow> Inr None
     | Some (EnumRef i) \<Rightarrow> map_sum id (Some \<circ> EnumDef) (at (cs_enums s) i)
     | Some (UnionRef i) \<Rightarrow> map_sum id (Some \<circ> UnionDef) (at (cs_unions s) i)
     | Some (StructRef i) \<Rightarrow> map_sum id (Some \<circ> StructDef) (at (cs_structs s) i))"

definition resolve_error_code :: "contract_spec \<Rightarrow> u32 \<Rightarrow> (string \<times> string) option" where
  "resolve_error_code s code = hm_get (error_code_index s) code"

section \<open>Parsing a section\<close>

record parse_state =
  pst_spec :: contract_spec
  pst_skipped :: nat
  pst_error :: "string option"
  pst_complete :: bool

definition contains_text :: "string \<Rightarrow> string \<Rightarrow> bool" where
  "contains_text needle hay = list_ex (starts_with needle) (suffixes hay)"

fun entry_loop :: "(u8 list \<Rightarrow> string) \<Rightarrow> (string + sc_spec_entry) list \<Rightarrow> parse_state \<Rightarrow> parse_state" where
  "entry_loop lossy [] st = st"
| "entry_loop lossy (Inr e # rest) st =
     entry_loop lossy rest (st\<lparr>pst_spec := push_entry lossy e (pst_spec st)\<rparr>)"
| "entry_loop lossy (Inl err # rest) st =
     (let st = st\<lparr>pst_error := (if pst_error st = None then Some err else pst_error st),
                  pst_skipped := pst_skipped st + 1, pst_complete := False\<rparr>
      in if contains_text ''ExceededLimit'' err then st else entry_loop lossy rest st)"

definition from_spec_xdr ::
  "(u8 list \<Rightarrow> string) \<Rightarrow> (u8 list \<Rightarrow> (string + sc_spec_entry) list) \<Rightarrow> u8 list \<Rightarrow> parsed_spec option" where
  "from_spec_xdr lossy read_iter bytes =
     (let st = entry_loop lossy (read_iter bytes)
        \<lparr>pst_spec = spec_default, pst_skipped = 0, pst_error = None, pst_complete = True\<rparr>
      in if spec_is_empty (pst_spec st) then None
         else Some \<lparr>ps_spec = reindex (pst_spec st), ps_complete = pst_complete st,
                    ps_skipped_entries = pst_skipped st, ps_error = pst_error st\<rparr>)"

definition from_spec_xdr_simple ::
  "(u8 list \<Rightarrow> string) \<Rightarrow> (u8 list \<Rightarrow> (string + sc_spec_entry) list) \<Rightarrow> u8 list \<Rightarrow> contract_spec option" where
  "from_spec_xdr_simple lossy read_iter bytes = map_option ps_spec (from_spec_xdr lossy read_iter bytes)"

definition from_wasm ::
  "(u8 list \<Rightarrow> string) \<Rightarrow> (u8 list \<Rightarrow> (string + sc_spec_entry) list) \<Rightarrow> u8 list \<Rightarrow> parsed_spec option" where
  "from_wasm lossy read_iter wasm =
     (case spec_section_of wasm of None \<Rightarrow> None | Some section \<Rightarrow> from_spec_xdr lossy read_iter section)"

definition from_wasm_simple ::
  "(u8 list \<Rightarrow> string) \<Rightarrow> (u8 list \<Rightarrow> (string + sc_spec_entry) list) \<Rightarrow> u8 list \<Rightarrow> contract_spec option" where
  "from_wasm_simple lossy read_iter wasm = map_option ps_spec (from_wasm lossy read_iter wasm)"

section \<open>What the indexes hold\<close>

lemma find_takeWhile:
  "find P xs = (if \<exists>x \<in> set xs. P x then Some (xs ! length (takeWhile (\<lambda>x. \<not> P x) xs)) else None)"
  by (induction xs) auto

lemma takeWhile_index: "\<exists>x \<in> set xs. P x \<Longrightarrow> length (takeWhile (\<lambda>x. \<not> P x) xs) < length xs"
  by (induction xs) auto

lemma map_of_enumerate:
  "map_of (map (\<lambda>ix. (kf (snd ix), g (fst ix))) (enumerate n xs)) k =
     (if \<exists>x \<in> set xs. kf x = k then Some (g (n + length (takeWhile (\<lambda>x. kf x \<noteq> k) xs))) else None)"
  by (induction xs arbitrary: n) auto

text \<open>A first-declaration-wins index points at the first element with the key.\<close>

lemma first_wins_index:
  assumes "hm_inv m"
  shows "hm_inv (fold (\<lambda>ix. hm_or_insert (kf (snd ix)) (g (fst ix))) (enumerate 0 xs) m)"
    and "hm_get (fold (\<lambda>ix. hm_or_insert (kf (snd ix)) (g (fst ix))) (enumerate 0 xs) m) k =
      (case hm_get m k of Some v \<Rightarrow> Some v
       | None \<Rightarrow> if \<exists>x \<in> set xs. kf x = k then Some (g (length (takeWhile (\<lambda>x. kf x \<noteq> k) xs))) else None)"
  using hashm.or_insert_fold [OF assms, of "\<lambda>ix. kf (snd ix)" "\<lambda>ix. g (fst ix)" "enumerate 0 xs"]
  by (auto simp: hm_or_insert_def [abs_def] map_add_def map_of_enumerate split: option.splits)

lemma at_first: "\<exists>x \<in> set xs. P x \<Longrightarrow> at xs (length (takeWhile (\<lambda>x. \<not> P x) xs)) = Inr (the (find P xs))"
  by (simp add: at_def takeWhile_index find_takeWhile)

text \<open>A last-declaration-wins index over the elements that have a key.\<close>

definition last_index :: "('a \<Rightarrow> 'k option) \<Rightarrow> 'a list \<Rightarrow> ('k, nat) hash_map" where
  "last_index kf xs =
     fold (\<lambda>ix m. case kf (snd ix) of None \<Rightarrow> m | Some k \<Rightarrow> hm_insert k (fst ix) m) (enumerate 0 xs) []"

lemma last_index_snoc:
  "last_index kf (xs @ [x]) =
     (case kf x of None \<Rightarrow> last_index kf xs | Some k \<Rightarrow> hm_insert k (length xs) (last_index kf xs))"
  by (simp add: last_index_def enumerate_append_eq split: option.split)

lemma last_index_inv: "hm_inv (last_index kf xs)"
  by (induction xs rule: rev_induct)
    (auto simp: last_index_snoc distinct_update last_index_def [of kf "[]"] split: option.split)

lemma last_index_get:
  "hm_get (last_index kf xs) k = Some i
   \<longleftrightarrow> i < length xs \<and> kf (xs ! i) = Some k \<and> (\<forall>j < length xs. i < j \<longrightarrow> kf (xs ! j) \<noteq> Some k)"
proof (induction xs arbitrary: i rule: rev_induct)
  case Nil
  show ?case by (simp add: last_index_def)
next
  case (snoc x xs)
  show ?case
  proof (cases "kf x = Some k")
    case True
    then have "hm_get (last_index kf (xs @ [x])) k = Some (length xs)"
      by (simp add: last_index_snoc update_conv')
    with True show ?thesis
      by (auto simp: nth_append less_Suc_eq)
  next
    case False
    then have "hm_get (last_index kf (xs @ [x])) k = hm_get (last_index kf xs) k"
      by (auto simp: last_index_snoc update_conv' split: option.split)
    with False snoc show ?thesis
      by (auto simp: nth_append less_Suc_eq)
  qed
qed

definition prefix_key :: "event_spec \<Rightarrow> string list option" where
  "prefix_key e = (if ev_prefix_topics e = [] then None else Some (ev_prefix_topics e))"

lemma build_events_by_prefix_alt:
  "build_events_by_prefix evs =
     last_index prefix_key evs"
  unfolding build_events_by_prefix_def prefix_key_def last_index_def by (intro arg_cong2 [where f = "\<lambda>f xs. fold f xs []"]) auto

lemma events_by_prefix_inv: "hm_inv (build_events_by_prefix evs)"
  unfolding build_events_by_prefix_alt by (rule last_index_inv)

lemma events_by_prefix_get:
  "hm_get (build_events_by_prefix evs) k = Some i \<longleftrightarrow>
     k \<noteq> [] \<and> i < length evs \<and> ev_prefix_topics (evs ! i) = k
     \<and> (\<forall>j < length evs. i < j \<longrightarrow> ev_prefix_topics (evs ! j) \<noteq> k)"
proof -
  have "prefix_key e = Some k \<longleftrightarrow> k \<noteq> [] \<and> ev_prefix_topics e = k" for e
    by (auto simp: prefix_key_def)
  then show ?thesis
    unfolding build_events_by_prefix_alt last_index_get by auto
qed

lemma fold_error_codes:
  "fold (\<lambda>ee m. fold (\<lambda>c. hm_insert (ec_code c) (ec_name c, ec_doc c)) (ee_cases ee) m) ees m
   = fold (\<lambda>c. hm_insert (ec_code c) (ec_name c, ec_doc c)) (concat (map ee_cases ees)) m"
  by (induction ees arbitrary: m) auto

lemma map_of_find: "map_of (map (\<lambda>x. (kf x, vf x)) xs) k = map_option vf (find (\<lambda>x. kf x = k) xs)"
  by (induction xs) auto

lemma reindex_fields [simp]:
  "cs_functions (reindex s) = cs_functions s" "cs_events (reindex s) = cs_events s"
  "cs_structs (reindex s) = cs_structs s" "cs_unions (reindex s) = cs_unions s"
  "cs_enums (reindex s) = cs_enums s" "cs_error_enums (reindex s) = cs_error_enums s"
  "cs_errors (reindex s) = cs_errors s"
  by (simp_all add: reindex_def)

lemma function_of_reindex: "function_of (reindex s) n = Inr (find (\<lambda>f. fn_name f = n) (cs_functions s))"
  unfolding function_of_def
  by (auto simp: reindex_def first_wins_index [where g = "\<lambda>i. i"] at_first [where P = "\<lambda>f. fn_name f = n"]
      find_None_iff find_takeWhile)

lemma udt_def_of_reindex:
  "udt_def_of (reindex s) n = Inr
     (case find (\<lambda>e. en_name e = n) (cs_enums s) of
        Some e \<Rightarrow> Some (EnumDef e)
      | None \<Rightarrow> (case find (\<lambda>u. un_name u = n) (cs_unions s) of
            Some u \<Rightarrow> Some (UnionDef u)
          | None \<Rightarrow> map_option StructDef (find (\<lambda>x. st_name x = n) (cs_structs s))))"
proof -
  have "udts_by_name (reindex s) = build_udts_by_name (cs_enums s) (cs_unions s) (cs_structs s)"
    by (simp add: reindex_def)
  then show ?thesis
    unfolding udt_def_of_def build_udts_by_name_def
    by (simp add: first_wins_index find_takeWhile at_def takeWhile_index [where P = "\<lambda>e. en_name e = n"]
        takeWhile_index [where P = "\<lambda>u. un_name u = n"] takeWhile_index [where P = "\<lambda>x. st_name x = n"])
qed

lemma resolve_error_code_reindex:
  "resolve_error_code (reindex s) c =
     map_option (\<lambda>e. (ec_name e, ec_doc e))
       (find (\<lambda>e. ec_code e = c) (rev (concat (map ee_cases (cs_error_enums s)))))"
  unfolding resolve_error_code_def
  by (simp add: reindex_def fold_error_codes hashm.get_fold_insert flip: map_of_find rev_map)

section \<open>Parsing, as a function of the whole stream\<close>

text \<open>The results the loop looks at: everything up to and including the first exceeded limit.\<close>

definition is_limit_error :: "string + sc_spec_entry \<Rightarrow> bool" where
  "is_limit_error r = (case r of Inl e \<Rightarrow> contains_text ''ExceededLimit'' e | Inr _ \<Rightarrow> False)"

fun consumed :: "(string + sc_spec_entry) list \<Rightarrow> (string + sc_spec_entry) list" where
  "consumed [] = []"
| "consumed (r # rs) = (if is_limit_error r then [r] else r # consumed rs)"

fun oks :: "('e + 'a) list \<Rightarrow> 'a list" where
  "oks [] = []"
| "oks (Inr x # rs) = x # oks rs"
| "oks (Inl e # rs) = oks rs"

fun errs :: "('e + 'a) list \<Rightarrow> 'e list" where
  "errs [] = []"
| "errs (Inr x # rs) = errs rs"
| "errs (Inl e # rs) = e # errs rs"

definition first_of :: "'a list \<Rightarrow> 'a option" where
  "first_of xs = (case xs of [] \<Rightarrow> None | x # _ \<Rightarrow> Some x)"

lemma first_of_None: "first_of xs = None \<longleftrightarrow> xs = []"
  by (simp add: first_of_def split: list.split)

lemma entry_loop_result:
  "entry_loop lossy rs st = st\<lparr>
     pst_spec := fold (push_entry lossy) (oks (consumed rs)) (pst_spec st),
     pst_skipped := pst_skipped st + length (errs (consumed rs)),
     pst_error := (if pst_error st = None then first_of (errs (consumed rs)) else pst_error st),
     pst_complete := (pst_complete st \<and> errs (consumed rs) = [])\<rparr>"
proof (induction rs arbitrary: st)
  case (Cons r rs)
  then show ?case
    by (cases r) (auto simp: Let_def is_limit_error_def first_of_def split: list.split)
qed (simp add: first_of_def)

lemma push_entry_not_empty: "\<not> spec_is_empty (push_entry lossy e s)"
  by (cases e) (auto simp: spec_is_empty_def Let_def)

lemma push_entry_errors: "cs_errors s = cs_error_enums s \<Longrightarrow> cs_errors (push_entry lossy e s) = cs_error_enums (push_entry lossy e s)"
  by (cases e) (auto simp: Let_def)

lemma fold_push_entry:
  "spec_is_empty (fold (push_entry lossy) es s) \<longleftrightarrow> es = [] \<and> spec_is_empty s"
  by (cases es rule: rev_cases) (auto simp: push_entry_not_empty)

lemma fold_push_errors:
  "cs_errors s = cs_error_enums s \<Longrightarrow>
   cs_errors (fold (push_entry lossy) es s) = cs_error_enums (fold (push_entry lossy) es s)"
  by (induction es arbitrary: s) (auto intro: push_entry_errors)

lemma errs_consumed_Nil: "errs (consumed rs) = [] \<longleftrightarrow> list_all (\<lambda>r. \<not> isl r) rs"
proof (induction rs)
  case (Cons r rs)
  then show ?case by (cases r) (auto simp: is_limit_error_def)
qed simp

lemma complete_consumed: "list_all (\<lambda>r. \<not> isl r) rs \<Longrightarrow> oks (consumed rs) = map projr rs"
proof (induction rs)
  case (Cons r rs)
  then show ?case by (cases r) (auto simp: is_limit_error_def)
qed simp

lemma spec_default_simps [simp]:
  "spec_is_empty spec_default" "cs_errors spec_default = []" "cs_error_enums spec_default = []"
  by (simp_all add: spec_is_empty_def spec_default_def)

lemma from_spec_xdr_eq:
  "from_spec_xdr lossy it bytes =
     (let rs = consumed (it bytes) in
      if oks rs = [] then None
      else Some \<lparr>ps_spec = reindex (fold (push_entry lossy) (oks rs) spec_default),
                 ps_complete = (errs rs = []), ps_skipped_entries = length (errs rs),
                 ps_error = first_of (errs rs)\<rparr>)"
  by (simp add: from_spec_xdr_def entry_loop_result fold_push_entry Let_def)

section \<open>Properties\<close>



text \<open>
  Claim C15. After \<^verbatim>\<open>reindex\<close> the hash lookups are the linear scans they replaced, and no lookup
  can index out of range: \<^verbatim>\<open>function\<close> returns the first function of that name, \<^verbatim>\<open>udt_def\<close> the first
  enum, else the first union, else the first struct of that name, and \<^verbatim>\<open>resolve_error_code\<close> the last
  error case declared with that code.
\<close>

theorem indexed_lookups:
  "function_of (reindex s) n = Inr (find (\<lambda>f. fn_name f = n) (cs_functions s))
   \<and> udt_def_of (reindex s) n = Inr
       (case find (\<lambda>e. en_name e = n) (cs_enums s) of
          Some e \<Rightarrow> Some (EnumDef e)
        | None \<Rightarrow> (case find (\<lambda>u. un_name u = n) (cs_unions s) of
              Some u \<Rightarrow> Some (UnionDef u)
            | None \<Rightarrow> map_option StructDef (find (\<lambda>x. st_name x = n) (cs_structs s))))
   \<and> resolve_error_code (reindex s) c =
       map_option (\<lambda>e. (ec_name e, ec_doc e))
         (find (\<lambda>e. ec_code e = c) (rev (concat (map ee_cases (cs_error_enums s)))))"
  by (simp add: function_of_reindex udt_def_of_reindex resolve_error_code_reindex)

end
