(* ===== verification/Enrich.thy ===== *)
theory Enrich
  imports Contract_Spec Scval
begin

text \<open>
  Event enrichment, the second half of \<^verbatim>\<open>crates/lumenqraph-core/src/spec.rs\<close>: choosing the event
  declaration that matches an emitted event, binding topics and data to its parameters, and
  re-labelling generically decoded values with their declared types (\<^verbatim>\<open>relabel\<close>, \<^verbatim>\<open>relabel_udt\<close>).

  The loop over \<^verbatim>\<open>events_by_prefix\<close> visits a \<^verbatim>\<open>HashMap\<close>: the visiting order is the parameter \<open>it\<close>.
  Out-of-range indexing panics in the source and is an error value here.
\<close>

section \<open>Re-labelling values\<close>

definition json_pairs :: "(string \<times> json) list \<Rightarrow> json" where
  "json_pairs kvs = Object (bt_of_list kvs)"

definition try_from_u32 :: "u64 \<Rightarrow> u32 option" where
  "try_from_u32 n = (if unat n < 2 ^ 32 then Some (ucast n) else None)"

definition relabel_enum :: "contract_spec \<Rightarrow> nat \<Rightarrow> json \<Rightarrow> json" where
  "relabel_enum s i v =
     (case (as_u64 v, if i < length (enum_cases s) then Some (enum_cases s ! i) else None) of
        (Some n, Some cases) \<Rightarrow>
          (case Option.bind (try_from_u32 n) (hm_get cases) of
             Some c \<Rightarrow> Str c
           | None \<Rightarrow> v)
      | _ \<Rightarrow> v)"

text \<open>
  The arms of \<open>relabel\<close> that recurse take the recursive call as an argument; the recursion itself is
  on the pair of the value's size and the type's size, since a UDT name re-enters with
  arbitrary types but strictly smaller values.
\<close>

function (sequential) relabel ::
    "(u8 list \<Rightarrow> string) \<Rightarrow> contract_spec \<Rightarrow> json \<Rightarrow> type_def \<Rightarrow> index_panic + json"
  and relabel_udt ::
    "(u8 list \<Rightarrow> string) \<Rightarrow> contract_spec \<Rightarrow> json \<Rightarrow> string \<Rightarrow> index_panic + json" where
  "relabel lossy s v (TOption t) = (if is_null v then Inr v else relabel lossy s v t)"
| "relabel lossy s v (TVec t) =
     (case v of
        Array a \<Rightarrow> bind_res (map_res (\<lambda>el. relabel lossy s el t) a) (\<lambda>xs. Inr (Array xs))
      | _ \<Rightarrow> Inr v)"
| "relabel lossy s v (TTuple ts) =
     (case v of
        Array a \<Rightarrow>
          if length a = length ts
          then bind_res (map_res (\<lambda>p. relabel lossy s (fst p) (snd p)) (zip a ts)) (\<lambda>xs. Inr (Array xs))
          else Inr v
      | _ \<Rightarrow> Inr v)"
| "relabel lossy s v (TMap kt vt) =
     (case v of
        Object obj \<Rightarrow>
          bind_res (map_res (\<lambda>p. bind_res (relabel lossy s (snd p) vt) (\<lambda>x. Inr (fst p, x))) obj)
            (\<lambda>xs. Inr (json_pairs xs))
      | Array a \<Rightarrow>
          bind_res (map_res (\<lambda>item.
              case jget ''key'' item of
                None \<Rightarrow> Inr item
              | Some k \<Rightarrow>
                  (case jget ''val'' item of
                     None \<Rightarrow> Inr item
                   | Some x \<Rightarrow>
                       bind_res (relabel lossy s k kt) (\<lambda>k'.
                       bind_res (relabel lossy s x vt) (\<lambda>x'.
                       Inr (jobj [(''key'', k'), (''val'', x')]))))) a)
            (\<lambda>xs. Inr (Array xs))
      | _ \<Rightarrow> Inr v)"
| "relabel lossy s v (TResult okt errt) =
     (case jget ''Ok'' v of
        Some x \<Rightarrow> bind_res (relabel lossy s x okt) (\<lambda>y. Inr (jobj [(''Ok'', y)]))
      | None \<Rightarrow>
          (case jget ''Err'' v of
             Some x \<Rightarrow> bind_res (relabel lossy s x errt) (\<lambda>y. Inr (jobj [(''Err'', y)]))
           | None \<Rightarrow> Inr v))"
| "relabel lossy s v (TUdt u) = relabel_udt lossy s v (lossy u)"
| "relabel lossy s v ty = Inr v"
| "relabel_udt lossy s v udt_name =
     (case hm_get (udts_by_name s) udt_name of
        Some (EnumRef i) \<Rightarrow> Inr (relabel_enum s i v)
      | Some (UnionRef i) \<Rightarrow>
          bind_res (at (cs_unions s) i) (\<lambda>u.
          case v of
            Array (Str case_name # values) \<Rightarrow>
              (case find (\<lambda>c. uc_name c = case_name) (un_cases u) of
                 None \<Rightarrow> Inr v
               | Some c \<Rightarrow>
                   if uc_tys c = [] then Inr (Str (uc_name c))
                   else if length values \<noteq> length (uc_tys c) then Inr v
                   else bind_res
                     (map_res (\<lambda>p. relabel lossy s (fst p) (snd p)) (zip values (uc_tys c)))
                     (\<lambda>xs. Inr (jobj [(uc_name c, Array xs)])))
          | _ \<Rightarrow> Inr v)
      | Some (StructRef i) \<Rightarrow>
          bind_res (at (cs_structs s) i) (\<lambda>st.
          case v of
            Object obj \<Rightarrow>
              bind_res (map_res (\<lambda>p.
                  bind_res (case find (\<lambda>f. field_name f = fst p) (st_fields st) of
                              Some f \<Rightarrow> relabel lossy s (snd p) (field_ty f)
                            | None \<Rightarrow> Inr (snd p))
                    (\<lambda>x. Inr (fst p, x))) obj)
                (\<lambda>xs. Inr (json_pairs xs))
          | Array a \<Rightarrow>
              if length a = length (st_fields st)
              then bind_res
                (map_res (\<lambda>p. relabel lossy s (fst p) (field_ty (snd p))) (zip a (st_fields st)))
                (\<lambda>xs. Inr (Array xs))
              else Inr v
          | _ \<Rightarrow> Inr v)
      | None \<Rightarrow> Inr v)"
  by pat_completeness auto
termination
proof (relation "measures [\<lambda>x. case x of Inl (_, _, v, _) \<Rightarrow> jsize v | Inr (_, _, v, _) \<Rightarrow> jsize v,
    \<lambda>x. case x of Inl (_, _, _, ty) \<Rightarrow> Suc (size ty) | Inr _ \<Rightarrow> 0]", goal_cases)
qed (auto dest!: set_zip_leftD jsize_elem jsize_entry jsize_get)

definition relabel_value ::
  "(u8 list \<Rightarrow> string) \<Rightarrow> contract_spec \<Rightarrow> json \<Rightarrow> type_def \<Rightarrow> index_panic + json" where
  "relabel_value lossy s v ty = relabel lossy s v ty"

section \<open>Choosing the declaration\<close>

definition leading_strings :: "json list \<Rightarrow> string list" where
  "leading_strings topics = map the_str (takeWhile is_str topics)"

definition prefix_matches :: "string list \<Rightarrow> string list \<Rightarrow> bool" where
  "prefix_matches strs p \<longleftrightarrow> length p > 0 \<and> length p \<le> length strs \<and> take (length p) strs = p"

definition prefix_step :: "string list \<Rightarrow> string list \<times> nat \<Rightarrow> nat option \<times> nat \<Rightarrow> nat option \<times> nat" where
  "prefix_step strs e best =
     (if prefix_matches strs (fst e) \<and> length (fst e) \<ge> snd best then (Some (snd e), length (fst e)) else best)"

definition best_prefix ::
  "((string list \<times> nat) list \<Rightarrow> (string list \<times> nat) list) \<Rightarrow> (string list, nat) hash_map \<Rightarrow>
   string list \<Rightarrow> nat option" where
  "best_prefix it table strs = fst (fold (prefix_step strs) (it table) (None, 0))"

definition select_event ::
  "((string list \<times> nat) list \<Rightarrow> (string list \<times> nat) list) \<Rightarrow> contract_spec \<Rightarrow> string \<Rightarrow> json list \<Rightarrow>
   event_spec option" where
  "select_event it s event_name topics =
     (case (case best_prefix it (events_by_prefix s) (leading_strings topics) of
              Some i \<Rightarrow> Some i
            | None \<Rightarrow> hm_get (events_by_name s) event_name) of
        None \<Rightarrow> None
      | Some i \<Rightarrow> if i < length (cs_events s) then Some (cs_events s ! i) else None)"

section \<open>Binding the parameters\<close>

definition next_or_null :: "json list \<Rightarrow> json \<times> json list" where
  "next_or_null xs = (case xs of [] \<Rightarrow> (Null, []) | x # rest \<Rightarrow> (x, rest))"

text \<open>One turn of the parameter loop: the value for \<open>p\<close> and the two iterators after it.\<close>

definition param_value ::
  "string \<Rightarrow> json \<Rightarrow> event_param \<Rightarrow> json list \<Rightarrow> json list \<Rightarrow> json \<times> json list \<times> json list" where
  "param_value fmt decoded p ts ds =
     (if ep_location p = ''topic'' then (let (v, ts) = next_or_null ts in (v, ts, ds))
      else if fmt = ''map'' then
        ((case jget (ep_name p) decoded of Some v \<Rightarrow> v | None \<Rightarrow> Null), ts, ds)
      else if fmt = ''vec'' then (let (v, ds) = next_or_null ds in (v, ts, ds))
      else (decoded, ts, ds))"

fun bind_params ::
  "(u8 list \<Rightarrow> string) \<Rightarrow> contract_spec \<Rightarrow> string \<Rightarrow> json \<Rightarrow> event_param list \<Rightarrow> json list \<Rightarrow> json list \<Rightarrow>
   (string, json) btree_map \<Rightarrow> index_panic + (string, json) btree_map" where
  "bind_params lossy s fmt decoded [] ts ds params = Inr params"
| "bind_params lossy s fmt decoded (p # ps) ts ds params =
     (let (v, ts, ds) = param_value fmt decoded p ts ds in
      bind_res (relabel lossy s v (ep_ty p)) (\<lambda>labelled.
      bind_params lossy s fmt decoded ps ts ds
        (bt_insert (ep_name p) (jobj [(''type'', Str (ep_type_name p)), (''value'', labelled)]) params)))"

definition enrich_event ::
  "(u8 list \<Rightarrow> string) \<Rightarrow> ((string list \<times> nat) list \<Rightarrow> (string list \<times> nat) list) \<Rightarrow> contract_spec \<Rightarrow>
   string \<Rightarrow> json list \<Rightarrow> json \<Rightarrow> index_panic + json option" where
  "enrich_event lossy it s event_name topics decoded =
     (case select_event it s event_name topics of
        None \<Rightarrow> Inr None
      | Some ev \<Rightarrow>
          (let skip = max (length (ev_prefix_topics ev)) 1;
               topic_vals = drop skip topics;
               data_vals = (if ev_data_format ev = ''vec''
                            then (case decoded of Array a \<Rightarrow> a | _ \<Rightarrow> []) else [])
           in bind_res (bind_params lossy s (ev_data_format ev) decoded (ev_params ev) topic_vals data_vals [])
                (\<lambda>params. Inr (Some (jobj [(''event'', Str (ev_name ev)), (''params'', Object params)])))))"

section \<open>The longest matching prefix, in any visiting order\<close>

lemma prefix_matches_unique:
  "prefix_matches strs p \<Longrightarrow> prefix_matches strs q \<Longrightarrow> length p = length q \<Longrightarrow> p = q"
  by (auto simp: prefix_matches_def)

text \<open>What the loop has established after visiting \<open>xs\<close>.\<close>

definition best_of :: "string list \<Rightarrow> (string list \<times> nat) list \<Rightarrow> nat option \<times> nat \<Rightarrow> bool" where
  "best_of strs xs r \<longleftrightarrow>
     (case fst r of
        None \<Rightarrow> snd r = 0 \<and> (\<forall>e \<in> set xs. \<not> prefix_matches strs (fst e))
      | Some i \<Rightarrow> \<exists>p. (p, i) \<in> set xs \<and> prefix_matches strs p \<and> snd r = length p
          \<and> (\<forall>e \<in> set xs. prefix_matches strs (fst e) \<longrightarrow> length (fst e) \<le> length p))"

lemma best_of_loop: "best_of strs xs (fold (prefix_step strs) xs (None, 0))"
proof (induction xs rule: rev_induct)
  case (snoc e xs)
  obtain b l where r: "fold (prefix_step strs) xs (None, 0) = (b, l)"
    by fastforce
  show ?case
  proof (cases "prefix_matches strs (fst e) \<and> length (fst e) \<ge> l")
    case True
    have "length (fst x) \<le> length (fst e)" if "x \<in> set xs" "prefix_matches strs (fst x)" for x
      using snoc that True unfolding best_of_def r by (force split: option.splits)
    moreover have "fold (prefix_step strs) (xs @ [e]) (None, 0) = (Some (snd e), length (fst e))"
      using True r by (simp add: prefix_step_def [of strs e])
    ultimately show ?thesis
      using True by (auto simp: best_of_def intro!: exI [of _ "fst e"])
  next
    case False
    then have "fold (prefix_step strs) (xs @ [e]) (None, 0) = (b, l)"
      using r by (auto simp: prefix_step_def [of strs e])
    with snoc r False show ?thesis
      by (auto simp: best_of_def prefix_matches_def split: option.splits)
  qed
qed (simp add: best_of_def)

text \<open>Lookup of the longest prefix that is a key, by decreasing length.\<close>

fun longest_key :: "(string list, nat) hash_map \<Rightarrow> string list \<Rightarrow> nat \<Rightarrow> nat option" where
  "longest_key m strs 0 = None"
| "longest_key m strs (Suc n) =
     (case hm_get m (take (Suc n) strs) of Some i \<Rightarrow> Some i | None \<Rightarrow> longest_key m strs n)"

lemma longest_key_None:
  assumes "\<And>p i. (p, i) \<in> set m \<Longrightarrow> \<not> prefix_matches strs p" "n \<le> length strs"
  shows "longest_key m strs n = None"
  using assms(2)
proof (induction n)
  case (Suc n)
  have "prefix_matches strs (take (Suc n) strs)"
    using Suc.prems by (auto simp: prefix_matches_def)
  with assms(1) have "hm_get m (take (Suc n) strs) = None"
    by (metis map_of_SomeD not_None_eq)
  with Suc show ?case by simp
qed simp

lemma longest_key_Some:
  assumes "hm_inv m" "(p, i) \<in> set m" "prefix_matches strs p"
    "\<And>q j. (q, j) \<in> set m \<Longrightarrow> prefix_matches strs q \<Longrightarrow> length q \<le> length p"
    "length p \<le> n" "n \<le> length strs"
  shows "longest_key m strs n = Some i"
  using assms(5,6)
proof (induction n)
  case 0
  then show ?case using assms(3) by (simp add: prefix_matches_def)
next
  case (Suc n)
  have m: "prefix_matches strs (take (Suc n) strs)"
    using Suc.prems by (auto simp: prefix_matches_def)
  show ?case
  proof (cases "length p = Suc n")
    case True
    with m assms(3) Suc.prems have "p = take (Suc n) strs"
      by (intro prefix_matches_unique) auto
    then show ?thesis
      using assms(1,2) by (simp add: map_of_eq_Some_iff)
  next
    case False
    have "hm_get m (take (Suc n) strs) = None"
    proof (rule ccontr)
      assume "hm_get m (take (Suc n) strs) \<noteq> None"
      then obtain j where "(take (Suc n) strs, j) \<in> set m"
        by (auto dest: map_of_SomeD)
      from assms(4) [OF this m] Suc.prems False show False by simp
    qed
    with Suc False show ?thesis by simp
  qed
qed

lemma best_prefix_eq:
  assumes "visits it" "hm_inv m"
  shows "best_prefix it m strs = longest_key m strs (length strs)"
proof -
  obtain b l where r: "fold (prefix_step strs) (it m) (None, 0) = (b, l)"
    by fastforce
  have best: "best_of strs (it m) (b, l)"
    using best_of_loop [of strs "it m"] r by simp
  show ?thesis
  proof (cases b)
    case None
    then have "longest_key m strs (length strs) = None"
      using best by (intro longest_key_None) (force simp: best_of_def visits_set [OF assms(1)])+
    with None r show ?thesis by (simp add: best_prefix_def)
  next
    case (Some i)
    then obtain p where p: "(p, i) \<in> set m" "prefix_matches strs p"
      "\<And>e. e \<in> set m \<Longrightarrow> prefix_matches strs (fst e) \<Longrightarrow> length (fst e) \<le> length p"
      using best by (auto simp: best_of_def visits_set [OF assms(1)])
    then have "longest_key m strs (length strs) = Some i"
      using assms(2) by (intro longest_key_Some [of m p]) (auto simp: prefix_matches_def)
    with Some r show ?thesis by (simp add: best_prefix_def)
  qed
qed

section \<open>Re-labelling never panics and keeps values well-formed\<close>

definition udt_refs_ok :: "contract_spec \<Rightarrow> bool" where
  "udt_refs_ok s \<longleftrightarrow> (\<forall>n i. (hm_get (udts_by_name s) n = Some (UnionRef i) \<longrightarrow> i < length (cs_unions s))
     \<and> (hm_get (udts_by_name s) n = Some (StructRef i) \<longrightarrow> i < length (cs_structs s)))"

lemma udt_refs_ok_reindex: "udt_refs_ok (reindex s)"
proof -
  have "udts_by_name (reindex s) = build_udts_by_name (cs_enums s) (cs_unions s) (cs_structs s)"
    by (simp add: reindex_def)
  then show ?thesis
    unfolding udt_refs_ok_def build_udts_by_name_def
    by (auto simp: first_wins_index takeWhile_index [where P = "\<lambda>u. un_name u = n" for n]
        takeWhile_index [where P = "\<lambda>x. st_name x = n" for n] split: option.splits if_splits)
qed

lemma map_res_total:
  assumes "\<And>x. x \<in> set xs \<Longrightarrow> \<exists>y. f x = Inr y \<and> P y"
  shows "\<exists>ys. map_res f xs = Inr ys \<and> list_all P ys"
  using assms
proof (induction xs)
  case (Cons x xs)
  then obtain y ys where "f x = Inr y" "P y" "map_res f xs = Inr ys" "list_all P ys"
    by (metis list.set_intros)
  then show ?case by simp
qed simp

lemma json_wf_json_pairs: "list_all (\<lambda>p. json_wf (snd p)) kvs \<Longrightarrow> json_wf (json_pairs kvs)"
  using json_wf_jobj [of kvs] by (simp add: json_pairs_def jobj_def del: json_wf_jobj)

lemma json_wf_get: "jget k v = Some x \<Longrightarrow> json_wf v \<Longrightarrow> json_wf x"
  by (force simp: jget_Some dest: map_of_SomeD)

definition labels :: "index_panic + json \<Rightarrow> json \<Rightarrow> bool" where
  "labels r v \<longleftrightarrow> (\<exists>w. r = Inr w \<and> (json_wf v \<longrightarrow> json_wf w))"

lemma labels_refl [simp]: "labels (Inr v) v"
  by (simp add: labels_def)

lemma labels_Array:
  assumes "\<And>x. x \<in> set xs \<Longrightarrow> \<exists>y. f x = Inr y \<and> (json_wf v \<longrightarrow> json_wf y)"
  shows "labels (bind_res (map_res f xs) (\<lambda>ys. Inr (Array ys))) v"
proof -
  have "\<exists>ys. map_res f xs = Inr ys \<and> list_all (\<lambda>y. json_wf v \<longrightarrow> json_wf y) ys"
    by (rule map_res_total) (rule assms)
  then show ?thesis
    by (auto simp: labels_def list_all_iff)
qed

lemma labels_Object:
  assumes "\<And>p. p \<in> set xs \<Longrightarrow> \<exists>y. f p = Inr y \<and> (json_wf v \<longrightarrow> json_wf y)"
  shows "labels (bind_res (map_res (\<lambda>p. bind_res (f p) (\<lambda>y. Inr (fst p, y))) xs) (\<lambda>ys. Inr (json_pairs ys))) v"
proof -
  have "\<exists>ys. map_res (\<lambda>p. bind_res (f p) (\<lambda>y. Inr (fst p, y))) xs = Inr ys
      \<and> list_all (\<lambda>p. json_wf v \<longrightarrow> json_wf (snd p)) ys"
    by (rule map_res_total) (use assms in force)
  then show ?thesis
    by (auto simp: labels_def list_all_iff intro!: json_wf_json_pairs)
qed

lemma json_wf_elem: "x \<in> set a \<Longrightarrow> json_wf (Array a) \<Longrightarrow> json_wf x"
  by simp

lemma json_wf_entry: "p \<in> set m \<Longrightarrow> json_wf (Object m) \<Longrightarrow> json_wf (snd p)"
  by simp

lemma json_wf_zip: "(a, b) \<in> set (zip xs ys) \<Longrightarrow> json_wf (Array xs) \<Longrightarrow> json_wf a"
  by (auto dest: set_zip_leftD)

lemma labelsD: "labels r v \<Longrightarrow> (json_wf u \<Longrightarrow> json_wf v) \<Longrightarrow> \<exists>w. r = Inr w \<and> (json_wf u \<longrightarrow> json_wf w)"
  by (auto simp: labels_def)

lemma labels_bind:
  assumes "labels r v" "json_wf u \<Longrightarrow> json_wf v" "\<And>w. json_wf w \<Longrightarrow> json_wf (g w)"
  shows "labels (bind_res r (\<lambda>w. Inr (g w))) u"
  using assms by (auto simp: labels_def)

lemma labels_wf: "json_wf w \<Longrightarrow> labels (Inr w) v"
  by (simp add: labels_def)

lemma labels_trans: "labels r v \<Longrightarrow> (json_wf u \<Longrightarrow> json_wf v) \<Longrightarrow> labels r u"
  by (auto simp: labels_def)

lemma relabel_enum_wf: "json_wf v \<Longrightarrow> json_wf (relabel_enum s i v)"
  by (auto simp: relabel_enum_def split: option.splits)

lemma relabel_labels:
  "udt_refs_ok s \<Longrightarrow> labels (relabel lossy s v ty) v"
  "udt_refs_ok s \<Longrightarrow> labels (relabel_udt lossy s v n) v"
proof (induction lossy s v ty and lossy s v n rule: relabel_relabel_udt.induct)
  case (1 lossy s v t)
  then show ?case by simp
next
  case (2 lossy s v t)
  then show ?case
    by (cases v) (auto simp del: json_wf.simps intro!: labels_Array labelsD [OF 2(1)] elim: json_wf_elem)
next
  case (3 lossy s v ts)
  then show ?case
    by (cases v) (auto simp del: json_wf.simps intro!: labels_Array labelsD [OF 3(1)] elim: json_wf_zip)
next
  case (4 lossy s v kt vt)
  have item: "\<exists>y. (case jget ''key'' item of None \<Rightarrow> Inr item
      | Some k \<Rightarrow> (case jget ''val'' item of None \<Rightarrow> Inr item
         | Some x \<Rightarrow> bind_res (relabel lossy s k kt) (\<lambda>k'. bind_res (relabel lossy s x vt) (\<lambda>x'.
             Inr (jobj [(''key'', k'), (''val'', x')]))))) = Inr y \<and> (json_wf v \<longrightarrow> json_wf y)"
    if v: "v = Array a" "item \<in> set a" for a item
  proof (cases "jget ''key'' item = None \<or> jget ''val'' item = None")
    case True
    with v show ?thesis by (auto split: option.split)
  next
    case False
    then obtain k x where kx: "jget ''key'' item = Some k" "jget ''val'' item = Some x"
      by auto
    have "json_wf v \<Longrightarrow> json_wf k \<and> json_wf x"
      using v kx by (auto intro: json_wf_get)
    moreover obtain k' x' where "relabel lossy s k kt = Inr k'" "relabel lossy s x vt = Inr x'"
      "json_wf k \<longrightarrow> json_wf k'" "json_wf x \<longrightarrow> json_wf x'"
      using 4(1) [OF v kx] 4(2) [OF v kx] "4.prems" unfolding labels_def by blast
    ultimately show ?thesis
      using kx by simp
  qed
  show ?case
    using "4.prems" item
    by (cases v) (auto simp del: json_wf.simps intro!: labels_Array labels_Object labelsD [OF 4(3)] elim: json_wf_entry)
next
  case (5 lossy s v okt errt)
  show ?case
    using 5 by (auto split: option.split intro!: labels_bind [OF 5(1)] labels_bind [OF 5(2)] elim: json_wf_get)
next
  case (8 lossy s v n)
  note refs = "8.prems" [unfolded udt_refs_ok_def, rule_format, of n]
  show ?case
  proof (cases "hm_get (udts_by_name s) n")
    case (Some r)
    show ?thesis
    proof (cases r)
      case (EnumRef i)
      with Some show ?thesis
        using relabel_enum_wf [of v s i] by (simp add: labels_def)
    next
      case (UnionRef i)
      with Some refs have u: "at (cs_unions s) i = Inr (cs_unions s ! i)"
        by (simp add: at_def)
      have tup: "labels (bind_res (map_res (\<lambda>p. relabel lossy s (fst p) (snd p)) (zip vals (uc_tys c)))
           (\<lambda>xs. Inr (jobj [(uc_name c, Array xs)]))) (Array (Str cn # vals))"
        if v: "v = Array (Str cn # vals)" and c: "find (\<lambda>c. uc_name c = cn) (un_cases (cs_unions s ! i)) = Some c"
          "uc_tys c \<noteq> []" "length vals = length (uc_tys c)" for cn vals c
      proof -
        have "\<exists>ys. map_res (\<lambda>p. relabel lossy s (fst p) (snd p)) (zip vals (uc_tys c)) = Inr ys
            \<and> list_all (\<lambda>y. json_wf v \<longrightarrow> json_wf y) ys"
        proof (rule map_res_total)
          fix p assume p: "p \<in> set (zip vals (uc_tys c))"
          have "labels (relabel lossy s (fst p) (snd p)) (fst p)"
            using 8 Some UnionRef u v c p by simp
          moreover have "json_wf v \<Longrightarrow> json_wf (fst p)"
            using v p by (cases p) (auto dest: set_zip_leftD)
          ultimately show "\<exists>y. relabel lossy s (fst p) (snd p) = Inr y \<and> (json_wf v \<longrightarrow> json_wf y)"
            by (rule labelsD)
        qed
        then show ?thesis using v by (auto simp: labels_def list_all_iff)
      qed
      show ?thesis
        using Some UnionRef u by (auto split: json.split list.split option.split intro: tup labels_wf)
    next
      case (StructRef i)
      with Some refs have u: "at (cs_structs s) i = Inr (cs_structs s ! i)"
        by (simp add: at_def)
      let ?fs = "st_fields (cs_structs s ! i)"
      have arr: "\<exists>y. relabel lossy s (fst p) (field_ty (snd p)) = Inr y \<and> (json_wf v \<longrightarrow> json_wf y)"
        if "v = Array a" "length a = length ?fs" "p \<in> set (zip a ?fs)" for a p
        using 8 Some StructRef u that
        by (intro labelsD [of _ "fst p"]) (cases p, auto dest: set_zip_leftD)+
      have obj: "\<exists>y. (case find (\<lambda>f. field_name f = fst p) ?fs of Some f \<Rightarrow> relabel lossy s (snd p) (field_ty f)
          | None \<Rightarrow> Inr (snd p)) = Inr y \<and> (json_wf v \<longrightarrow> json_wf y)"
        if "v = Object m" "p \<in> set m" for m p
        using 8 Some StructRef u that
        by (intro labelsD [of _ "snd p"]) (auto split: option.split)
      show ?thesis
      proof (cases v)
        case (Array a)
        have "labels (bind_res (map_res (\<lambda>p. relabel lossy s (fst p) (field_ty (snd p))) (zip a ?fs))
            (\<lambda>xs. Inr (Array xs))) v" if "length a = length ?fs"
          by (rule labels_Array) (rule arr [OF Array that])
        then show ?thesis
          using Some StructRef u Array by simp
      next
        case (Object m)
        have "labels (bind_res (map_res (\<lambda>p. bind_res
              (case find (\<lambda>f. field_name f = fst p) ?fs of Some f \<Rightarrow> relabel lossy s (snd p) (field_ty f)
               | None \<Rightarrow> Inr (snd p)) (\<lambda>x. Inr (fst p, x))) m) (\<lambda>xs. Inr (json_pairs xs))) v"
          by (rule labels_Object) (rule obj [OF Object])
        then show ?thesis
          using Some StructRef u Object by simp
      qed (use Some StructRef u in simp_all)
    qed
  qed simp
qed simp_all

lemma param_value_wf:
  assumes "param_value fmt d p ts ds = (v, ts', ds')"
    "json_wf d" "list_all json_wf ts" "list_all json_wf ds"
  shows "json_wf v \<and> list_all json_wf ts' \<and> list_all json_wf ds'"
  using assms
  by (auto simp: param_value_def next_or_null_def split: if_splits list.splits option.splits
      dest: json_wf_get)

lemma bind_params_ok:
  assumes "udt_refs_ok s" "json_wf d" "list_all json_wf ts" "list_all json_wf ds" "json_wf (Object m)"
  shows "\<exists>m'. bind_params lossy s fmt d ps ts ds m = Inr m' \<and> json_wf (Object m')"
  using assms(3-5)
proof (induction ps arbitrary: ts ds m)
  case (Cons p ps)
  obtain v ts' ds' where v: "param_value fmt d p ts ds = (v, ts', ds')"
    by (metis prod_cases3)
  with param_value_wf [OF v assms(2)] Cons.prems
  have wf: "json_wf v" "list_all json_wf ts'" "list_all json_wf ds'" by auto
  obtain w where w: "relabel lossy s v (ep_ty p) = Inr w" "json_wf w"
    using relabel_labels(1) [OF assms(1), of lossy v "ep_ty p"] wf(1) by (auto simp: labels_def)
  let ?m = "bt_insert (ep_name p) (jobj [(''type'', Str (ep_type_name p)), (''value'', w)]) m"
  have "json_wf (Object ?m)"
    using Cons.prems(3) w(2) by (auto simp: bt_insert_inv dest!: bt_insert_values)
  from Cons.IH [OF wf(2,3) this] v w(1) show ?case by simp
qed simp

lemma data_vals_wf:
  assumes "json_wf v"
  shows "list_all json_wf (if b then (case v of Array a \<Rightarrow> a | _ \<Rightarrow> []) else [])"
proof -
  have "list_all json_wf (case v of Array a \<Rightarrow> a | _ \<Rightarrow> [])"
    using assms by (cases v; simp add: list_all_iff)
  then show ?thesis by simp
qed

section \<open>Properties\<close>

text \<open>
  Claim C10. The choice of the event declaration. Whatever order the hash map of prefixes is visited
  in, an event whose leading string topics start with a declared prefix is enriched with the
  declaration of the longest such prefix (the last one declared, if several share it), and
  two visiting orders never give different results.
\<close>

theorem enrich_longest_prefix:
  assumes "visits it" "i < length (cs_events s)"
    "prefix_matches (leading_strings topics) (ev_prefix_topics (cs_events s ! i))"
    "\<And>j. j < length (cs_events s) \<Longrightarrow> prefix_matches (leading_strings topics) (ev_prefix_topics (cs_events s ! j))
       \<Longrightarrow> length (ev_prefix_topics (cs_events s ! j)) < length (ev_prefix_topics (cs_events s ! i))
         \<or> ev_prefix_topics (cs_events s ! j) = ev_prefix_topics (cs_events s ! i) \<and> j \<le> i"
  shows "select_event it (reindex s) name topics = Some (cs_events s ! i)
    \<and> (visits it' \<longrightarrow> enrich_event lossy it' (reindex s) name topics v
                    = enrich_event lossy it (reindex s) name topics v)"
proof
  let ?m = "build_events_by_prefix (cs_events s)"
  let ?strs = "leading_strings topics"
  let ?p = "ev_prefix_topics (cs_events s ! i)"
  have m: "events_by_prefix (reindex s) = ?m"
    by (simp add: reindex_def)
  have inv: "hm_inv ?m" by (rule events_by_prefix_inv)
  have "hm_get ?m ?p = Some i"
    using assms(2-4) by (force simp: events_by_prefix_get prefix_matches_def)
  moreover have "length q \<le> length ?p" if q: "(q, j) \<in> set ?m" "prefix_matches ?strs q" for q j
  proof -
    have "j < length (cs_events s)" "ev_prefix_topics (cs_events s ! j) = q"
      using q(1) unfolding map_of_eq_Some_iff [OF inv, symmetric] events_by_prefix_get by auto
    with assms(4) [of j] q(2) show ?thesis by auto
  qed
  ultimately have "longest_key ?m ?strs (length ?strs) = Some i"
    using assms(3) by (intro longest_key_Some [of ?m ?p])
      (auto simp: inv map_of_eq_Some_iff prefix_matches_def)
  then have "best_prefix it (events_by_prefix (reindex s)) ?strs = Some i"
    using best_prefix_eq [OF assms(1) inv] m by simp
  then show "select_event it (reindex s) name topics = Some (cs_events s ! i)"
    using assms(2) by (simp add: select_event_def)
  show "visits it' \<longrightarrow> enrich_event lossy it' (reindex s) name topics v
      = enrich_event lossy it (reindex s) name topics v"
    using best_prefix_eq [OF assms(1) inv] best_prefix_eq [OF _ inv, of it'] m
    by (simp add: enrich_event_def select_event_def)
qed

definition sample_event :: "string list \<Rightarrow> event_spec" where
  "sample_event p = \<lparr>ev_name = ''E'', ev_doc = [], ev_prefix_topics = p, ev_params = [], ev_data_format = ''map''\<rparr>"

theorem enrich_longest_prefix_witness:
  "select_event rev (reindex (spec_default\<lparr>cs_events := [sample_event [''a''], sample_event [''a'', ''b'']]\<rparr>))
     ''a'' [Str ''a'', Str ''b'', Null] = Some (sample_event [''a'', ''b''])"
proof -
  let ?s = "spec_default\<lparr>cs_events := [sample_event [''a''], sample_event [''a'', ''b'']]\<rparr>"
  let ?ts = "[Str ''a'', Str ''b'', Null]"
  have "length (ev_prefix_topics (cs_events ?s ! j)) < length (ev_prefix_topics (cs_events ?s ! 1))
      \<or> ev_prefix_topics (cs_events ?s ! j) = ev_prefix_topics (cs_events ?s ! 1) \<and> j \<le> 1"
    if "j < length (cs_events ?s)" "prefix_matches (leading_strings ?ts) (ev_prefix_topics (cs_events ?s ! j))" for j
    using that(1) by (cases j) (auto simp: sample_event_def)
  moreover have "prefix_matches (leading_strings ?ts) (ev_prefix_topics (cs_events ?s ! 1))"
    by (simp add: prefix_matches_def leading_strings_def sample_event_def)
  moreover have "visits rev" "1 < length (cs_events ?s)"
    by (simp_all add: visits_def)
  ultimately have "select_event rev (reindex ?s) ''a'' ?ts = Some (cs_events ?s ! 1)"
    using enrich_longest_prefix [THEN conjunct1, of rev 1 ?s ?ts "''a''"] by blast
  then show ?thesis by simp
qed

lemma enrich_event_ok:
  assumes "list_all json_wf topics" "json_wf v"
  shows "\<exists>r. enrich_event lossy it (reindex s) name topics v = Inr r \<and> (\<forall>j. r = Some j \<longrightarrow> json_wf j)"
proof (cases "select_event it (reindex s) name topics")
  case (Some ev)
  let ?ts = "drop (max (length (ev_prefix_topics ev)) 1) topics"
  let ?ds = "if ev_data_format ev = ''vec'' then (case v of Array a \<Rightarrow> a | _ \<Rightarrow> []) else []"
  have "list_all json_wf ?ts"
    using assms(1) by (auto simp: list_all_iff dest: in_set_dropD)
  moreover have "list_all json_wf ?ds"
    by (rule data_vals_wf [OF assms(2)])
  ultimately obtain m where "bind_params lossy (reindex s) (ev_data_format ev) v (ev_params ev) ?ts ?ds [] = Inr m"
    "json_wf (Object m)"
    using bind_params_ok [OF udt_refs_ok_reindex assms(2), of ?ts ?ds "[]" lossy s "ev_data_format ev" "ev_params ev"]
    by auto
  then have "enrich_event lossy it (reindex s) name topics v
      = Inr (Some (jobj [(''event'', Str (ev_name ev)), (''params'', Object m)]))"
    unfolding enrich_event_def Some option.case Let_def by (simp only: bind_res.simps)
  with \<open>json_wf (Object m)\<close> show ?thesis by simp
qed (simp add: enrich_event_def)

text \<open>
  Claim C11. Enrichment is total and keeps data well-formed: over an indexed interface no lookup can
  index out of range, whatever the value and the declared types, recursive types included; the
  recursion ends; and a well-formed event gives a well-formed record.
\<close>

theorem enrich_total:
  assumes "list_all json_wf topics" "json_wf v"
  shows "(\<exists>r. enrich_event lossy it (reindex s) name topics v = Inr r \<and> (\<forall>j. r = Some j \<longrightarrow> json_wf j))
    \<and> (\<exists>w. relabel_value lossy (reindex s) v ty = Inr w \<and> json_wf w)"
  using enrich_event_ok [OF assms, of lossy it s name]
    relabel_labels(1) [OF udt_refs_ok_reindex, of lossy s v ty] assms(2)
  by (auto simp: labels_def relabel_value_def)

theorem enrich_total_witness:
  "\<exists>r w. enrich_event text_of_bytes id (reindex spec_default) ''a'' [Str ''a''] (Array [Null]) = Inr r
     \<and> relabel_value text_of_bytes (reindex spec_default) (Array [Null]) (TVec TU32) = Inr w \<and> json_wf w"
  using enrich_total [of "[Str ''a'']" "Array [Null]" text_of_bytes id spec_default "''a''" "TVec TU32"] by auto

definition topic0_key :: "event_spec \<Rightarrow> string option" where
  "topic0_key e = (case ev_prefix_topics e of [] \<Rightarrow> None | t # _ \<Rightarrow> Some t)"

lemma last_index_over:
  "hm_get (fold (\<lambda>ix m. case kf (snd ix) of None \<Rightarrow> m | Some k \<Rightarrow> hm_insert k (fst ix) m) (enumerate 0 xs) m) k
   = (case hm_get (last_index kf xs) k of Some i \<Rightarrow> Some i | None \<Rightarrow> hm_get m k)"
proof (induction xs rule: rev_induct)
  case (snoc x xs)
  then show ?case
    by (cases "kf x") (auto simp: enumerate_append_eq last_index_snoc update_conv' split: option.split)
qed (simp add: last_index_def)

lemma last_index_find:
  "map_option (\<lambda>i. xs ! i) (hm_get (last_index kf xs) k) = find (\<lambda>x. kf x = Some k) (rev xs)"
proof (induction xs rule: rev_induct)
  case (snoc x xs)
  have "i < length xs" if "hm_get (last_index kf xs) k = Some i" for i
    using that by (simp add: last_index_get)
  then have "map_option (\<lambda>i. (xs @ [x]) ! i) (hm_get (last_index kf xs) k)
      = map_option (\<lambda>i. xs ! i) (hm_get (last_index kf xs) k)"
    by (cases "hm_get (last_index kf xs) k") (simp_all add: nth_append)
  with snoc show ?case
    by (cases "kf x") (auto simp: last_index_snoc update_conv')
qed (simp add: last_index_def)

lemma build_events_by_name_alt:
  "build_events_by_name evs =
     fold (\<lambda>ix m. case topic0_key (snd ix) of None \<Rightarrow> m | Some k \<Rightarrow> hm_insert k (fst ix) m) (enumerate 0 evs)
       (fold (\<lambda>ie. hm_or_insert (ev_name (snd ie)) (fst ie)) (enumerate 0 evs) [])"
  unfolding build_events_by_name_def topic0_key_def
  by (intro fold_cong refl) (auto split: list.split)

lemma events_by_name_get:
  "map_option (\<lambda>i. evs ! i) (hm_get (build_events_by_name evs) n)
   = (case find (\<lambda>e. topic0_key e = Some n) (rev evs) of
        Some e \<Rightarrow> Some e
      | None \<Rightarrow> find (\<lambda>e. ev_name e = n) evs)"
  unfolding last_index_find [symmetric] build_events_by_name_alt
  by (auto simp: last_index_over first_wins_index [where g = "\<lambda>i. i"] find_takeWhile split: option.split)

lemma events_by_name_less:
  "hm_get (build_events_by_name evs) n = Some i \<Longrightarrow> i < length evs"
  using takeWhile_index [of evs "\<lambda>e. ev_name e = n"] unfolding build_events_by_name_alt
  by (auto simp: last_index_over last_index_get first_wins_index [where g = "\<lambda>i. i"]
      split: option.splits if_splits)

text \<open>
  When no declared prefix matches the topics, the declaration is chosen by name: the last
  event whose first prefix topic is the name, or else the first event declared with that name,
  or none.
\<close>

theorem enrich_by_name:
  assumes "visits it"
    "list_all (\<lambda>e. \<not> prefix_matches (leading_strings topics) (ev_prefix_topics e)) (cs_events s)"
  shows "select_event it (reindex s) name topics =
    (case find (\<lambda>e. topic0_key e = Some name) (rev (cs_events s)) of
       Some e \<Rightarrow> Some e
     | None \<Rightarrow> find (\<lambda>e. ev_name e = name) (cs_events s))"
proof -
  let ?m = "build_events_by_prefix (cs_events s)"
  have inv: "hm_inv ?m" by (rule events_by_prefix_inv)
  have no: "\<not> prefix_matches (leading_strings topics) p" if "(p, i) \<in> set ?m" for p i
    using that assms(2) unfolding map_of_eq_Some_iff [OF inv, symmetric] events_by_prefix_get
    by (auto simp: list_all_length)
  have "best_prefix it (events_by_prefix (reindex s)) (leading_strings topics) = None"
    using best_prefix_eq [OF assms(1) inv] longest_key_None [OF no] by (simp add: reindex_def)
  moreover have "events_by_name (reindex s) = build_events_by_name (cs_events s)"
    by (simp add: reindex_def)
  ultimately show ?thesis
    using events_by_name_less [of "cs_events s" name]
    unfolding events_by_name_get [symmetric] select_event_def by (auto split: option.split)
qed

theorem enrich_by_name_witness:
  "select_event id (reindex (spec_default\<lparr>cs_events := [sample_event []]\<rparr>)) ''E'' [Str ''a''] = Some (sample_event [])"
  using enrich_by_name [of id "[Str ''a'']" "spec_default\<lparr>cs_events := [sample_event []]\<rparr>" "''E''"]
  by (simp add: visits_def prefix_matches_def sample_event_def topic0_key_def)

end
