(* ===== verification/Spec_Diff.thy ===== *)
theory Spec_Diff
  imports Contract_Spec
begin

text \<open>
  Interface diffing, \<^verbatim>\<open>crates/lumenqraph-core/src/diff.rs\<close>: the rendered signatures of functions,
  events and types, the comparison of two signature maps, the re-classification of purely
  additive event and type changes, and the report with its severity and summary.
\<close>

section \<open>Severity\<close>

datatype severity = Additive | PotentiallyBreaking | Breaking

text \<open>The derived \<^verbatim>\<open>Ord\<close>: constructors in declaration order.\<close>

fun severity_rank :: "severity \<Rightarrow> nat" where
  "severity_rank Additive = 0"
| "severity_rank PotentiallyBreaking = 1"
| "severity_rank Breaking = 2"

lemma severity_rank_inj: "severity_rank a = severity_rank b \<Longrightarrow> a = b"
  by (cases a; cases b) auto

instantiation severity :: linorder
begin

definition less_eq_severity :: "severity \<Rightarrow> severity \<Rightarrow> bool" where
  "less_eq_severity a b \<longleftrightarrow> severity_rank a \<le> severity_rank b"

definition less_severity :: "severity \<Rightarrow> severity \<Rightarrow> bool" where
  "less_severity a b \<longleftrightarrow> severity_rank a < severity_rank b"

instance
  by standard (auto simp: less_eq_severity_def less_severity_def dest: severity_rank_inj)

end

section \<open>Reports\<close>

record changed_item =
  ci_name :: string
  ci_from :: string
  ci_to :: string
  ci_severity :: severity

record reordered_item =
  ri_name :: string
  ri_from :: string
  ri_to :: string
  ri_severity :: severity

record potentially_breaking_item =
  pb_name :: string
  pb_from :: string
  pb_to :: string
  pb_severity :: severity
  pb_description :: string

record section_diff =
  sd_added :: "string list"
  sd_removed :: "string list"
  sd_changed :: "changed_item list"
  sd_reordered :: "reordered_item list"
  sd_potentially_breaking :: "potentially_breaking_item list"

record spec_diff =
  df_breaking :: bool
  df_max_severity :: severity
  df_summary :: "string list"
  df_functions :: section_diff
  df_events :: section_diff
  df_types :: section_diff

definition section_default :: section_diff where
  "section_default = \<lparr>sd_added = [], sd_removed = [], sd_changed = [], sd_reordered = [],
     sd_potentially_breaking = []\<rparr>"

definition section_is_empty :: "section_diff \<Rightarrow> bool" where
  "section_is_empty d \<longleftrightarrow> sd_added d = [] \<and> sd_removed d = [] \<and> sd_changed d = [] \<and> sd_reordered d = []
     \<and> sd_potentially_breaking d = []"

definition section_max_severity :: "section_diff \<Rightarrow> severity" where
  "section_max_severity d =
     (if sd_removed d \<noteq> [] \<or> sd_changed d \<noteq> [] \<or> sd_reordered d \<noteq> [] then Breaking
      else if sd_potentially_breaking d \<noteq> [] then PotentiallyBreaking
      else if sd_added d \<noteq> [] then Additive
      else Additive)"

definition section_has_breaking :: "section_diff \<Rightarrow> bool" where
  "section_has_breaking d \<longleftrightarrow> sd_removed d \<noteq> [] \<or> sd_changed d \<noteq> [] \<or> sd_reordered d \<noteq> []"

section \<open>Comparing two signature maps\<close>

definition is_param_reorder :: "string list \<Rightarrow> string list \<Rightarrow> bool" where
  "is_param_reorder old new =
     (if length old \<noteq> length new \<or> old = new then False else sort old = sort new)"

definition diff_step ::
  "(string, string) btree_map \<Rightarrow> (string, string) btree_map \<Rightarrow>
   (string, string list) btree_map \<Rightarrow> (string, string list) btree_map \<Rightarrow>
   string \<Rightarrow> section_diff \<Rightarrow> section_diff" where
  "diff_step old new old_params new_params name d =
     (case (bt_get old name, bt_get new name) of
        (Some before, Some after) \<Rightarrow>
          if before \<noteq> after then
            (if (case (bt_get old_params name, bt_get new_params name) of
                   (Some op, Some np) \<Rightarrow> is_param_reorder op np
                 | _ \<Rightarrow> False)
             then d\<lparr>sd_reordered := sd_reordered d
                 @ [\<lparr>ri_name = name, ri_from = before, ri_to = after, ri_severity = Breaking\<rparr>]\<rparr>
             else d\<lparr>sd_changed := sd_changed d
                 @ [\<lparr>ci_name = name, ci_from = before, ci_to = after, ci_severity = Breaking\<rparr>]\<rparr>)
          else d
      | (Some before, None) \<Rightarrow> d\<lparr>sd_removed := sd_removed d @ [before]\<rparr>
      | (None, Some after) \<Rightarrow> d\<lparr>sd_added := sd_added d @ [after]\<rparr>
      | (None, None) \<Rightarrow> d)"

definition diff_names :: "(string \<times> 'a) list \<Rightarrow> (string \<times> 'b) list \<Rightarrow> string list" where
  "diff_names old new = sort (remdups (bt_keys old @ bt_keys new))"

definition diff_section_with_params ::
  "(string, string) btree_map \<Rightarrow> (string, string) btree_map \<Rightarrow>
   (string, string list) btree_map \<Rightarrow> (string, string list) btree_map \<Rightarrow> section_diff" where
  "diff_section_with_params old new old_params new_params =
     fold (diff_step old new old_params new_params) (diff_names old new) section_default"

definition diff_section ::
  "(string, string) btree_map \<Rightarrow> (string, string) btree_map \<Rightarrow> section_diff" where
  "diff_section old new = diff_section_with_params old new [] []"

section \<open>Signatures\<close>

definition function_inputs :: "function_spec \<Rightarrow> string list" where
  "function_inputs f = map (\<lambda>i. field_name i @ '': '' @ field_type_name i) (fn_inputs f)"

definition function_sig :: "function_spec \<Rightarrow> string" where
  "function_sig f =
     (let output = (case fn_outputs f of [] \<Rightarrow> ''void'' | [one] \<Rightarrow> one
                    | many \<Rightarrow> ''('' @ join '', '' many @ '')'')
      in fn_name f @ ''('' @ join '', '' (function_inputs f) @ '') -> '' @ output)"

definition function_sigs ::
  "contract_spec \<Rightarrow> (string, string) btree_map \<times> (string, string list) btree_map" where
  "function_sigs s =
     fold (\<lambda>f (sigs, params). (bt_insert (fn_name f) (function_sig f) sigs,
                               bt_insert (fn_name f) (function_inputs f) params))
       (cs_functions s) ([], [])"

definition event_sig :: "event_spec \<Rightarrow> string" where
  "event_sig e =
     ev_name e @ ''('' @ join '', '' (map (\<lambda>p. ep_name p @ '': '' @ ep_type_name p @ '' @'' @ ep_location p) (ev_params e))
     @ '') ['' @ ev_data_format e @ '']''"

definition event_sigs :: "contract_spec \<Rightarrow> (string, string) btree_map" where
  "event_sigs s = bt_of_list (map (\<lambda>e. (ev_name e, event_sig e)) (cs_events s))"

definition struct_sig :: "udt_struct \<Rightarrow> string" where
  "struct_sig x = ''struct '' @ st_name x @ '' { ''
     @ join '', '' (map (\<lambda>f. field_name f @ '': '' @ field_type_name f) (st_fields x)) @ '' }''"

definition union_sig :: "udt_union \<Rightarrow> string" where
  "union_sig u = ''union '' @ un_name u @ '' { ''
     @ join '', '' (map (\<lambda>c. if uc_type_names c = [] then uc_name c
         else uc_name c @ ''('' @ join '', '' (uc_type_names c) @ '')'') (un_cases u)) @ '' }''"

definition enum_sig :: "udt_enum \<Rightarrow> string" where
  "enum_sig e = ''enum '' @ en_name e @ '' { ''
     @ join '', '' (map (\<lambda>c. fst c @ '' = '' @ show_nat (unat (snd c))) (en_cases e)) @ '' }''"

definition error_enum_sig :: "udt_error_enum \<Rightarrow> string" where
  "error_enum_sig e = ''error enum '' @ ee_name e @ '' { ''
     @ join '', '' (map (\<lambda>c. ec_name c @ '' = '' @ show_nat (unat (ec_code c))) (ee_cases e)) @ '' }''"

definition type_entries :: "contract_spec \<Rightarrow> (string \<times> string) list" where
  "type_entries s =
     map (\<lambda>x. (st_name x, struct_sig x)) (cs_structs s)
     @ map (\<lambda>u. (un_name u, union_sig u)) (cs_unions s)
     @ map (\<lambda>e. (en_name e, enum_sig e)) (cs_enums s)
     @ map (\<lambda>e. (ee_name e, error_enum_sig e)) (cs_errors s)"

definition type_sigs :: "contract_spec \<Rightarrow> (string, string) btree_map" where
  "type_sigs s = fold (\<lambda>p. bt_insert (fst p) (snd p)) (type_entries s) []"

section \<open>Re-classifying additive changes\<close>

definition ascii_lower :: "char \<Rightarrow> char" where
  "ascii_lower c = (if CHR ''A'' \<le> c \<and> c \<le> CHR ''Z'' then char_of (of_char c + 32 :: nat) else c)"

definition eq_ignore_ascii_case :: "string \<Rightarrow> string \<Rightarrow> bool" where
  "eq_ignore_ascii_case a b \<longleftrightarrow> map ascii_lower a = map ascii_lower b"

definition find_event :: "contract_spec \<Rightarrow> string \<Rightarrow> event_spec option" where
  "find_event s n = find (\<lambda>e. ev_name e = n) (cs_events s)"

definition same_param :: "event_param \<Rightarrow> event_param \<Rightarrow> bool" where
  "same_param a b \<longleftrightarrow> ep_name a = ep_name b \<and> ep_type_name a = ep_type_name b \<and> ep_location a = ep_location b"

definition map_event_added_fields :: "event_spec \<Rightarrow> event_spec \<Rightarrow> string option" where
  "map_event_added_fields old new =
     (if ev_data_format old \<noteq> ev_data_format new then None
      else if \<not> eq_ignore_ascii_case (ev_data_format new) ''map'' then None
      else if length (ev_params new) \<le> length (ev_params old) then None
      else if \<not> list_all (\<lambda>p. same_param (fst p) (snd p)) (zip (ev_params old) (ev_params new)) then None
      else
        (let added = map (\<lambda>p. if \<not> eq_ignore_ascii_case (ep_location p) ''data'' then [] else ep_name p)
               (drop (length (ev_params old)) (ev_params new))
         in if list_ex (\<lambda>n. n = []) added then None
            else Some (''added field(s) '' @ join '', '' added)))"

text \<open>
  The loop of \<^verbatim>\<open>diff_events\<close> and \<^verbatim>\<open>diff_types\<close> over \<^verbatim>\<open>diff.changed.drain(..)\<close>, with the test as an argument.
\<close>

definition reclassify_step ::
  "(string \<Rightarrow> string option) \<Rightarrow> changed_item \<Rightarrow> changed_item list \<times> potentially_breaking_item list \<Rightarrow>
   changed_item list \<times> potentially_breaking_item list" where
  "reclassify_step describe item acc =
     (case describe (ci_name item) of
        Some description \<Rightarrow>
          (fst acc, snd acc @ [\<lparr>pb_name = ci_name item, pb_from = ci_from item, pb_to = ci_to item,
             pb_severity = PotentiallyBreaking, pb_description = description\<rparr>])
      | None \<Rightarrow> (fst acc @ [item], snd acc))"

definition reclassify :: "(string \<Rightarrow> string option) \<Rightarrow> section_diff \<Rightarrow> section_diff" where
  "reclassify describe d =
     (let acc = fold (reclassify_step describe) (sd_changed d) ([], sd_potentially_breaking d)
      in d\<lparr>sd_changed := fst acc, sd_potentially_breaking := snd acc\<rparr>)"

definition describe_event :: "contract_spec \<Rightarrow> contract_spec \<Rightarrow> string \<Rightarrow> string option" where
  "describe_event old new name =
     (case (find_event old name, find_event new name) of
        (Some before, Some after) \<Rightarrow> map_event_added_fields before after
      | _ \<Rightarrow> None)"

definition diff_events :: "contract_spec \<Rightarrow> contract_spec \<Rightarrow> section_diff" where
  "diff_events old new = reclassify (describe_event old new) (diff_section (event_sigs old) (event_sigs new))"

definition added_cases_only :: "contract_spec \<Rightarrow> contract_spec \<Rightarrow> string \<Rightarrow> string option" where
  "added_cases_only old new name =
     (case (find (\<lambda>u. un_name u = name) (cs_unions old), find (\<lambda>u. un_name u = name) (cs_unions new)) of
        (Some u, Some u') \<Rightarrow>
          if length (un_cases u') > length (un_cases u)
             \<and> list_all (\<lambda>p. uc_name (fst p) = uc_name (snd p) \<and> uc_type_names (fst p) = uc_type_names (snd p))
                 (zip (un_cases u) (un_cases u'))
          then Some (''added case(s) '' @ join '', '' (map uc_name (drop (length (un_cases u)) (un_cases u'))))
          else None
      | _ \<Rightarrow>
          (case (find (\<lambda>e. en_name e = name) (cs_enums old), find (\<lambda>e. en_name e = name) (cs_enums new)) of
             (Some e, Some e') \<Rightarrow>
               if length (en_cases e') > length (en_cases e)
                  \<and> list_all (\<lambda>p. fst p = snd p) (zip (en_cases e) (en_cases e'))
               then Some (''added case(s) '' @ join '', '' (map fst (drop (length (en_cases e)) (en_cases e'))))
               else None
           | _ \<Rightarrow> None))"

definition diff_types :: "contract_spec \<Rightarrow> contract_spec \<Rightarrow> section_diff" where
  "diff_types old new = reclassify (added_cases_only old new) (diff_section (type_sigs old) (type_sigs new))"

section \<open>The report\<close>

definition section_summary :: "string \<Rightarrow> section_diff \<Rightarrow> string list" where
  "section_summary kind d =
     map (\<lambda>sig. ''removed '' @ kind @ '' '' @ sig) (sd_removed d)
     @ map (\<lambda>i. ''changed '' @ kind @ '' '' @ ci_name i @ '': '' @ ci_from i @ '' became '' @ ci_to i) (sd_changed d)
     @ map (\<lambda>i. ''reordered '' @ kind @ '' '' @ ri_name i @ '': '' @ ri_from i @ '' became '' @ ri_to i) (sd_reordered d)
     @ map (\<lambda>i. ''potentially breaking '' @ kind @ '' '' @ pb_name i @ '': '' @ pb_description i)
         (sd_potentially_breaking d)
     @ map (\<lambda>sig. ''added '' @ kind @ '' '' @ sig) (sd_added d)"

definition build_summary :: "spec_diff \<Rightarrow> string list" where
  "build_summary d = concat (map (\<lambda>(kind, sec). section_summary kind sec)
     [(''function'', df_functions d), (''event'', df_events d), (''type'', df_types d)])"

definition between :: "contract_spec \<Rightarrow> contract_spec \<Rightarrow> spec_diff" where
  "between old new =
     (let (old_fsigs, old_fparams) = function_sigs old;
          (new_fsigs, new_fparams) = function_sigs new;
          functions' = diff_section_with_params old_fsigs new_fsigs old_fparams new_fparams;
          events' = diff_events old new;
          types' = diff_types old new;
          diff = \<lparr>df_breaking = section_has_breaking functions' \<or> section_has_breaking events'
                      \<or> section_has_breaking types',
                  df_max_severity = foldl max (section_max_severity functions')
                      [section_max_severity events', section_max_severity types'],
                  df_summary = [], df_functions = functions', df_events = events', df_types = types'\<rparr>
      in diff\<lparr>df_summary := build_summary diff\<rparr>)"

definition diff_is_empty :: "spec_diff \<Rightarrow> bool" where
  "diff_is_empty d \<longleftrightarrow> section_is_empty (df_functions d) \<and> section_is_empty (df_events d)
     \<and> section_is_empty (df_types d)"

section \<open>What a section report says\<close>

text \<open>The specification of a section: the kind of change of every name, and the lists it determines.\<close>

datatype change_kind = Same | Added | Removed | Changed | Reordered

definition change_of ::
  "(string \<rightharpoonup> string) \<Rightarrow> (string \<rightharpoonup> string) \<Rightarrow> (string \<rightharpoonup> string list) \<Rightarrow> (string \<rightharpoonup> string list) \<Rightarrow>
   string \<Rightarrow> change_kind" where
  "change_of old new op np k =
     (case (old k, new k) of
        (None, None) \<Rightarrow> Same
      | (None, Some _) \<Rightarrow> Added
      | (Some _, None) \<Rightarrow> Removed
      | (Some a, Some b) \<Rightarrow>
          if a = b then Same
          else if \<exists>x y. op k = Some x \<and> np k = Some y \<and> mset x = mset y \<and> x \<noteq> y then Reordered
          else Changed)"

lemma is_param_reorder_iff: "is_param_reorder x y \<longleftrightarrow> mset x = mset y \<and> x \<noteq> y"
  by (auto simp: is_param_reorder_def dest: mset_eq_length intro: properties_for_sort)
    (metis mset_sort)

definition sections_of ::
  "(string \<rightharpoonup> string) \<Rightarrow> (string \<rightharpoonup> string) \<Rightarrow> (string \<Rightarrow> change_kind) \<Rightarrow> string list \<Rightarrow> section_diff" where
  "sections_of old new cls names =
     \<lparr>sd_added = map (\<lambda>k. the (new k)) (filter (\<lambda>k. cls k = Added) names),
      sd_removed = map (\<lambda>k. the (old k)) (filter (\<lambda>k. cls k = Removed) names),
      sd_changed = map (\<lambda>k. \<lparr>ci_name = k, ci_from = the (old k), ci_to = the (new k), ci_severity = Breaking\<rparr>)
        (filter (\<lambda>k. cls k = Changed) names),
      sd_reordered = map (\<lambda>k. \<lparr>ri_name = k, ri_from = the (old k), ri_to = the (new k), ri_severity = Breaking\<rparr>)
        (filter (\<lambda>k. cls k = Reordered) names),
      sd_potentially_breaking = []\<rparr>"

lemma fold_diff_step:
  "fold (diff_step old new op np) names section_default
   = sections_of (bt_get old) (bt_get new) (change_of (bt_get old) (bt_get new) (bt_get op) (bt_get np)) names"
proof (induction names rule: rev_induct)
  case Nil
  show ?case by (simp add: section_default_def sections_of_def)
next
  case (snoc k names)
  let ?cls = "change_of (bt_get old) (bt_get new) (bt_get op) (bt_get np)"
  have "diff_step old new op np k (sections_of (bt_get old) (bt_get new) ?cls names)
      = sections_of (bt_get old) (bt_get new) ?cls (names @ [k])"
  proof (cases "bt_get old k"; cases "bt_get new k")
    fix a b assume ab: "bt_get old k = Some a" "bt_get new k = Some b"
    show ?thesis
      by (cases "bt_get op k"; cases "bt_get np k")
        (auto simp: ab diff_step_def sections_of_def change_of_def is_param_reorder_iff)
  qed (simp_all add: diff_step_def sections_of_def change_of_def)
  with snoc show ?case by simp
qed

lemma diff_section_with_params_eq:
  "diff_section_with_params old new op np
   = sections_of (bt_get old) (bt_get new) (change_of (bt_get old) (bt_get new) (bt_get op) (bt_get np))
       (diff_names old new)"
  unfolding diff_section_with_params_def by (rule fold_diff_step)

lemma set_diff_names: "set (diff_names old new) = dom (bt_get old) \<union> dom (bt_get new)"
  by (simp add: diff_names_def bt_keys_def dom_map_of_conv_image_fst)

lemma change_of_Same: "change_of old new op np k = Same \<longleftrightarrow> old k = new k"
  by (auto simp: change_of_def split: option.splits)

lemma change_of_keeps:
  "change_of old new op np k = Same \<or> change_of old new op np k = Added \<longleftrightarrow> (k \<in> dom old \<longrightarrow> old k = new k)"
  by (auto simp: change_of_def split: option.splits)

lemma filter_change_empty:
  assumes "c \<noteq> Same"
  shows "filter (\<lambda>k. change_of (bt_get old) (bt_get new) op np k = c) (diff_names old new) = []
    \<longleftrightarrow> (\<forall>k. change_of (bt_get old) (bt_get new) op np k \<noteq> c)"
proof -
  have "k \<in> set (diff_names old new)" if "change_of (bt_get old) (bt_get new) op np k = c" for k
    using that assms unfolding set_diff_names by (auto simp: change_of_def split: option.splits)
  then show ?thesis by (auto simp: filter_empty_conv)
qed

lemma change_kind_cases:
  "c \<noteq> Added \<and> c \<noteq> Removed \<and> c \<noteq> Changed \<and> c \<noteq> Reordered \<longleftrightarrow> c = Same"
  "c \<noteq> Removed \<and> c \<noteq> Changed \<and> c \<noteq> Reordered \<longleftrightarrow> c = Same \<or> c = Added"
  by (cases c; simp)+

lemma section_is_empty_iff:
  "section_is_empty (diff_section_with_params old new op np) \<longleftrightarrow> bt_get old = bt_get new"
proof -
  let ?cls = "change_of (bt_get old) (bt_get new) (bt_get op) (bt_get np)"
  have "section_is_empty (diff_section_with_params old new op np)
      \<longleftrightarrow> (\<forall>k. ?cls k \<noteq> Added \<and> ?cls k \<noteq> Removed \<and> ?cls k \<noteq> Changed \<and> ?cls k \<noteq> Reordered)"
    unfolding section_is_empty_def diff_section_with_params_eq sections_of_def
    by (simp add: filter_change_empty all_conj_distrib)
  also have "\<dots> \<longleftrightarrow> bt_get old = bt_get new"
    unfolding change_kind_cases(1) change_of_Same by (simp add: fun_eq_iff)
  finally show ?thesis .
qed

lemma section_has_breaking_iff:
  "section_has_breaking (diff_section_with_params old new op np) \<longleftrightarrow> \<not> bt_get old \<subseteq>\<^sub>m bt_get new"
proof -
  let ?cls = "change_of (bt_get old) (bt_get new) (bt_get op) (bt_get np)"
  have "\<not> section_has_breaking (diff_section_with_params old new op np)
      \<longleftrightarrow> (\<forall>k. ?cls k \<noteq> Removed \<and> ?cls k \<noteq> Changed \<and> ?cls k \<noteq> Reordered)"
    unfolding section_has_breaking_def diff_section_with_params_eq sections_of_def
    by (simp add: filter_change_empty all_conj_distrib)
  also have "\<dots> \<longleftrightarrow> bt_get old \<subseteq>\<^sub>m bt_get new"
    unfolding change_kind_cases(2) change_of_keeps by (auto simp: map_le_def)
  finally show ?thesis by blast
qed

lemma reclassify_fields:
  "sd_changed (reclassify f d) = filter (\<lambda>i. f (ci_name i) = None) (sd_changed d)"
  "sd_potentially_breaking (reclassify f d) = sd_potentially_breaking d
     @ map (\<lambda>i. \<lparr>pb_name = ci_name i, pb_from = ci_from i, pb_to = ci_to i,
          pb_severity = PotentiallyBreaking, pb_description = the (f (ci_name i))\<rparr>)
         (filter (\<lambda>i. f (ci_name i) \<noteq> None) (sd_changed d))"
  "sd_added (reclassify f d) = sd_added d" "sd_removed (reclassify f d) = sd_removed d"
  "sd_reordered (reclassify f d) = sd_reordered d"
proof -
  have "fold (reclassify_step f) items acc = (fst acc @ filter (\<lambda>i. f (ci_name i) = None) items,
      snd acc @ map (\<lambda>i. \<lparr>pb_name = ci_name i, pb_from = ci_from i, pb_to = ci_to i,
          pb_severity = PotentiallyBreaking, pb_description = the (f (ci_name i))\<rparr>)
         (filter (\<lambda>i. f (ci_name i) \<noteq> None) items))" for items acc
    by (induction items arbitrary: acc) (auto simp: reclassify_step_def split: option.splits)
  then show "sd_changed (reclassify f d) = filter (\<lambda>i. f (ci_name i) = None) (sd_changed d)"
    "sd_potentially_breaking (reclassify f d) = sd_potentially_breaking d
     @ map (\<lambda>i. \<lparr>pb_name = ci_name i, pb_from = ci_from i, pb_to = ci_to i,
          pb_severity = PotentiallyBreaking, pb_description = the (f (ci_name i))\<rparr>)
         (filter (\<lambda>i. f (ci_name i) \<noteq> None) (sd_changed d))"
    "sd_added (reclassify f d) = sd_added d" "sd_removed (reclassify f d) = sd_removed d"
    "sd_reordered (reclassify f d) = sd_reordered d"
    by (simp_all add: reclassify_def Let_def)
qed

lemma reclassify_is_empty: "section_is_empty (reclassify f d) \<longleftrightarrow> section_is_empty d"
  unfolding section_is_empty_def reclassify_fields by (auto simp: filter_empty_conv)

text \<open>Additions aside, a section without breaking changes keeps every signature or extends it as described.\<close>

definition keeps_or_extends ::
  "(string \<Rightarrow> string option) \<Rightarrow> (string \<rightharpoonup> string) \<Rightarrow> (string \<rightharpoonup> string) \<Rightarrow> bool" where
  "keeps_or_extends describe old new \<longleftrightarrow>
     (\<forall>k \<in> dom old. new k = old k \<or> new k \<noteq> None \<and> describe k \<noteq> None)"

lemma change_of_no_params:
  "change_of old new Map.empty Map.empty k \<noteq> Reordered"
  by (auto simp: change_of_def split: option.splits)

lemma change_of_breaks:
  "change_of old new Map.empty Map.empty k = Removed \<or> change_of old new Map.empty Map.empty k = Changed \<and> f k = None
   \<longleftrightarrow> k \<in> dom old \<and> \<not> (new k = old k \<or> new k \<noteq> None \<and> f k \<noteq> None)"
  by (cases "old k"; cases "new k") (auto simp: change_of_def)

lemma reclassified_has_breaking_iff:
  "section_has_breaking (reclassify f (diff_section old new)) \<longleftrightarrow> \<not> keeps_or_extends f (bt_get old) (bt_get new)"
proof -
  let ?cls = "change_of (bt_get old) (bt_get new) Map.empty Map.empty"
  have names: "k \<in> set (diff_names old new)" if "?cls k = Removed \<or> ?cls k = Changed" for k
    using that unfolding set_diff_names by (auto simp: change_of_def split: option.splits)
  have "section_has_breaking (reclassify f (diff_section old new))
      \<longleftrightarrow> (\<exists>k. ?cls k = Removed \<or> ?cls k = Changed \<and> f k = None)"
    unfolding section_has_breaking_def reclassify_fields diff_section_def diff_section_with_params_eq sections_of_def
    using names by (simp add: filter_empty_conv change_of_no_params map_of.simps(1) [abs_def]) blast
  also have "\<dots> \<longleftrightarrow> \<not> keeps_or_extends f (bt_get old) (bt_get new)"
    unfolding keeps_or_extends_def change_of_breaks by blast
  finally show ?thesis .
qed

lemma function_sigs_eq:
  "function_sigs s = (bt_of_list (map (\<lambda>f. (fn_name f, function_sig f)) (cs_functions s)),
                      bt_of_list (map (\<lambda>f. (fn_name f, function_inputs f)) (cs_functions s)))"
proof -
  have "fold (\<lambda>f (sigs, params). (bt_insert (fn_name f) (function_sig f) sigs,
           bt_insert (fn_name f) (function_inputs f) params)) fs (a, b)
      = (fold (\<lambda>x. bt_insert (fst x) (snd x)) (map (\<lambda>f. (fn_name f, function_sig f)) fs) a,
         fold (\<lambda>x. bt_insert (fst x) (snd x)) (map (\<lambda>f. (fn_name f, function_inputs f)) fs) b)" for fs a b
    by (induction fs arbitrary: a b) auto
  then show ?thesis by (simp add: function_sigs_def bt_of_list_def)
qed

lemma sigs_inv: "bt_inv (fst (function_sigs s))" "bt_inv (event_sigs s)" "bt_inv (type_sigs s)"
  by (simp_all add: function_sigs_eq event_sigs_def type_sigs_def bt_of_list_inv
      bt_of_list_def [symmetric] del: map_map)

lemma between_fields:
  "df_functions (between a b) = diff_section_with_params (fst (function_sigs a)) (fst (function_sigs b))
     (snd (function_sigs a)) (snd (function_sigs b))"
  "df_events (between a b) = diff_events a b" "df_types (between a b) = diff_types a b"
  "df_summary (between a b) = section_summary ''function'' (df_functions (between a b))
     @ section_summary ''event'' (diff_events a b) @ section_summary ''type'' (diff_types a b)"
  "df_breaking (between a b) \<longleftrightarrow> section_has_breaking (df_functions (between a b))
     \<or> section_has_breaking (diff_events a b) \<or> section_has_breaking (diff_types a b)"
  "df_max_severity (between a b) = max (max (section_max_severity (df_functions (between a b)))
     (section_max_severity (diff_events a b))) (section_max_severity (diff_types a b))"
  by (simp_all add: between_def Let_def build_summary_def split: prod.splits)

lemma max_Breaking: "max a b = Breaking \<longleftrightarrow> a = Breaking \<or> b = Breaking"
  by (cases a; cases b) (simp_all add: max_def less_eq_severity_def)

lemma section_max_Breaking: "section_max_severity d = Breaking \<longleftrightarrow> section_has_breaking d"
  by (auto simp: section_max_severity_def section_has_breaking_def)

lemma section_summary_length:
  "length (section_summary k d) = length (sd_removed d) + length (sd_changed d) + length (sd_reordered d)
     + length (sd_potentially_breaking d) + length (sd_added d)"
  by (simp add: section_summary_def)

lemma section_summary_Nil: "section_summary k d = [] \<longleftrightarrow> section_is_empty d"
  by (auto simp: section_summary_def section_is_empty_def)

section \<open>Properties\<close>

text \<open>
  A diff is empty exactly when the two interfaces render to the same signatures, item by
  item, and exactly then its summary is empty. In particular an upgrade that keeps the
  interface has an empty, non-breaking, additive diff.
\<close>

theorem diff_empty_iff:
  "(diff_is_empty (between a b) \<longleftrightarrow> fst (function_sigs a) = fst (function_sigs b)
      \<and> event_sigs a = event_sigs b \<and> type_sigs a = type_sigs b)
   \<and> (df_summary (between a b) = [] \<longleftrightarrow> diff_is_empty (between a b))
   \<and> diff_is_empty (between a a) \<and> \<not> df_breaking (between a a) \<and> df_max_severity (between a a) = Additive"
proof -
  have eq: "m = m'" if "bt_inv m" "bt_inv m'" "bt_get m = bt_get m'" for m m' :: "(string \<times> string) list"
    using that by (rule bt_eqI)
  have iff: "diff_is_empty (between a b) \<longleftrightarrow> fst (function_sigs a) = fst (function_sigs b)
      \<and> event_sigs a = event_sigs b \<and> type_sigs a = type_sigs b" for a b
    unfolding diff_is_empty_def between_fields diff_events_def diff_types_def diff_section_def
      reclassify_is_empty section_is_empty_iff
    using eq [OF sigs_inv(1) sigs_inv(1)] eq [OF sigs_inv(2) sigs_inv(2)] eq [OF sigs_inv(3) sigs_inv(3)]
    by metis
  moreover have "df_summary (between a b) = [] \<longleftrightarrow> diff_is_empty (between a b)"
    by (simp add: between_fields(2-4) section_summary_Nil diff_is_empty_def)
  moreover have self: "section_is_empty (df_functions (between a a))" "section_is_empty (df_events (between a a))"
    "section_is_empty (df_types (between a a))"
    using iff [of a a] unfolding diff_is_empty_def by auto
  moreover have "\<not> df_breaking (between a a)" "df_max_severity (between a a) = Additive"
    using self by (simp_all add: between_fields(2,3,5,6) section_is_empty_def section_has_breaking_def
        section_max_severity_def)
  ultimately show ?thesis by blast
qed


lemma diff_names_props: "sorted (diff_names old new)" "distinct (diff_names old new)"
  by (simp_all add: diff_names_def)

lemma diff_names_commute: "diff_names old new = diff_names new old"
  by (rule sorted_distinct_set_unique) (auto simp: diff_names_props set_diff_names)

text \<open>
  The function section says of every function name exactly what happened to it: the names
  of both interfaces are visited once, in ascending order, and each is reported as added,
  removed, changed, reordered (the parameter lists are different permutations of each other)
  or, if its signature is the same, not at all.
\<close>

theorem function_section_exact:
  "df_functions (between a b) =
     sections_of (bt_get (fst (function_sigs a))) (bt_get (fst (function_sigs b)))
       (change_of (bt_get (fst (function_sigs a))) (bt_get (fst (function_sigs b)))
          (bt_get (snd (function_sigs a))) (bt_get (snd (function_sigs b))))
       (sorted_list_of_set (fn_name ` set (cs_functions a) \<union> fn_name ` set (cs_functions b)))"
proof -
  have dom: "dom (bt_get (fst (function_sigs s))) = fn_name ` set (cs_functions s)" for s
    by (simp add: function_sigs_eq bt_get_of_list dom_map_of_conv_image_fst image_image)
  let ?ns = "diff_names (fst (function_sigs a)) (fst (function_sigs b))"
  have "set ?ns = fn_name ` set (cs_functions a) \<union> fn_name ` set (cs_functions b)"
    by (simp add: set_diff_names dom)
  then have "?ns = sorted_list_of_set (fn_name ` set (cs_functions a) \<union> fn_name ` set (cs_functions b))"
    by (intro sorted_distinct_set_unique diff_names_props) auto
  then show ?thesis
    by (simp add: between_fields(1) diff_section_with_params_eq)
qed

lemma change_of_swap:
  "change_of old new op np k = Added \<longleftrightarrow> change_of new old np op k = Removed"
  "change_of old new op np k = Reordered \<longleftrightarrow> change_of new old np op k = Reordered"
  by (cases "old k"; cases "new k"; auto simp: change_of_def split: if_splits)+

lemma section_swap:
  "sd_added (diff_section_with_params o' n' op np) = sd_removed (diff_section_with_params n' o' np op)"
  "map ri_name (sd_reordered (diff_section_with_params o' n' op np))
   = map ri_name (sd_reordered (diff_section_with_params n' o' np op))"
  unfolding diff_section_with_params_eq sections_of_def
  by (simp_all add: change_of_swap diff_names_commute [of n' o'] comp_def)

text \<open>
  Reading a diff backwards: what a downgrade adds is what the upgrade removed, in every
  section, and a reordered function is reordered in both directions.
\<close>

theorem diff_swap:
  "sd_added (df_functions (between a b)) = sd_removed (df_functions (between b a))
   \<and> sd_added (df_events (between a b)) = sd_removed (df_events (between b a))
   \<and> sd_added (df_types (between a b)) = sd_removed (df_types (between b a))
   \<and> map ri_name (sd_reordered (df_functions (between a b))) = map ri_name (sd_reordered (df_functions (between b a)))"
  by (simp add: between_fields(1-3) diff_events_def diff_types_def reclassify_fields diff_section_def section_swap)

lemma list_all_zip_take:
  "length xs \<le> length ys \<Longrightarrow> list_all (\<lambda>p. f (fst p) = f (snd p)) (zip xs ys) \<Longrightarrow> map f (take (length xs) ys) = map f xs"
proof (induction xs arbitrary: ys)
  case (Cons x xs)
  then show ?case by (cases ys) auto
qed simp

text \<open>
  What counts as a mere extension of a type: the first union of that name (or, without one
  on both sides, the first enum) kept all its cases, in order and unchanged, and gained at least
  one at the end; the description lists exactly the new case names.
\<close>

theorem added_cases_are_appended:
  assumes "added_cases_only a b n = Some d"
  shows "(\<exists>u u'. find (\<lambda>u. un_name u = n) (cs_unions a) = Some u \<and> find (\<lambda>u. un_name u = n) (cs_unions b) = Some u'
       \<and> map (\<lambda>c. (uc_name c, uc_type_names c)) (take (length (un_cases u)) (un_cases u'))
           = map (\<lambda>c. (uc_name c, uc_type_names c)) (un_cases u)
       \<and> drop (length (un_cases u)) (un_cases u') \<noteq> []
       \<and> d = ''added case(s) '' @ join '', '' (map uc_name (drop (length (un_cases u)) (un_cases u'))))
     \<or> (\<exists>e e' extra. find (\<lambda>e. en_name e = n) (cs_enums a) = Some e \<and> find (\<lambda>e. en_name e = n) (cs_enums b) = Some e'
       \<and> en_cases e' = en_cases e @ extra \<and> extra \<noteq> []
       \<and> d = ''added case(s) '' @ join '', '' (map fst extra))"
proof -
  let ?ua = "find (\<lambda>u. un_name u = n) (cs_unions a)" and ?ub = "find (\<lambda>u. un_name u = n) (cs_unions b)"
  let ?ea = "find (\<lambda>e. en_name e = n) (cs_enums a)" and ?eb = "find (\<lambda>e. en_name e = n) (cs_enums b)"
  show ?thesis
  proof (cases "?ua \<noteq> None \<and> ?ub \<noteq> None")
    case True
    then obtain u u' where u: "?ua = Some u" "?ub = Some u'" by auto
    then have g: "length (un_cases u) < length (un_cases u')"
      "list_all (\<lambda>p. (\<lambda>c. (uc_name c, uc_type_names c)) (fst p) = (\<lambda>c. (uc_name c, uc_type_names c)) (snd p))
         (zip (un_cases u) (un_cases u'))"
      "d = ''added case(s) '' @ join '', '' (map uc_name (drop (length (un_cases u)) (un_cases u')))"
      using assms by (simp_all add: added_cases_only_def split: if_splits)
    with u list_all_zip_take [OF _ g(2)] show ?thesis by auto
  next
    case False
    then obtain e e' where e: "?ea = Some e" "?eb = Some e'"
      using assms by (auto simp: added_cases_only_def split: option.splits)
    with False have g: "length (en_cases e) < length (en_cases e')"
      "list_all (\<lambda>p. fst p = snd p) (zip (en_cases e) (en_cases e'))"
      "d = ''added case(s) '' @ join '', '' (map fst (drop (length (en_cases e)) (en_cases e')))"
      using assms by (auto simp: added_cases_only_def split: option.splits if_splits)
    then have "take (length (en_cases e)) (en_cases e') = en_cases e"
      using list_all_zip_take [of "en_cases e" "en_cases e'" id] by simp
    then have "en_cases e' = en_cases e @ drop (length (en_cases e)) (en_cases e')"
      by (metis append_take_drop_id)
    with e g show ?thesis by auto
  qed
qed

theorem added_cases_are_appended_witness:
  "\<exists>extra. added_cases_only (spec_default\<lparr>cs_enums := [\<lparr>en_name = ''X'', en_cases = [(''A'', 0)]\<rparr>]\<rparr>)
       (spec_default\<lparr>cs_enums := [\<lparr>en_name = ''X'', en_cases = [(''A'', 0), (''B'', 1)]\<rparr>]\<rparr>) ''X''
       = Some (''added case(s) '' @ join '', '' (map fst extra))
     \<and> [(''A'', 0), (''B'', 1 :: u32)] = [(''A'', 0)] @ extra"
proof -
  let ?a = "spec_default\<lparr>cs_enums := [\<lparr>en_name = ''X'', en_cases = [(''A'', 0)]\<rparr>]\<rparr>"
  let ?b = "spec_default\<lparr>cs_enums := [\<lparr>en_name = ''X'', en_cases = [(''A'', 0), (''B'', 1)]\<rparr>]\<rparr>"
  have *: "added_cases_only ?a ?b ''X'' = Some ''added case(s) B''"
    by (simp add: added_cases_only_def spec_default_def)
  show ?thesis
    using added_cases_are_appended [OF *] * by (simp add: spec_default_def)
qed

text \<open>
  Prefix topics are not part of an event's signature: an upgrade that changes nothing but
  the prefix topics of events, under which every event is found on chain, has an empty diff.
\<close>

theorem diff_ignores_prefix_topics:
  "diff_is_empty (between s (s\<lparr>cs_events := map (\<lambda>e. e\<lparr>ev_prefix_topics := g e\<rparr>) (cs_events s)\<rparr>))"
proof -
  let ?s = "s\<lparr>cs_events := map (\<lambda>e. e\<lparr>ev_prefix_topics := g e\<rparr>) (cs_events s)\<rparr>"
  have "function_sigs ?s = function_sigs s" "type_sigs ?s = type_sigs s" "event_sigs ?s = event_sigs s"
    by (simp_all add: function_sigs_def type_sigs_def type_entries_def event_sigs_def event_sig_def comp_def)
  then show ?thesis
    by (simp add: diff_is_empty_def between_fields(1-3) diff_events_def diff_types_def diff_section_def
        reclassify_is_empty section_is_empty_iff)
qed

end
