(* ===== verification/Read_Encode.thy ===== *)
theory Read_Encode
  imports Contract_Spec Scval
begin

text \<open>
  The argument encoder of \<^verbatim>\<open>crates/lumenqraph-core/src/read.rs\<close>: a JSON argument and its declared
  type give an \<^verbatim>\<open>ScVal\<close>, user-defined types resolved through the parsed interface.

  Third-party code is the record \<open>codecs\<close>: strkey parsing and printing, hex decoding, the length
  limits of the bounded XDR containers, the total order of \<^verbatim>\<open>ScVal\<close> that \<^verbatim>\<open>sort_by\<close> uses, and the text
  renderings (\<open>lossy\<close> and the \<^verbatim>\<open>{:?}\<close> form of a string, which depends on Unicode tables).
  An out-of-range index in a lookup panics; \<open>call_fault\<close> keeps panics apart from the errors the
  functions return.
\<close>

section \<open>The environment\<close>

datatype strkey = MuxedAccountEd25519 "u8 list" | OtherStrkey

record codecs =
  address_from_str :: "string \<Rightarrow> sc_address option"
  strkey_from_string :: "string \<Rightarrow> strkey option"
  pubkey_to_string :: "u8 list \<Rightarrow> string"
  hex_decode :: "string \<Rightarrow> u8 list option"
  symbol_max :: nat
  string_max :: nat
  vec_max :: nat
  scval_le :: "scval \<Rightarrow> scval \<Rightarrow> bool"
  lossy :: "u8 list \<Rightarrow> string"
  dbg :: "string \<Rightarrow> string"

datatype call_fault = Encode encode_error | Panic index_panic

abbreviation bad :: "string \<Rightarrow> string \<Rightarrow> call_fault" where
  "bad name msg \<equiv> Encode (BadArgument name msg)"

definition lift :: "encode_error + 'a \<Rightarrow> call_fault + 'a" where
  "lift r = map_sum Encode id r"

lemma lift_Inr [simp]: "lift r = Inr x \<longleftrightarrow> r = Inr x"
  by (cases r) (auto simp: lift_def)

section \<open>Small helpers\<close>

definition str_of :: "json \<Rightarrow> string \<Rightarrow> encode_error + string" where
  "str_of v name = ok_or (BadArgument name ''expected a string'') (as_str v)"

text \<open>\<^verbatim>\<open>int::<T>\<close>, with the parser of the target type as an argument.\<close>

definition int_arg :: "(string \<Rightarrow> 'a option) \<Rightarrow> json \<Rightarrow> string \<Rightarrow> encode_error + 'a" where
  "int_arg parse v name =
     bind_res
       (case v of
          Str s \<Rightarrow> Inr s
        | _ \<Rightarrow> ok_or (BadArgument name ''expected an integer (as a number or decimal string)'') (int_text v))
       (\<lambda>s. ok_or (BadArgument name ''integer out of range for this type'') (parse s))"

definition strip_0x :: "string \<Rightarrow> string" where
  "strip_0x s = (if starts_with ''0x'' s then drop 2 s else s)"

definition decode_hex :: "codecs \<Rightarrow> json \<Rightarrow> string \<Rightarrow> encode_error + u8 list" where
  "decode_hex env v name =
     bind_res (str_of v name) (\<lambda>s.
       ok_or (BadArgument name ''expected a hex string'') (hex_decode env (strip_0x s)))"

definition vecm :: "codecs \<Rightarrow> 'a list \<Rightarrow> string \<Rightarrow> encode_error + 'a list" where
  "vecm env items name =
     (if length items \<le> vec_max env then Inr items else Inl (BadArgument name ''too many elements''))"

definition symbol_of :: "codecs \<Rightarrow> encode_error \<Rightarrow> string \<Rightarrow> encode_error + scval" where
  "symbol_of env err s = (if length s \<le> symbol_max env then Inr (ScSymbol (bytes_of_text s)) else Inl err)"

text \<open>\<^verbatim>\<open>sort_by(|a, b| a.key.cmp(&b.key))\<close>: the stable sort.\<close>

fun insert_entry ::
  "(scval \<Rightarrow> scval \<Rightarrow> bool) \<Rightarrow> scval \<times> scval \<Rightarrow> (scval \<times> scval) list \<Rightarrow> (scval \<times> scval) list" where
  "insert_entry le e [] = [e]"
| "insert_entry le e (x # xs) = (if le (fst e) (fst x) then e # x # xs else x # insert_entry le e xs)"

definition sort_entries ::
  "(scval \<Rightarrow> scval \<Rightarrow> bool) \<Rightarrow> (scval \<times> scval) list \<Rightarrow> (scval \<times> scval) list" where
  "sort_entries le es = foldr (insert_entry le) es []"

text \<open>The \<^verbatim>\<open>windows(2)\<close> loop.\<close>

fun has_adjacent_dup :: "(scval \<times> scval) list \<Rightarrow> bool" where
  "has_adjacent_dup (a # b # es) = (fst a = fst b \<or> has_adjacent_dup (b # es))"
| "has_adjacent_dup _ = False"

section \<open>Leaves\<close>

text \<open>The UTF-8 bytes of the ellipsis character in the messages.\<close>

definition ellipsis :: string where
  "ellipsis = map char_of [0xE2, 0x80, 0xA6 :: nat]"

definition enum_names :: "udt_enum \<Rightarrow> string" where
  "enum_names e = join '', '' (map fst (en_cases e))"

definition enum_to_scval :: "codecs \<Rightarrow> json \<Rightarrow> udt_enum \<Rightarrow> string \<Rightarrow> encode_error + scval" where
  "enum_to_scval env v e arg =
     (case as_str v of
        Some s \<Rightarrow>
          bind_res
            (ok_or (BadArgument arg (''unknown case '' @ dbg env s @ '' for enum '' @ dbg env (en_name e)
                @ ''; expected one of: '' @ enum_names e))
              (find (\<lambda>c. fst c = s) (en_cases e)))
            (\<lambda>c. Inr (ScU32 (snd c)))
      | None \<Rightarrow>
          (case as_u64 v of
             Some n \<Rightarrow>
               if unat n \<ge> 2 ^ 32 then
                 Inl (BadArgument arg (show_nat (unat n) @ '' is out of range for enum '' @ dbg env (en_name e)))
               else if \<not> list_ex (\<lambda>c. snd c = ucast n) (en_cases e) then
                 Inl (BadArgument arg (show_nat (unat n) @ '' is not a declared value of enum ''
                   @ dbg env (en_name e) @ ''; expected one of: '' @ enum_names e))
               else Inr (ScU32 (ucast n))
           | None \<Rightarrow>
               Inl (BadArgument arg (''expected a case name or value for enum '' @ dbg env (en_name e)
                 @ ''; expected one of: '' @ enum_names e))))"

definition muxed_address :: "codecs \<Rightarrow> string \<Rightarrow> string \<Rightarrow> encode_error + scval" where
  "muxed_address env s name =
     (if starts_with ''M'' s then
        (case strkey_from_string env s of
           None \<Rightarrow> Inl (BadArgument name (''invalid muxed address strkey (expected M'' @ ellipsis @ '')''))
         | Some (MuxedAccountEd25519 k) \<Rightarrow>
             bind_res
               (ok_or (BadArgument name (''could not re-encode muxed address as G'' @ ellipsis @ '' strkey''))
                 (address_from_str env (pubkey_to_string env k)))
               (\<lambda>a. Inr (ScAddress a))
         | Some OtherStrkey \<Rightarrow> Inl (BadArgument name (''expected an M'' @ ellipsis @ '' muxed account strkey'')))
      else
        bind_res
          (ok_or (BadArgument name (''invalid address strkey (expected G'' @ ellipsis @ '', M'' @ ellipsis
              @ '', or C'' @ ellipsis @ '')''))
            (address_from_str env s))
          (\<lambda>a. Inr (ScAddress a)))"

definition union_names :: "udt_union \<Rightarrow> string" where
  "union_names u = join '', '' (map uc_name (un_cases u))"

definition find_case :: "udt_union \<Rightarrow> string \<Rightarrow> union_case option" where
  "find_case u want = find (\<lambda>c. uc_name c = want) (un_cases u)"

definition is_tuple_struct :: "udt_struct \<Rightarrow> bool" where
  "is_tuple_struct s \<longleftrightarrow> st_fields s \<noteq> [] \<and> list_all (\<lambda>f. list_all is_ascii_digit (field_name f)) (st_fields s)"

definition vec_val :: "codecs \<Rightarrow> scval list \<Rightarrow> string \<Rightarrow> call_fault + scval" where
  "vec_val env items name = lift (bind_res (vecm env items name) (\<lambda>xs. Inr (ScVec (Some xs))))"

definition map_val :: "codecs \<Rightarrow> (scval \<times> scval) list \<Rightarrow> string \<Rightarrow> call_fault + scval" where
  "map_val env items name = lift (bind_res (vecm env items name) (\<lambda>xs. Inr (ScMap (Some xs))))"

text \<open>The values of a tuple case: an array, or a single value written unwrapped.\<close>

definition union_vals :: "json \<Rightarrow> json list" where
  "union_vals v = (case v of Array a \<Rightarrow> a | _ \<Rightarrow> [v])"

lemma union_vals_size: "x \<in> set (union_vals v) \<Longrightarrow> jsize x \<le> jsize v"
  by (auto simp: union_vals_def split: json.splits dest!: jsize_elem)

lemma single_entry_size: "x \<in> set (union_vals w) \<Longrightarrow> jsize x < jsize (Object [(k, w)])"
  using union_vals_size [of x w] by simp

lemma entry_sizes:
  "(k, x) \<in> set m \<Longrightarrow> jsize x < jsize (Object m) \<and> jsize (Str k) < jsize (Object m)"
  using jsize_entry jsize_key by blast

section \<open>Arguments\<close>

function (sequential) json_to_scval ::
    "codecs \<Rightarrow> contract_spec \<Rightarrow> string \<Rightarrow> json \<Rightarrow> type_def \<Rightarrow> call_fault + scval"
  and udt_to_scval ::
    "codecs \<Rightarrow> contract_spec \<Rightarrow> string \<Rightarrow> json \<Rightarrow> string \<Rightarrow> call_fault + scval"
  and struct_to_scval ::
    "codecs \<Rightarrow> contract_spec \<Rightarrow> string \<Rightarrow> json \<Rightarrow> udt_struct \<Rightarrow> call_fault + scval"
  and union_to_scval ::
    "codecs \<Rightarrow> contract_spec \<Rightarrow> string \<Rightarrow> json \<Rightarrow> udt_union \<Rightarrow> call_fault + scval" where
  "json_to_scval env spec name v TBool =
     lift (bind_res (ok_or (BadArgument name ''expected a boolean'') (as_bool v)) (\<lambda>b. Inr (ScBool b)))"
| "json_to_scval env spec name v TU32 =
     lift (bind_res (int_arg (parse_unsigned 32) v name) (\<lambda>n. Inr (ScU32 (of_nat n))))"
| "json_to_scval env spec name v TI32 =
     lift (bind_res (int_arg (parse_signed 32) v name) (\<lambda>n. Inr (ScI32 (of_int n))))"
| "json_to_scval env spec name v TU64 =
     lift (bind_res (int_arg (parse_unsigned 64) v name) (\<lambda>n. Inr (ScU64 (of_nat n))))"
| "json_to_scval env spec name v TI64 =
     lift (bind_res (int_arg (parse_signed 64) v name) (\<lambda>n. Inr (ScI64 (of_int n))))"
| "json_to_scval env spec name v TTimepoint =
     lift (bind_res (int_arg (parse_unsigned 64) v name) (\<lambda>n. Inr (ScTimepoint (of_nat n))))"
| "json_to_scval env spec name v TDuration =
     lift (bind_res (int_arg (parse_unsigned 64) v name) (\<lambda>n. Inr (ScDuration (of_nat n))))"
| "json_to_scval env spec name v TU128 =
     lift (bind_res (int_arg (parse_unsigned 128) v name) (\<lambda>n. Inr (ScU128 (u128_parts (of_nat n)))))"
| "json_to_scval env spec name v TI128 =
     lift (bind_res (int_arg (parse_signed 128) v name) (\<lambda>n. Inr (ScI128 (i128_parts (of_int n)))))"
| "json_to_scval env spec name v TSymbol =
     lift (bind_res (str_of v name) (\<lambda>s.
       symbol_of env (BadArgument name ''symbol too long or invalid'') s))"
| "json_to_scval env spec name v TString =
     lift (bind_res (str_of v name) (\<lambda>s.
       if length s \<le> string_max env then Inr (ScString (bytes_of_text s))
       else Inl (BadArgument name ''string too long'')))"
| "json_to_scval env spec name v TAddress =
     lift (bind_res (str_of v name) (\<lambda>s.
       bind_res (ok_or (BadArgument name ''invalid address strkey'') (address_from_str env s))
         (\<lambda>a. Inr (ScAddress a))))"
| "json_to_scval env spec name v TBytes =
     lift (bind_res (decode_hex env v name) (\<lambda>b.
       if length b \<le> string_max env then Inr (ScBytes b) else Inl (BadArgument name ''byte string too long'')))"
| "json_to_scval env spec name v (TBytesN n) =
     lift (bind_res (decode_hex env v name) (\<lambda>b.
       if length b \<noteq> unat n
       then Inl (BadArgument name (''expected '' @ show_nat (unat n) @ '' bytes''))
       else if length b \<le> string_max env then Inr (ScBytes b)
       else Inl (BadArgument name ''byte string too long'')))"
| "json_to_scval env spec name v (TOption t) =
     (if is_null v then Inr ScVoid else json_to_scval env spec name v t)"
| "json_to_scval env spec name v (TVec t) =
     (case v of
        Array a \<Rightarrow> bind_res (map_res (\<lambda>el. json_to_scval env spec name el t) a) (\<lambda>xs. vec_val env xs name)
      | _ \<Rightarrow> Inl (bad name ''expected an array''))"
| "json_to_scval env spec name v (TTuple ts) =
     (case v of
        Array a \<Rightarrow>
          if length a \<noteq> length ts
          then Inl (bad name (''expected '' @ show_nat (length ts) @ '' tuple elements''))
          else bind_res (map_res (\<lambda>p. json_to_scval env spec name (fst p) (snd p)) (zip a ts))
                 (\<lambda>xs. vec_val env xs name)
      | _ \<Rightarrow> Inl (bad name ''expected a tuple array''))"
| "json_to_scval env spec name v (TMap kt vt) =
     (case v of
        Object obj \<Rightarrow>
          bind_res
            (map_res (\<lambda>p. bind_res (json_to_scval env spec name (Str (fst p)) kt) (\<lambda>k.
                          bind_res (json_to_scval env spec name (snd p) vt) (\<lambda>x. Inr (k, x)))) obj)
            (\<lambda>items.
               let items = sort_entries (scval_le env) items
               in if has_adjacent_dup items
                  then Inl (bad name ''map contains duplicate keys after conversion'')
                  else map_val env items name)
      | _ \<Rightarrow> Inl (bad name ''expected an object''))"
| "json_to_scval env spec name v TU256 =
     lift (bind_res (parse_u256 v name) (\<lambda>l. Inr (ScU256 (u256_parts l))))"
| "json_to_scval env spec name v TI256 =
     lift (bind_res (parse_i256 v name) (\<lambda>l. Inr (ScI256 (i256_parts l))))"
| "json_to_scval env spec name v TVoid =
     (if is_null v then Inr ScVoid else Inl (bad name ''expected null''))"
| "json_to_scval env spec name v (TUdt u) = udt_to_scval env spec name v (lossy env u)"
| "json_to_scval env spec name v TMuxedAddress =
     lift (bind_res (str_of v name) (\<lambda>s. muxed_address env s name))"
| "json_to_scval env spec name v ty = Inl (Encode (UnsupportedType name (type_name (lossy env) ty)))"

| "udt_to_scval env spec name v udt_name =
     (case udt_def_of spec udt_name of
        Inl p \<Rightarrow> Inl (Panic p)
      | Inr (Some (StructDef s)) \<Rightarrow> struct_to_scval env spec name v s
      | Inr (Some (EnumDef e)) \<Rightarrow> lift (enum_to_scval env v e name)
      | Inr (Some (UnionDef u)) \<Rightarrow> union_to_scval env spec name v u
      | Inr None \<Rightarrow> Inl (bad name (''contract spec references unknown type '' @ dbg env udt_name)))"

| "struct_to_scval env spec name v s =
     (if is_tuple_struct s then
        (case v of
           Array a \<Rightarrow>
             if length a \<noteq> length (st_fields s)
             then Inl (bad name (''expected '' @ show_nat (length (st_fields s)) @ '' elements for tuple struct ''
                    @ dbg env (st_name s) @ '', got '' @ show_nat (length a)))
             else bind_res (map_res (\<lambda>p. json_to_scval env spec name (fst p) (field_ty (snd p)))
                        (zip a (st_fields s))) (\<lambda>xs. vec_val env xs name)
         | _ \<Rightarrow> Inl (bad name (''expected an array for tuple struct '' @ dbg env (st_name s))))
      else
        (case v of
           Object obj \<Rightarrow>
             bind_res
               (map_res (\<lambda>f.
                  case bt_get obj (field_name f) of
                    None \<Rightarrow> Inl (bad name (''missing field '' @ dbg env (field_name f) @ '' of struct ''
                                @ dbg env (st_name s)))
                  | Some fv \<Rightarrow>
                      bind_res (lift (symbol_of env (BadArgument name (''field name ''
                          @ dbg env (field_name f) @ '' is not a valid symbol'')) (field_name f))) (\<lambda>k.
                      bind_res (json_to_scval env spec name fv (field_ty f)) (\<lambda>x. Inr (k, x))))
                  (st_fields s))
               (\<lambda>items. map_val env (sort_entries (scval_le env) items) name)
         | _ \<Rightarrow> Inl (bad name (''expected an object for struct '' @ dbg env (st_name s)))))"

| "union_to_scval env spec name v u =
     (case v of
        Str s \<Rightarrow>
          (case find_case u s of
             Some c \<Rightarrow>
               if uc_tys c = [] then
                 bind_res (lift (symbol_of env (BadArgument name (''case name '' @ dbg env s
                     @ '' is not a valid symbol'')) s)) (\<lambda>sym. vec_val env [sym] name)
               else Inl (bad name (''case '' @ dbg env s @ '' of union '' @ dbg env (un_name u) @ '' carries ''
                      @ show_nat (length (uc_tys c)) @ '' value(s); pass {'' @ [CHR 0x22] @ s @ [CHR 0x22]
                      @ '': [..]}''))
           | None \<Rightarrow> Inl (bad name (''unknown case '' @ dbg env s @ '' for union '' @ dbg env (un_name u)
                      @ ''; expected one of: '' @ union_names u)))
      | Object obj \<Rightarrow>
          (case obj of
             [(key, val)] \<Rightarrow>
               (case find_case u key of
                  Some c \<Rightarrow>
                    if uc_tys c = [] then
                      (if \<not> is_null val
                       then Inl (bad name (''case '' @ dbg env key @ '' of union '' @ dbg env (un_name u)
                              @ '' carries no value''))
                       else bind_res (lift (symbol_of env (BadArgument name (''case name '' @ dbg env key
                              @ '' is not a valid symbol'')) key)) (\<lambda>sym. vec_val env [sym] name))
                    else if as_array val = None \<and> length (uc_tys c) \<noteq> 1
                      then Inl (bad name (''expected an array of '' @ show_nat (length (uc_tys c))
                             @ '' values for case '' @ dbg env key))
                    else if length (union_vals val) \<noteq> length (uc_tys c)
                      then Inl (bad name (''case '' @ dbg env key @ '' of union '' @ dbg env (un_name u)
                             @ '' expects '' @ show_nat (length (uc_tys c)) @ '' value(s), got ''
                             @ show_nat (length (union_vals val))))
                    else
                      bind_res (lift (symbol_of env (BadArgument name (''case name '' @ dbg env key
                          @ '' is not a valid symbol'')) key)) (\<lambda>sym.
                      bind_res (map_res (\<lambda>p. json_to_scval env spec name (fst p) (snd p))
                          (zip (union_vals val) (uc_tys c))) (\<lambda>xs. vec_val env (sym # xs) name))
                | None \<Rightarrow> Inl (bad name (''unknown case '' @ dbg env key @ '' for union '' @ dbg env (un_name u)
                           @ ''; expected one of: '' @ union_names u)))
           | _ \<Rightarrow> Inl (bad name (''expected exactly one case for union '' @ dbg env (un_name u) @ '', got ''
                      @ show_nat (length obj) @ '' keys'')))
      | _ \<Rightarrow> Inl (bad name (''expected a case name or {case: value} for union '' @ dbg env (un_name u)
                @ ''; expected one of: '' @ union_names u)))"
  by pat_completeness auto
termination
  by (relation "measures [\<lambda>x. case x of
        Inl (Inl (_, _, _, v, _)) \<Rightarrow> jsize v | Inl (Inr (_, _, _, v, _)) \<Rightarrow> jsize v
      | Inr (Inl (_, _, _, v, _)) \<Rightarrow> jsize v | Inr (Inr (_, _, _, v, _)) \<Rightarrow> jsize v,
    \<lambda>x. case x of
        Inl (Inl (_, _, _, _, ty)) \<Rightarrow> size ty + 2 | Inl (Inr _) \<Rightarrow> 1 | Inr _ \<Rightarrow> 0]")
    (auto dest!: set_zip_leftD jsize_elem entry_sizes map_of_SomeD single_entry_size simp del: jsize.simps)

section \<open>Typed values\<close>

text \<open>
  What a declared type says about an \<^verbatim>\<open>ScVal\<close>: the specification the encoder is checked against.
  Containers respect the XDR limits, maps are strictly sorted by key, a struct value has
  exactly one entry per declared field, in key order.
\<close>

definition strict :: "('a \<Rightarrow> 'a \<Rightarrow> bool) \<Rightarrow> 'a \<Rightarrow> 'a \<Rightarrow> bool" where
  "strict le a b \<longleftrightarrow> le a b \<and> a \<noteq> b"

definition field_key :: "field \<Rightarrow> scval" where
  "field_key f = ScSymbol (bytes_of_text (field_name f))"

function (sequential) has_type :: "codecs \<Rightarrow> contract_spec \<Rightarrow> type_def \<Rightarrow> scval \<Rightarrow> bool"
  and has_def :: "codecs \<Rightarrow> contract_spec \<Rightarrow> udt_def \<Rightarrow> scval \<Rightarrow> bool" where
  "has_type env spec TBool sv = (case sv of ScBool b \<Rightarrow> True | _ \<Rightarrow> False)"
| "has_type env spec TU32 sv = (case sv of ScU32 n \<Rightarrow> True | _ \<Rightarrow> False)"
| "has_type env spec TI32 sv = (case sv of ScI32 n \<Rightarrow> True | _ \<Rightarrow> False)"
| "has_type env spec TU64 sv = (case sv of ScU64 n \<Rightarrow> True | _ \<Rightarrow> False)"
| "has_type env spec TI64 sv = (case sv of ScI64 n \<Rightarrow> True | _ \<Rightarrow> False)"
| "has_type env spec TTimepoint sv = (case sv of ScTimepoint n \<Rightarrow> True | _ \<Rightarrow> False)"
| "has_type env spec TDuration sv = (case sv of ScDuration n \<Rightarrow> True | _ \<Rightarrow> False)"
| "has_type env spec TU128 sv = (case sv of ScU128 n \<Rightarrow> True | _ \<Rightarrow> False)"
| "has_type env spec TI128 sv = (case sv of ScI128 n \<Rightarrow> True | _ \<Rightarrow> False)"
| "has_type env spec TU256 sv = (case sv of ScU256 n \<Rightarrow> True | _ \<Rightarrow> False)"
| "has_type env spec TI256 sv = (case sv of ScI256 n \<Rightarrow> True | _ \<Rightarrow> False)"
| "has_type env spec TSymbol sv = (case sv of ScSymbol b \<Rightarrow> length b \<le> symbol_max env | _ \<Rightarrow> False)"
| "has_type env spec TString sv = (case sv of ScString b \<Rightarrow> length b \<le> string_max env | _ \<Rightarrow> False)"
| "has_type env spec TBytes sv = (case sv of ScBytes b \<Rightarrow> length b \<le> string_max env | _ \<Rightarrow> False)"
| "has_type env spec (TBytesN n) sv =
     (case sv of ScBytes b \<Rightarrow> length b = unat n \<and> length b \<le> string_max env | _ \<Rightarrow> False)"
| "has_type env spec TAddress sv = (case sv of ScAddress a \<Rightarrow> True | _ \<Rightarrow> False)"
| "has_type env spec TMuxedAddress sv = (case sv of ScAddress a \<Rightarrow> True | _ \<Rightarrow> False)"
| "has_type env spec TVoid sv = (sv = ScVoid)"
| "has_type env spec (TOption t) sv = (sv = ScVoid \<or> has_type env spec t sv)"
| "has_type env spec (TVec t) sv =
     (case sv of
        ScVec (Some xs) \<Rightarrow> length xs \<le> vec_max env \<and> list_all (has_type env spec t) xs
      | _ \<Rightarrow> False)"
| "has_type env spec (TTuple ts) sv =
     (case sv of
        ScVec (Some xs) \<Rightarrow> length xs \<le> vec_max env \<and> length xs = length ts
          \<and> list_all (\<lambda>p. has_type env spec (snd p) (fst p)) (zip xs ts)
      | _ \<Rightarrow> False)"
| "has_type env spec (TMap kt vt) sv =
     (case sv of
        ScMap (Some m) \<Rightarrow> length m \<le> vec_max env \<and> sorted_wrt (strict (scval_le env)) (map fst m)
          \<and> list_all (\<lambda>e. has_type env spec kt (fst e) \<and> has_type env spec vt (snd e)) m
      | _ \<Rightarrow> False)"
| "has_type env spec (TUdt u) sv =
     (case udt_def_of spec (lossy env u) of Inr (Some d) \<Rightarrow> has_def env spec d sv | _ \<Rightarrow> False)"
| "has_type env spec ty sv = False"
| "has_def env spec (EnumDef e) sv = (case sv of ScU32 n \<Rightarrow> list_ex (\<lambda>c. snd c = n) (en_cases e) | _ \<Rightarrow> False)"
| "has_def env spec (UnionDef u) sv =
     (case sv of
        ScVec (Some (ScSymbol b # xs)) \<Rightarrow>
          length b \<le> symbol_max env \<and> Suc (length xs) \<le> vec_max env
          \<and> (case find_case u (text_of_bytes b) of
                None \<Rightarrow> False
              | Some c \<Rightarrow> length xs = length (uc_tys c)
                  \<and> list_all (\<lambda>p. has_type env spec (snd p) (fst p)) (zip xs (uc_tys c)))
      | _ \<Rightarrow> False)"
| "has_def env spec (StructDef s) sv =
     (case sv of
        ScVec (Some xs) \<Rightarrow>
          is_tuple_struct s \<and> length xs \<le> vec_max env \<and> length xs = length (st_fields s)
          \<and> list_all (\<lambda>p. has_type env spec (field_ty (snd p)) (fst p)) (zip xs (st_fields s))
      | ScMap (Some m) \<Rightarrow>
          \<not> is_tuple_struct s \<and> length m \<le> vec_max env \<and> sorted_wrt (scval_le env) (map fst m)
          \<and> mset (map fst m) = mset (map field_key (st_fields s))
          \<and> list_all (\<lambda>e. list_ex (\<lambda>f. field_key f = fst e \<and> has_type env spec (field_ty f) (snd e)) (st_fields s)) m
      | _ \<Rightarrow> False)"
  by pat_completeness auto
termination
proof (relation "measures [\<lambda>x. case x of Inl (_, _, _, sv) \<Rightarrow> size sv | Inr (_, _, _, sv) \<Rightarrow> size sv,
    \<lambda>x. case x of Inl (_, _, ty, _) \<Rightarrow> Suc (size ty) | Inr _ \<Rightarrow> 0]", goal_cases)
qed (auto dest!: set_zip_leftD intro: scval_sub_size less_SucI [OF scval_sub_size(1)])

section \<open>Sorting by key\<close>

definition total_order :: "('a \<Rightarrow> 'a \<Rightarrow> bool) \<Rightarrow> bool" where
  "total_order le \<longleftrightarrow> (\<forall>a b c. le a b \<longrightarrow> le b c \<longrightarrow> le a c) \<and> (\<forall>a b. le a b \<or> le b a)
     \<and> (\<forall>a b. le a b \<longrightarrow> le b a \<longrightarrow> a = b)"

lemma total_orderD:
  assumes "total_order le"
  shows "le a b \<Longrightarrow> le b c \<Longrightarrow> le a c" "\<not> le a b \<Longrightarrow> le b a" "le a b \<Longrightarrow> le b a \<Longrightarrow> a = b"
  using assms unfolding total_order_def by blast+

lemma mset_insert_entry: "mset (insert_entry le e es) = add_mset e (mset es)"
  by (induction es) auto

lemma mset_sort_entries: "mset (sort_entries le es) = mset es"
  by (induction es) (simp_all add: sort_entries_def mset_insert_entry)

lemma set_sort_entries: "set (sort_entries le es) = set es"
  by (metis mset_sort_entries set_mset_mset)

lemma length_sort_entries [simp]: "length (sort_entries le es) = length es"
  by (metis mset_sort_entries size_mset)

lemma set_insert_entry: "set (insert_entry le e es) = insert e (set es)"
  by (induction es) auto

lemma sorted_insert_entry:
  assumes "total_order le" "sorted_wrt le (map fst es)"
  shows "sorted_wrt le (map fst (insert_entry le e es))"
  using assms(2)
proof (induction es)
  case (Cons x es)
  show ?case
  proof (cases "le (fst e) (fst x)")
    case True
    with Cons.prems show ?thesis
      using total_orderD(1) [OF assms(1)] by auto
  next
    case False
    with Cons show ?thesis
      using total_orderD(2) [OF assms(1)] by (auto simp: set_insert_entry)
  qed
qed simp

lemma sorted_sort_entries: "total_order le \<Longrightarrow> sorted_wrt le (map fst (sort_entries le es))"
  by (induction es) (simp_all add: sort_entries_def sorted_insert_entry)

lemma no_dup_strict:
  assumes "total_order le"
  shows "sorted_wrt le (map fst es) \<Longrightarrow> \<not> has_adjacent_dup es \<Longrightarrow> sorted_wrt (strict le) (map fst es)"
proof (induction es rule: has_adjacent_dup.induct)
  case (1 a b es)
  then have IH: "sorted_wrt (strict le) (map fst (b # es))" and ab: "le (fst a) (fst b)" "fst a \<noteq> fst b"
    by auto
  have "strict le (fst a) k" if "k \<in> set (map fst (b # es))" for k
  proof (cases "k = fst b")
    case True
    with ab show ?thesis by (simp add: strict_def)
  next
    case False
    with that IH have bk: "strict le (fst b) k" by auto
    then have "le (fst a) k"
      using total_orderD(1) [OF assms ab(1)] by (simp add: strict_def)
    moreover have "fst a \<noteq> k"
      using bk ab total_orderD(3) [OF assms] by (auto simp: strict_def)
    ultimately show ?thesis by (simp add: strict_def)
  qed
  with IH show ?case by auto
qed auto

lemma strict_sorted_no_dup: "sorted_wrt (strict le) (map fst es) \<Longrightarrow> \<not> has_adjacent_dup es"
  by (induction es rule: has_adjacent_dup.induct) (auto simp: strict_def)

lemma sort_entries_sorted:
  "sorted_wrt le (map fst es) \<Longrightarrow> sort_entries le es = es"
proof (induction es)
  case (Cons e es)
  then have "sort_entries le (e # es) = insert_entry le e es"
    by (simp add: sort_entries_def)
  with Cons.prems show ?case by (cases es) auto
qed (simp add: sort_entries_def)

section \<open>The encoder respects the types\<close>

lemma vec_val_Inr [simp]: "vec_val env xs name = Inr sv \<longleftrightarrow> length xs \<le> vec_max env \<and> sv = ScVec (Some xs)"
  by (auto simp: vec_val_def vecm_def)

lemma map_val_Inr [simp]: "map_val env xs name = Inr sv \<longleftrightarrow> length xs \<le> vec_max env \<and> sv = ScMap (Some xs)"
  by (auto simp: map_val_def vecm_def)

lemma symbol_of_Inr [simp]:
  "symbol_of env err s = Inr sv \<longleftrightarrow> length s \<le> symbol_max env \<and> sv = ScSymbol (bytes_of_text s)"
  by (auto simp: symbol_of_def)

lemma muxed_address_Inr: "muxed_address env s name = Inr sv \<Longrightarrow> \<exists>a. sv = ScAddress a"
  by (auto simp: muxed_address_def split: if_splits option.splits strkey.splits)

lemma enum_to_scval_Inr:
  "enum_to_scval env v e name = Inr sv \<Longrightarrow> \<exists>n. sv = ScU32 n \<and> list_ex (\<lambda>c. snd c = n) (en_cases e)"
  by (force simp: enum_to_scval_def list_ex_iff split: option.splits if_splits dest!: find_SomeD)

lemma map_res_zip_all:
  assumes "map_res f xs = Inr ys" "\<And>x y. x \<in> set xs \<Longrightarrow> f x = Inr y \<Longrightarrow> P x y"
  shows "list_all2 P xs ys"
  using assms(1) assms(2) unfolding map_res_Inr_iff by (rule list.rel_mono_strong) auto

lemma list_all2_zip_all:
  "list_all2 (\<lambda>p y. P (snd p) y) (zip xs ts) ys \<Longrightarrow> length xs = length ts \<Longrightarrow>
   length ys = length ts \<and> list_all (\<lambda>p. P (snd p) (fst p)) (zip ys ts)"
  by (auto simp: list_all2_conv_all_nth list_all_length)

lemma union_to_scval_Inr:
  assumes "union_to_scval env spec name v u = Inr sv"
  obtains (void) key c where "find_case u key = Some c" "uc_tys c = []" "length key \<le> symbol_max env"
      "1 \<le> vec_max env" "sv = ScVec (Some [ScSymbol (bytes_of_text key)])"
    | (tuple) key val c xs where "v = Object [(key, val)]" "find_case u key = Some c" "uc_tys c \<noteq> []"
      "as_array val = None \<longrightarrow> length (uc_tys c) = 1" "length (union_vals val) = length (uc_tys c)"
      "map_res (\<lambda>p. json_to_scval env spec name (fst p) (snd p)) (zip (union_vals val) (uc_tys c)) = Inr xs"
      "length key \<le> symbol_max env" "Suc (length xs) \<le> vec_max env"
      "sv = ScVec (Some (ScSymbol (bytes_of_text key) # xs))"
proof (cases v)
  case (Str s)
  with assms void show ?thesis by (auto split: option.splits if_splits)
next
  case (Object obj)
  then obtain key val where obj: "obj = [(key, val)]"
    using assms by (auto split: list.splits)
  show ?thesis
  proof (cases "find_case u key")
    case None
    with assms Object obj show ?thesis by simp
  next
    case (Some c)
    show ?thesis
    proof (cases "uc_tys c = []")
      case True
      with assms Object obj Some void [OF Some True] show ?thesis by (auto split: if_splits)
    next
      case False
      have len: "as_array val = None \<longrightarrow> length (uc_tys c) = 1" "length (union_vals val) = length (uc_tys c)"
        using assms Object obj Some False by (auto split: if_splits)
      from this obtain xs where xs:
        "map_res (\<lambda>p. json_to_scval env spec name (fst p) (snd p)) (zip (union_vals val) (uc_tys c)) = Inr xs"
        "length key \<le> symbol_max env" "Suc (length xs) \<le> vec_max env"
        "sv = ScVec (Some (ScSymbol (bytes_of_text key) # xs))"
        using assms Object obj Some False by (auto split: if_splits)
      show ?thesis
        by (rule tuple [OF _ Some False len xs]) (simp add: Object obj)
    qed
  qed
qed (use assms in auto)

lemma struct_to_scval_Inr:
  assumes "struct_to_scval env spec name v s = Inr sv"
  obtains (tuple) a xs where "is_tuple_struct s" "v = Array a" "length a = length (st_fields s)"
      "map_res (\<lambda>p. json_to_scval env spec name (fst p) (field_ty (snd p))) (zip a (st_fields s)) = Inr xs"
      "length xs \<le> vec_max env" "sv = ScVec (Some xs)"
    | (fields) obj items where "\<not> is_tuple_struct s" "v = Object obj"
      "list_all2 (\<lambda>f e. \<exists>fv. bt_get obj (field_name f) = Some fv \<and> length (field_name f) \<le> symbol_max env
         \<and> fst e = field_key f \<and> json_to_scval env spec name fv (field_ty f) = Inr (snd e)) (st_fields s) items"
      "length items \<le> vec_max env" "sv = ScMap (Some (sort_entries (scval_le env) items))"
proof (cases "is_tuple_struct s")
  case True
  with assms tuple show ?thesis by (auto split: json.splits if_splits)
next
  case False
  obtain obj where v: "v = Object obj"
    using assms False by (cases v) simp_all
  obtain items where items: "map_res (\<lambda>f. case bt_get obj (field_name f) of
        None \<Rightarrow> Inl (bad name (''missing field '' @ dbg env (field_name f) @ '' of struct '' @ dbg env (st_name s)))
      | Some fv \<Rightarrow>
          bind_res (lift (symbol_of env (BadArgument name (''field name ''
              @ dbg env (field_name f) @ '' is not a valid symbol'')) (field_name f))) (\<lambda>k.
          bind_res (json_to_scval env spec name fv (field_ty f)) (\<lambda>x. Inr (k, x)))) (st_fields s) = Inr items"
      "length items \<le> vec_max env" "sv = ScMap (Some (sort_entries (scval_le env) items))"
    using assms unfolding v struct_to_scval.simps if_not_P [OF False] json.case bind_res_Inr_iff map_val_Inr
      length_sort_entries by blast
  from items(1) have "list_all2 (\<lambda>f e. \<exists>fv. bt_get obj (field_name f) = Some fv
      \<and> length (field_name f) \<le> symbol_max env \<and> fst e = field_key f
      \<and> json_to_scval env spec name fv (field_ty f) = Inr (snd e)) (st_fields s) items"
    by (rule map_res_zip_all) (auto simp: field_key_def split: option.splits)
  then show ?thesis using fields False v items(2,3) by blast
qed

lemma encoder_typed:
  "json_to_scval env spec name v ty = Inr sv \<Longrightarrow> total_order (scval_le env) \<Longrightarrow> has_type env spec ty sv"
  "udt_to_scval env spec name v n = Inr sv \<Longrightarrow> total_order (scval_le env) \<Longrightarrow>
     (case udt_def_of spec n of Inr (Some d) \<Rightarrow> has_def env spec d sv | _ \<Rightarrow> False)"
  "struct_to_scval env spec name v s = Inr sv \<Longrightarrow> total_order (scval_le env) \<Longrightarrow> has_def env spec (StructDef s) sv"
  "union_to_scval env spec name v u = Inr sv \<Longrightarrow> total_order (scval_le env) \<Longrightarrow> has_def env spec (UnionDef u) sv"
proof (induction env spec name v ty and env spec name v n and env spec name v s and env spec name v u
    arbitrary: sv and sv and sv and sv
    rule: json_to_scval_udt_to_scval_struct_to_scval_union_to_scval.induct)
  case (16 env spec name v t)
  then obtain a xs where v: "v = Array a" and xs: "map_res (\<lambda>el. json_to_scval env spec name el t) a = Inr xs"
    "length xs \<le> vec_max env" "sv = ScVec (Some xs)"
    by (auto split: json.splits)
  have "list_all2 (\<lambda>x y. has_type env spec t y) a xs"
    by (rule map_res_zip_all [OF xs(1)]) (use 16 v in auto)
  then have "list_all (has_type env spec t) xs"
    by (auto simp: list_all2_conv_all_nth list_all_length)
  with xs show ?case by simp
next
  case (17 env spec name v ts)
  then obtain a xs where v: "v = Array a" "length a = length ts"
    and xs: "map_res (\<lambda>p. json_to_scval env spec name (fst p) (snd p)) (zip a ts) = Inr xs"
    "length xs \<le> vec_max env" "sv = ScVec (Some xs)"
    by (auto split: json.splits if_splits)
  have "list_all2 (\<lambda>p y. has_type env spec (snd p) y) (zip a ts) xs"
    by (rule map_res_zip_all [OF xs(1)]) (use 17 v in auto)
  with xs v show ?case
    by (auto dest: list_all2_zip_all [where P = "has_type env spec"])
next
  case (18 env spec name v kt vt)
  then obtain obj items where v: "v = Object obj"
    and items: "map_res (\<lambda>p. bind_res (json_to_scval env spec name (Str (fst p)) kt) (\<lambda>k.
        bind_res (json_to_scval env spec name (snd p) vt) (\<lambda>x. Inr (k, x)))) obj = Inr items"
    "\<not> has_adjacent_dup (sort_entries (scval_le env) items)" "length items \<le> vec_max env"
    "sv = ScMap (Some (sort_entries (scval_le env) items))"
    by (auto simp: Let_def split: json.splits if_splits)
  have "list_all2 (\<lambda>p e. has_type env spec kt (fst e) \<and> has_type env spec vt (snd e)) obj items"
    by (rule map_res_zip_all [OF items(1)]) (use 18 v in auto)
  then have "\<forall>e \<in> set items. has_type env spec kt (fst e) \<and> has_type env spec vt (snd e)"
    unfolding list_all2_conv_all_nth by (metis in_set_conv_nth)
  with items no_dup_strict [OF "18.prems"(2) sorted_sort_entries [OF "18.prems"(2)] items(2)] show ?case
    by (simp add: list_all_iff set_sort_entries)
next
  case (22 env spec name v u)
  then show ?case by simp
next
  case (23 env spec name v)
  then show ?case by (auto dest!: muxed_address_Inr)
next
  case (25 env spec name v n)
  then show ?case
    by (auto split: sum.splits option.splits udt_def.splits dest!: enum_to_scval_Inr)
next
  case (26 env spec name v s)
  from "26.prems"(1) show ?case
  proof (cases rule: struct_to_scval_Inr)
    case (tuple a xs)
    have "list_all2 (\<lambda>p y. has_type env spec (field_ty (snd p)) y) (zip a (st_fields s)) xs"
      by (rule map_res_zip_all [OF tuple(4)]) (use 26 tuple in auto)
    with tuple show ?thesis
      by (auto dest: list_all2_zip_all [where P = "\<lambda>f. has_type env spec (field_ty f)"])
  next
    case (fields obj items)
    have all: "list_all2 (\<lambda>f e. field_key f = fst e \<and> has_type env spec (field_ty f) (snd e)) (st_fields s) items"
      using fields(3)
      by (rule list.rel_mono_strong) (use 26 fields in auto)
    then have "map fst items = map field_key (st_fields s)"
      by (auto simp: list_all2_conv_all_nth intro: nth_equalityI)
    moreover have "\<exists>f \<in> set (st_fields s). field_key f = fst e \<and> has_type env spec (field_ty f) (snd e)"
      if "e \<in> set items" for e
      using all that unfolding list_all2_conv_all_nth by (metis in_set_conv_nth nth_mem)
    moreover have "mset (map fst (sort_entries (scval_le env) items)) = mset (map fst items)"
      by (simp add: mset_sort_entries)
    ultimately show ?thesis
      using fields sorted_sort_entries [OF "26.prems"(2)]
      by (simp add: list_all_iff list_ex_iff set_sort_entries del: mset_map)
  qed
next
  case (27 env spec name v u)
  from "27.prems"(1) show ?case
  proof (cases rule: union_to_scval_Inr)
    case (tuple key val c xs)
    have "list_all2 (\<lambda>p y. has_type env spec (snd p) y) (zip (union_vals val) (uc_tys c)) xs"
      by (rule map_res_zip_all [OF tuple(6)]) (use 27 tuple in auto)
    with tuple show ?thesis
      by (auto dest: list_all2_zip_all [where P = "has_type env spec"])
  qed simp
qed (auto simp: str_of_def decode_hex_def split: if_splits)

end
