(* ===== verification/Edit_Distance.thy ===== *)
theory Edit_Distance
  imports Prelude
begin

text \<open>
  The spelling hints of \<^verbatim>\<open>crates/lumenqraph-core/src/read.rs\<close>: the dynamic-programming edit distance
  over a matrix of rows, filled cell by cell, and \<^verbatim>\<open>did_you_mean\<close>. The specification is the least
  number of single-character edits, as derivations of an inductive predicate.
\<close>

section \<open>Characters\<close>

text \<open>\<^verbatim>\<open>str::chars\<close>: a UTF-8 lead byte together with its continuation bytes.\<close>

definition is_continuation :: "char \<Rightarrow> bool" where
  "is_continuation c \<longleftrightarrow> 0x80 \<le> (of_char c :: nat) \<and> (of_char c :: nat) \<le> 0xBF"

function chars_of :: "string \<Rightarrow> string list" where
  "chars_of [] = []"
| "chars_of (c # cs) = (c # takeWhile is_continuation cs) # chars_of (dropWhile is_continuation cs)"
  by pat_completeness auto
termination
  by (relation "measure length") (auto simp: less_Suc_eq_le length_dropWhile_le)

section \<open>The matrix\<close>

definition cell :: "nat list list \<Rightarrow> nat \<Rightarrow> nat \<Rightarrow> nat" where
  "cell dp i j = dp ! i ! j"

definition set_cell :: "nat \<Rightarrow> nat \<Rightarrow> nat \<Rightarrow> nat list list \<Rightarrow> nat list list" where
  "set_cell i j v dp = dp[i := (dp ! i)[j := v]]"

definition dp_step :: "'a list \<Rightarrow> 'a list \<Rightarrow> nat \<Rightarrow> nat \<Rightarrow> nat list list \<Rightarrow> nat list list" where
  "dp_step a b i j dp =
     set_cell i j
       (if a ! (i - 1) = b ! (j - 1) then cell dp (i - 1) (j - 1)
        else 1 + min (min (cell dp (i - 1) j) (cell dp i (j - 1))) (cell dp (i - 1) (j - 1))) dp"

definition dp_init :: "nat \<Rightarrow> nat \<Rightarrow> nat list list" where
  "dp_init m n =
     fold (\<lambda>j. set_cell 0 j j) [0..<n + 1]
       (fold (\<lambda>i. set_cell i 0 i) [0..<m + 1] (replicate (m + 1) (replicate (n + 1) 0)))"

definition dp_fill :: "'a list \<Rightarrow> 'a list \<Rightarrow> nat list list" where
  "dp_fill a b =
     fold (\<lambda>i dp. fold (dp_step a b i) [1..<length b + 1] dp) [1..<length a + 1]
       (dp_init (length a) (length b))"

definition edit_distance :: "string \<Rightarrow> string \<Rightarrow> nat" where
  "edit_distance s t =
     (let a = chars_of s; b = chars_of t; m = length a; n = length b
      in if (if m \<le> n then n - m else m - n) > 3 then 4 else cell (dp_fill a b) m n)"

text \<open>\<^verbatim>\<open>min_by_key\<close>: the first element with the least key.\<close>

fun first_min :: "('a \<times> nat) list \<Rightarrow> ('a \<times> nat) option" where
  "first_min [] = None"
| "first_min (x # xs) = (case first_min xs of None \<Rightarrow> Some x | Some y \<Rightarrow> if snd x \<le> snd y then Some x else Some y)"

definition did_you_mean :: "(string \<Rightarrow> string) \<Rightarrow> string \<Rightarrow> string list \<Rightarrow> string" where
  "did_you_mean dbg name candidates =
     (case first_min (filter (\<lambda>cd. snd cd \<le> 2) (map (\<lambda>c. (c, edit_distance name c)) candidates)) of
        Some (candidate, _) \<Rightarrow> '' (did you mean '' @ dbg candidate @ ''?)''
      | None \<Rightarrow> [])"

section \<open>Edits\<close>

text \<open>\<open>edits k xs ys\<close>: \<open>ys\<close> arises from \<open>xs\<close> by \<open>k\<close> deletions, insertions and substitutions.\<close>

inductive edits :: "nat \<Rightarrow> 'a list \<Rightarrow> 'a list \<Rightarrow> bool" where
  nil: "edits 0 [] []"
| keep: "edits k xs ys \<Longrightarrow> edits k (x # xs) (x # ys)"
| del: "edits k xs ys \<Longrightarrow> edits (Suc k) (x # xs) ys"
| ins: "edits k xs ys \<Longrightarrow> edits (Suc k) xs (y # ys)"
| sub: "edits k xs ys \<Longrightarrow> edits (Suc k) (x # xs) (y # ys)"

fun lev :: "'a list \<Rightarrow> 'a list \<Rightarrow> nat" where
  "lev [] ys = length ys"
| "lev (x # xs) [] = Suc (length xs)"
| "lev (x # xs) (y # ys) =
     (if x = y then lev xs ys else 1 + min (min (lev xs (y # ys)) (lev (x # xs) ys)) (lev xs ys))"

lemma lev_Nil [simp]: "lev xs [] = length xs"
  by (cases xs) auto

lemma lev_sym: "lev xs ys = lev ys xs"
  by (induction xs ys rule: lev.induct) (auto simp: min.commute)

lemma lev_lipschitz:
  "lev xs ys \<le> Suc (lev xs (y # ys)) \<and> lev (x # xs) ys \<le> Suc (lev xs ys)"
proof (induction "length xs + length ys" arbitrary: xs ys x y rule: less_induct)
  case less
  have up: "lev (x # xs) ys \<le> Suc (lev xs ys)" for x
  proof (cases ys)
    case (Cons y' ys')
    with less [of xs ys' y' x] show ?thesis by auto
  qed simp
  moreover have "lev xs ys \<le> Suc (lev xs (y # ys))"
  proof (cases xs)
    case (Cons x' xs')
    with less [of xs' ys y x'] show ?thesis by (auto simp: min_def)
  qed simp
  ultimately show ?case by blast
qed

lemma lev_del: "lev (x # xs) ys \<le> Suc (lev xs ys)" and lev_ins: "lev xs (y # ys) \<le> Suc (lev xs ys)"
  using lev_lipschitz lev_sym by metis+

lemma lev_sub: "lev (x # xs) (y # ys) \<le> Suc (lev xs ys)"
  by auto

lemma lev_least: "edits k xs ys \<Longrightarrow> lev xs ys \<le> k"
  by (induction rule: edits.induct) (auto intro: order_trans [OF lev_del] order_trans [OF lev_ins] order_trans [OF lev_sub] simp del: lev.simps(3) simp: lev.simps(3) [of x _ x for x])

lemma edits_insert_all: "edits (length ys) [] ys"
  by (induction ys) (auto intro: edits.intros)

lemma edits_delete_all: "edits (length xs) xs []"
  by (induction xs) (auto intro: edits.intros)

lemma edits_lev: "edits (lev xs ys) xs ys"
proof (induction xs ys rule: lev.induct)
  case (3 x xs y ys)
  then show ?case
    by (auto simp: min_def intro: edits.intros)
qed (auto intro: edits_insert_all edits_delete_all [of "x # xs" for x xs, simplified])

text \<open>Edits read the same from the back.\<close>

lemma edits_snoc:
  "edits k xs ys \<Longrightarrow> edits k (xs @ [x]) (ys @ [x])"
  "edits k xs ys \<Longrightarrow> edits (Suc k) (xs @ [x]) ys"
  "edits k xs ys \<Longrightarrow> edits (Suc k) xs (ys @ [x])"
  "edits k xs ys \<Longrightarrow> edits (Suc k) (xs @ [x]) (ys @ [y])"
  by (induction rule: edits.induct; auto intro: edits.intros)+

lemma edits_rev: "edits k xs ys \<Longrightarrow> edits k (rev xs) (rev ys)"
  by (induction rule: edits.induct) (auto intro: edits.intros edits_snoc)

lemma lev_rev: "lev (rev xs) (rev ys) = lev xs ys"
  using lev_least [OF edits_rev [OF edits_lev [of xs ys]]]
    lev_least [OF edits_rev [OF edits_lev [of "rev xs" "rev ys"]]] by simp

section \<open>The matrix holds the distances of the prefixes\<close>

definition dist :: "'a list \<Rightarrow> 'a list \<Rightarrow> nat \<Rightarrow> nat \<Rightarrow> nat" where
  "dist a b i j = lev (rev (take i a)) (rev (take j b))"

lemma dist_0 [simp]: "j \<le> length b \<Longrightarrow> dist a b 0 j = j" "i \<le> length a \<Longrightarrow> dist a b i 0 = i"
  by (simp_all add: dist_def)

lemma dist_Suc:
  "i < length a \<Longrightarrow> j < length b \<Longrightarrow> dist a b (Suc i) (Suc j) =
     (if a ! i = b ! j then dist a b i j
      else 1 + min (min (dist a b i (Suc j)) (dist a b (Suc i) j)) (dist a b i j))"
  by (simp add: dist_def take_Suc_conv_app_nth)

definition shaped :: "nat \<Rightarrow> nat \<Rightarrow> nat list list \<Rightarrow> bool" where
  "shaped m n dp \<longleftrightarrow> length dp = m + 1 \<and> (\<forall>i \<le> m. length (dp ! i) = n + 1)"

lemma shaped_set: "shaped m n dp \<Longrightarrow> i \<le> m \<Longrightarrow> shaped m n (set_cell i j v dp)"
  by (auto simp: shaped_def set_cell_def nth_list_update)

lemma cell_set:
  "shaped m n dp \<Longrightarrow> i \<le> m \<Longrightarrow> j \<le> n \<Longrightarrow>
   cell (set_cell i j v dp) i' j' = (if i' = i \<and> j' = j then v else cell dp i' j')"
  by (auto simp: shaped_def set_cell_def cell_def nth_list_update)

lemma init_column:
  "k \<le> m + 1 \<Longrightarrow> shaped m n dp \<Longrightarrow>
   shaped m n (fold (\<lambda>i. set_cell i 0 i) [0..<k] dp)
   \<and> (\<forall>i < k. cell (fold (\<lambda>i. set_cell i 0 i) [0..<k] dp) i 0 = i)"
  by (induction k) (auto simp: shaped_set cell_set less_Suc_eq)

lemma init_row:
  "k \<le> n + 1 \<Longrightarrow> shaped m n dp \<Longrightarrow> (\<forall>i \<le> m. cell dp i 0 = i) \<Longrightarrow>
   shaped m n (fold (\<lambda>j. set_cell 0 j j) [0..<k] dp)
   \<and> (\<forall>i \<le> m. cell (fold (\<lambda>j. set_cell 0 j j) [0..<k] dp) i 0 = i)
   \<and> (\<forall>j < k. cell (fold (\<lambda>j. set_cell 0 j j) [0..<k] dp) 0 j = j)"
  by (induction k) (auto simp: shaped_set cell_set less_Suc_eq)

lemma dp_init_props:
  "shaped m n (dp_init m n)" "i \<le> m \<Longrightarrow> cell (dp_init m n) i 0 = i" "j \<le> n \<Longrightarrow> cell (dp_init m n) 0 j = j"
proof -
  have "shaped m n (replicate (m + 1) (replicate (n + 1) 0))"
    by (auto simp: shaped_def simp del: replicate.simps)
  from init_column [OF _ this, of "m + 1"] init_row [of "n + 1" n m]
  show "shaped m n (dp_init m n)" "i \<le> m \<Longrightarrow> cell (dp_init m n) i 0 = i" "j \<le> n \<Longrightarrow> cell (dp_init m n) 0 j = j"
    unfolding dp_init_def by (simp_all add: less_Suc_eq_le del: upt_Suc replicate.simps)
qed

definition filled :: "'a list \<Rightarrow> 'a list \<Rightarrow> nat \<Rightarrow> nat \<Rightarrow> nat list list \<Rightarrow> bool" where
  "filled a b i j dp \<longleftrightarrow> shaped (length a) (length b) dp
     \<and> (\<forall>i' \<le> length a. cell dp i' 0 = i')
     \<and> (\<forall>i' < i. \<forall>j' \<le> length b. cell dp i' j' = dist a b i' j')
     \<and> (\<forall>j' < j. cell dp i j' = dist a b i j')"

lemma dp_step_filled:
  assumes "filled a b (Suc i) (Suc j) dp" "i < length a" "j < length b"
  shows "filled a b (Suc i) (Suc (Suc j)) (dp_step a b (Suc i) (Suc j) dp)"
proof -
  have dp: "shaped (length a) (length b) dp" "cell dp i j = dist a b i j" "cell dp i (Suc j) = dist a b i (Suc j)"
    "cell dp (Suc i) j = dist a b (Suc i) j"
    using assms unfolding filled_def by auto
  have "dp_step a b (Suc i) (Suc j) dp = set_cell (Suc i) (Suc j) (dist a b (Suc i) (Suc j)) dp"
    unfolding dp_step_def dist_Suc [OF assms(2,3)] by (simp add: dp)
  then show ?thesis
    using assms by (auto simp: filled_def shaped_set cell_set less_Suc_eq)
qed

lemma dp_row_filled:
  assumes "filled a b (Suc i) 1 dp" "i < length a" "k \<le> length b"
  shows "filled a b (Suc i) (Suc k) (fold (dp_step a b (Suc i)) [1..<k + 1] dp)"
  using assms(3)
proof (induction k)
  case 0
  show ?case using assms(1) by simp
next
  case (Suc k)
  then show ?case using assms(2) dp_step_filled [of a b i k] by simp
qed

lemma filled_next_row:
  assumes "filled a b i (Suc (length b)) dp" "i < length a"
  shows "filled a b (Suc i) 1 dp"
  unfolding filled_def
proof (intro conjI allI impI)
  show "shaped (length a) (length b) dp" "\<And>i'. i' \<le> length a \<Longrightarrow> cell dp i' 0 = i'"
    using assms(1) by (simp_all add: filled_def)
  fix i' j' :: nat
  assume "i' < Suc i" "j' \<le> length b"
  then show "cell dp i' j' = dist a b i' j'"
    using assms(1) unfolding filled_def by (cases "i' = i") (simp_all add: less_Suc_eq_le)
next
  fix j' :: nat
  assume "j' < 1"
  then show "cell dp (Suc i) j' = dist a b (Suc i) j'"
    using assms by (simp add: filled_def)
qed

lemma dp_rows_filled:
  assumes "k \<le> length a"
  shows "filled a b k (Suc (length b))
    (fold (\<lambda>i dp. fold (dp_step a b i) [1..<length b + 1] dp) [1..<k + 1] (dp_init (length a) (length b)))"
  using assms
proof (induction k)
  case 0
  show ?case
    by (auto simp: filled_def dp_init_props)
next
  case (Suc k)
  let ?row = "\<lambda>i. fold (dp_step a b i) [1..<length b + 1]"
  define dp where "dp = fold ?row [1..<k + 1] (dp_init (length a) (length b))"
  have "filled a b k (Suc (length b)) dp"
    unfolding dp_def by (rule Suc.IH) (use Suc.prems in simp)
  then have "filled a b (Suc k) 1 dp"
    by (rule filled_next_row) (use Suc.prems in simp)
  then have "filled a b (Suc k) (Suc (length b)) (?row (Suc k) dp)"
    by (rule dp_row_filled) (use Suc.prems in simp_all)
  also have "?row (Suc k) dp = fold ?row [1..<Suc k + 1] (dp_init (length a) (length b))"
    by (simp add: dp_def del: upt_Suc) (simp add: upt_Suc_append)
  finally show ?case .
qed

lemma dp_fill_lev: "cell (dp_fill a b) (length a) (length b) = lev a b"
proof -
  have "cell (dp_fill a b) (length a) (length b) = dist a b (length a) (length b)"
    using dp_rows_filled [of "length a" a b] unfolding filled_def dp_fill_def by auto
  then show ?thesis
    by (simp add: dist_def lev_rev)
qed

lemma lev_length: "length ys \<le> length xs + lev xs ys" "length xs \<le> length ys + lev xs ys"
  by (induction xs ys rule: lev.induct) (auto simp: min_def)

lemma edit_distance_lev:
  "edit_distance s t = (if lev (chars_of s) (chars_of t) \<le> 3 then lev (chars_of s) (chars_of t)
     else edit_distance s t)"
  "3 < lev (chars_of s) (chars_of t) \<Longrightarrow> 3 < edit_distance s t"
  using lev_length [of "chars_of t" "chars_of s"] lev_length [of "chars_of s" "chars_of t"]
  unfolding edit_distance_def Let_def dp_fill_lev by auto

section \<open>Properties\<close>

text \<open>
  The dynamic program computes the edit distance: for any bound up to the cap of three,
  \<^verbatim>\<open>edit_distance\<close> is within the bound exactly when the second name arises from the first by that
  many single-character insertions, deletions and substitutions.
\<close>

theorem edit_distance_correct:
  "k \<le> 3 \<Longrightarrow> edit_distance s t \<le> k \<longleftrightarrow> (\<exists>j \<le> k. edits j (chars_of s) (chars_of t))"
proof -
  assume k: "k \<le> 3"
  have "edit_distance s t \<le> k \<longleftrightarrow> lev (chars_of s) (chars_of t) \<le> k"
    using edit_distance_lev [of s t] k by (cases "lev (chars_of s) (chars_of t) \<le> 3") auto
  also have "\<dots> \<longleftrightarrow> (\<exists>j \<le> k. edits j (chars_of s) (chars_of t))"
    using edits_lev lev_least le_trans by metis
  finally show ?thesis .
qed

theorem edit_distance_correct_witness:
  "edit_distance ''amount'' ''amuont'' \<le> 2 \<longleftrightarrow> (\<exists>j \<le> 2. edits j (chars_of ''amount'') (chars_of ''amuont''))"
  by (rule edit_distance_correct) simp

lemma first_min_None: "first_min xs = None \<longleftrightarrow> xs = []"
  by (cases xs) (auto split: option.splits)

lemma first_min_Some:
  "first_min xs = Some x \<Longrightarrow> x \<in> set xs \<and> (\<forall>y \<in> set xs. snd x \<le> snd y)"
proof (induction xs arbitrary: x)
  case (Cons a xs)
  then show ?case
    by (cases "first_min xs") (fastforce simp: first_min_None split: if_splits)+
qed simp

text \<open>
  A hint is given exactly when some declared parameter is within two edits of the unknown
  name, and it names a declared parameter at the least distance.
\<close>

theorem did_you_mean_spec:
  "(did_you_mean dbg name cs = [] \<longleftrightarrow> \<not> list_ex (\<lambda>c. edit_distance name c \<le> 2) cs)
   \<and> (\<forall>h. did_you_mean dbg name cs = h \<and> h \<noteq> [] \<longrightarrow>
        (\<exists>c. c \<in> set cs \<and> h = '' (did you mean '' @ dbg c @ ''?)'' \<and> edit_distance name c \<le> 2
           \<and> list_all (\<lambda>d. edit_distance name c \<le> edit_distance name d) cs))"
proof -
  let ?ps = "filter (\<lambda>cd. snd cd \<le> 2) (map (\<lambda>c. (c, edit_distance name c)) cs)"
  show ?thesis
  proof (cases "first_min ?ps")
    case None
    then have "?ps = []" by (simp only: first_min_None)
    then have "\<not> list_ex (\<lambda>c. edit_distance name c \<le> 2) cs"
      by (auto simp: filter_empty_conv list_ex_iff)
    with None show ?thesis by (simp add: did_you_mean_def)
  next
    case (Some p)
    then obtain c where c: "c \<in> set cs" "p = (c, edit_distance name c)" "edit_distance name c \<le> 2"
      "\<And>d. d \<in> set cs \<Longrightarrow> edit_distance name d \<le> 2 \<Longrightarrow> edit_distance name c \<le> edit_distance name d"
      using first_min_Some [OF Some] by fastforce
    then have "edit_distance name c \<le> edit_distance name d" if "d \<in> set cs" for d
      using that by (cases "edit_distance name d \<le> 2") auto
    moreover have "list_ex (\<lambda>c. edit_distance name c \<le> 2) cs"
      using c by (auto simp: list_ex_iff)
    ultimately show ?thesis
      using Some c by (auto simp: did_you_mean_def list_all_iff)
  qed
qed

theorem did_you_mean_spec_witness:
  "\<exists>c. c \<in> set [''amount'', ''to''] \<and> did_you_mean id ''amout'' [''amount'', ''to''] = '' (did you mean '' @ id c @ ''?)''"
proof -
  have "did_you_mean id ''amout'' [''amount'', ''to''] = '' (did you mean amount?)''"
    by code_simp
  then show ?thesis
    using did_you_mean_spec [of id "''amout''" "[''amount'', ''to'']"] by auto
qed

end
