(* ===== verification/Read_Call.thy ===== *)
theory Read_Call
  imports Read_Encode Edit_Distance Enrich "HOL-Library.Countable"
begin

text \<open>
  The read layer of \<^verbatim>\<open>crates/lumenqraph-core/src/read.rs\<close> around the argument encoder: a call is
  validated against the interface, its arguments encoded, a simulation transaction built, and the
  result and the events of the simulation decoded.

  The XDR crate is the record \<open>tx_codecs\<close>: the parsers of the account strkeys, the serialiser of an
  envelope, the reader of a diagnostic event, and the errors they display.
\<close>

section \<open>Transactions\<close>

datatype muxed_account = Ed25519 "u8 list" | MuxedEd25519 u64 "u8 list"

record invoke_contract_args =
  contract_address :: sc_address
  function_name :: "u8 list"
  call_args :: "scval list"

datatype operation_body = InvokeHostFunction invoke_contract_args "u8 list list"

datatype preconditions = PrecondNone | PrecondTime u64 u64

datatype memo = MemoNone | MemoText "u8 list"

datatype transaction_ext = ExtV0 | ExtV1 "u8 list"

record operation =
  op_source_account :: "muxed_account option"
  op_body :: operation_body

record transaction =
  tx_source_account :: muxed_account
  tx_fee :: u32
  tx_seq_num :: u64
  tx_cond :: preconditions
  tx_memo :: memo
  tx_operations :: "operation list"
  tx_ext :: transaction_ext

record transaction_envelope =
  env_tx :: transaction
  env_signatures :: "u8 list list"

datatype contract_event_type = ContractEvent | SystemEvent | DiagnosticTrace

record diagnostic_event =
  de_type :: contract_event_type
  de_contract_id :: "u8 list option"
  de_topics :: "scval list"
  de_data :: scval

record tx_codecs =
  muxed_from_str :: "string \<Rightarrow> string + muxed_account"
  pubkey_from_str :: "string \<Rightarrow> string + u8 list"
  scaddress_from_str :: "string \<Rightarrow> string + sc_address"
  length_error :: string
  envelope_to_base64 :: "transaction_envelope \<Rightarrow> string + string"
  diag_from_base64 :: "string \<Rightarrow> nat \<Rightarrow> nat \<Rightarrow> diagnostic_event option"
  addr_to_string :: "sc_address \<Rightarrow> string"
  b64_decode :: "string \<Rightarrow> u8 list option"
  scval_read :: "u8 list \<Rightarrow> (scval \<times> u8 list) option"
  table_order :: "(string list \<times> nat) list \<Rightarrow> (string list \<times> nat) list"

definition ZERO_ACCOUNT :: "u8 list" where
  "ZERO_ACCOUNT = replicate 32 0"

definition parse_source_account :: "tx_codecs \<Rightarrow> string \<Rightarrow> string + muxed_account" where
  "parse_source_account tc s =
     (if starts_with ''M'' s then muxed_from_str tc s
      else bind_res (pubkey_from_str tc s) (\<lambda>k. Inr (Ed25519 k)))"

definition build_read_tx ::
  "codecs \<Rightarrow> tx_codecs \<Rightarrow> string \<Rightarrow> string \<Rightarrow> scval list \<Rightarrow> string option \<Rightarrow> string + string" where
  "build_read_tx env tc contract_id fname args source_account =
     bind_res (case source_account of Some s \<Rightarrow> parse_source_account tc s | None \<Rightarrow> Inr (Ed25519 ZERO_ACCOUNT))
       (\<lambda>source.
     bind_res (scaddress_from_str tc contract_id) (\<lambda>addr.
     if length fname > symbol_max env then Inl (length_error tc)
     else if length args > vec_max env then Inl (length_error tc)
     else
       (let invoke = \<lparr>contract_address = addr, function_name = bytes_of_text fname, call_args = args\<rparr>;
            op = \<lparr>op_source_account = None, op_body = InvokeHostFunction invoke []\<rparr>;
            tx = \<lparr>tx_source_account = source, tx_fee = 0, tx_seq_num = 0, tx_cond = PrecondNone,
              tx_memo = MemoNone, tx_operations = [op], tx_ext = ExtV0\<rparr>
        in envelope_to_base64 tc \<lparr>env_tx = tx, env_signatures = []\<rparr>)))"

section \<open>Encoding a call\<close>

record encoded_call =
  tx_xdr :: string
  output_type :: string
  output_ty :: "type_def option"

definition check_shape :: "codecs \<Rightarrow> function_spec \<Rightarrow> json \<Rightarrow> encode_error + unit" where
  "check_shape env func args =
     (case args of
        Object m \<Rightarrow>
          (let param_names = map field_name (fn_inputs func)
           in case find (\<lambda>k. k \<notin> set param_names) (map fst m) of
                Some key \<Rightarrow> Inl (UnknownArgument key (did_you_mean (dbg env) key param_names))
              | None \<Rightarrow> Inr ())
      | Array a \<Rightarrow>
          if length a \<noteq> length (fn_inputs func)
          then Inl (WrongArity (length (fn_inputs func)) (length a)) else Inr ()
      | _ \<Rightarrow> Inr ())"

definition arg_value :: "json \<Rightarrow> nat \<Rightarrow> string \<Rightarrow> json option" where
  "arg_value args i name =
     (case args of
        Object m \<Rightarrow> bt_get m name
      | Array a \<Rightarrow> if i < length a then Some (a ! i) else None
      | _ \<Rightarrow> None)"

definition encode_input ::
  "codecs \<Rightarrow> contract_spec \<Rightarrow> json \<Rightarrow> nat \<times> field \<Rightarrow> call_fault + scval" where
  "encode_input env spec args i_input =
     (case i_input of (i, input) \<Rightarrow>
        bind_res (lift (ok_or (MissingArgument (field_name input)) (arg_value args i (field_name input))))
          (\<lambda>jv. json_to_scval env spec (field_name input) jv (field_ty input)))"

definition encode_call_with_spec ::
  "codecs \<Rightarrow> tx_codecs \<Rightarrow> contract_spec \<Rightarrow> string \<Rightarrow> string \<Rightarrow> json \<Rightarrow> string option \<Rightarrow>
   call_fault + encoded_call" where
  "encode_call_with_spec env tc spec contract_id fname args source_account =
     bind_res (map_sum Panic id (function_of spec fname)) (\<lambda>found.
     bind_res (lift (ok_or (FunctionNotFound fname) found)) (\<lambda>func.
     bind_res (lift (check_shape env func args)) (\<lambda>_.
     bind_res (map_res (encode_input env spec args) (enumerate 0 (fn_inputs func))) (\<lambda>scvals.
     let out = (case fn_output_tys func of [] \<Rightarrow> None | t # _ \<Rightarrow> Some t);
         out_name = (case out of Some t \<Rightarrow> type_name (lossy env) t | None \<Rightarrow> ''void'')
     in bind_res (map_sum (Encode \<circ> Build) id (build_read_tx env tc contract_id fname scvals source_account))
          (\<lambda>xdr. Inr \<lparr>tx_xdr = xdr, output_type = out_name, output_ty = out\<rparr>)))))"

definition encode_call ::
  "codecs \<Rightarrow> tx_codecs \<Rightarrow> (u8 list \<Rightarrow> (string + sc_spec_entry) list) \<Rightarrow> u8 list \<Rightarrow> string \<Rightarrow> string \<Rightarrow> json \<Rightarrow>
   string option \<Rightarrow> call_fault + encoded_call" where
  "encode_call env tc read_iter spec_section contract_id fname args source_account =
     (case from_spec_xdr_simple (lossy env) read_iter spec_section of
        Some spec \<Rightarrow> encode_call_with_spec env tc spec contract_id fname args source_account
      | None \<Rightarrow> Inl (Encode (FunctionNotFound fname)))"

section \<open>Listing functions\<close>

definition MUTATING_PREFIXES :: "string list" where
  "MUTATING_PREFIXES =
     [''set_'', ''init'', ''mint'', ''burn'', ''transfer'', ''approve'', ''withdraw'', ''deposit'',
      ''pause'', ''unpause'', ''upgrade'', ''admin_'', ''remove_'', ''add_'', ''create_'', ''delete_'',
      ''update_'', ''cancel'', ''claim'', ''deploy'', ''revoke'', ''grant'', ''lock'', ''unlock'']"

definition is_view_heuristic :: "function_spec \<Rightarrow> bool" where
  "is_view_heuristic f =
     (let is_void_output = fn_outputs f = [];
          name = to_lowercase (fn_name f);
          matches_mutating_prefix = list_ex (\<lambda>p. starts_with p name) MUTATING_PREFIXES
      in \<not> is_void_output \<and> \<not> matches_mutating_prefix)"

definition is_view_function :: "contract_spec \<Rightarrow> string \<Rightarrow> bool option" where
  "is_view_function spec name = map_option is_view_heuristic (find (\<lambda>f. fn_name f = name) (cs_functions spec))"

definition function_json :: "function_spec \<Rightarrow> json" where
  "function_json f =
     jobj [(''name'', Str (fn_name f)),
       (''inputs'', Array (map (\<lambda>i. jobj [(''name'', Str (field_name i)), (''type'', Str (field_type_name i))])
          (fn_inputs f))),
       (''outputs'', Array (map Str (fn_outputs f))),
       (''is_view'', Bool (is_view_heuristic f))]"

definition functions_of :: "contract_spec \<Rightarrow> json list" where
  "functions_of spec = map function_json (cs_functions spec)"

definition list_functions ::
  "(u8 list \<Rightarrow> string) \<Rightarrow> (u8 list \<Rightarrow> (string + sc_spec_entry) list) \<Rightarrow> u8 list \<Rightarrow> json list" where
  "list_functions lossy_utf8 read_iter section =
     (case from_spec_xdr_simple lossy_utf8 read_iter section of Some spec \<Rightarrow> functions_of spec | None \<Rightarrow> [])"

section \<open>Decoding\<close>

definition decode_result ::
  "codecs \<Rightarrow> tx_codecs \<Rightarrow> string \<Rightarrow> encoded_call \<Rightarrow> contract_spec option \<Rightarrow> index_panic + json" where
  "decode_result env tc result_xdr call spec =
     (let value = decode_scval_base64 (b64_decode tc) (scval_read tc) (addr_to_string tc) result_xdr
      in bind_res
           (case (spec, output_ty call) of
              (Some spec, Some ty) \<Rightarrow> relabel_value (lossy env) spec value ty
            | _ \<Rightarrow> Inr value)
           (\<lambda>value. Inr (jobj [(''type'', Str (output_type call)), (''value'', value)])))"

definition opt_json :: "string option \<Rightarrow> json" where
  "opt_json x = (case x of Some s \<Rightarrow> Str s | None \<Rightarrow> Null)"

definition event_kind :: "contract_event_type \<Rightarrow> string option" where
  "event_kind t = (case t of ContractEvent \<Rightarrow> Some ''contract'' | SystemEvent \<Rightarrow> Some ''system''
     | DiagnosticTrace \<Rightarrow> None)"

definition decode_event ::
  "codecs \<Rightarrow> tx_codecs \<Rightarrow> string \<Rightarrow> contract_spec option \<Rightarrow> string \<Rightarrow> index_panic + json option" where
  "decode_event env tc target_contract spec b64 =
     (case diag_from_base64 tc b64 500 (max (length b64) 1 * 3 div 4 + 16) of
        None \<Rightarrow> Inr None
      | Some event \<Rightarrow>
          (case event_kind (de_type event) of
             None \<Rightarrow> Inr None
           | Some kind \<Rightarrow>
               (let contract_id = map_option (\<lambda>c. addr_to_string tc (ContractAddr c)) (de_contract_id event);
                    topics = map (decode_scval (addr_to_string tc)) (de_topics event);
                    data = decode_scval (addr_to_string tc) (de_data event);
                    event_name = (case topics of t # _ \<Rightarrow> as_str t | [] \<Rightarrow> None)
                in bind_res
                     (case (spec, event_name, contract_id) of
                        (Some spec, Some name, Some cid) \<Rightarrow>
                          if cid = target_contract
                          then enrich_event (lossy env) (table_order tc) spec name topics data else Inr None
                      | _ \<Rightarrow> Inr None)
                     (\<lambda>enriched. Inr (Some (jobj
                        [(''contract_id'', opt_json contract_id), (''type'', Str kind),
                         (''event'', opt_json event_name), (''topics'', Array topics), (''data'', data),
                         (''enriched'', case enriched of Some e \<Rightarrow> e | None \<Rightarrow> Null)]))))))"

definition decode_events ::
  "codecs \<Rightarrow> tx_codecs \<Rightarrow> string list \<Rightarrow> string \<Rightarrow> contract_spec option \<Rightarrow> index_panic + json list" where
  "decode_events env tc events_xdr target_contract spec =
     bind_res (map_res (decode_event env tc target_contract spec) events_xdr)
       (\<lambda>out. Inr (List.map_filter id out))"

section \<open>No panics\<close>

lemma lift_no_panic [simp]: "lift r \<noteq> Inl (Panic p)"
  by (cases r) (simp_all add: lift_def)

lemma val_no_panic [simp]: "vec_val env xs name \<noteq> Inl (Panic p)" "map_val env ms name \<noteq> Inl (Panic p)"
  by (simp_all add: vec_val_def map_val_def)

lemma map_sum_iff [simp]:
  "map_sum f id r = Inr x \<longleftrightarrow> r = Inr x" "map_sum f id r = Inl e \<longleftrightarrow> (\<exists>d. r = Inl d \<and> e = f d)"
  by (cases r; auto)+

lemma map_res_InlD: "map_res f xs = Inl e \<Longrightarrow> \<exists>x \<in> set xs. f x = Inl e"
  by (induction xs) (auto simp: bind_res_Inl_iff)

definition udts_resolve :: "contract_spec \<Rightarrow> bool" where
  "udts_resolve spec \<longleftrightarrow> (\<forall>n p. udt_def_of spec n \<noteq> Inl p)"

lemma udts_resolve_reindex: "udts_resolve (reindex s)"
  by (simp add: udts_resolve_def udt_def_of_reindex)

lemma encoder_no_panic:
  "udts_resolve spec \<Longrightarrow> json_to_scval env spec name v ty \<noteq> Inl (Panic p)"
  "udts_resolve spec \<Longrightarrow> udt_to_scval env spec name v n \<noteq> Inl (Panic p)"
  "udts_resolve spec \<Longrightarrow> struct_to_scval env spec name v s \<noteq> Inl (Panic p)"
  "udts_resolve spec \<Longrightarrow> union_to_scval env spec name v u \<noteq> Inl (Panic p)"
proof (induction env spec name v ty and env spec name v n and env spec name v s and env spec name v u
    rule: json_to_scval_udt_to_scval_struct_to_scval_union_to_scval.induct)
  case (25 env spec name v n)
  then show ?case
    by (auto simp: udts_resolve_def split: sum.splits option.splits udt_def.splits)
next
  case (26 env spec name v s)
  then show ?case
    by (auto simp: bind_res_Inl_iff split: json.splits option.splits dest!: map_res_InlD)
next
  case (27 env spec name v u)
  show ?case
  proof
    assume panic: "union_to_scval env spec name v u = Inl (Panic p)"
    then obtain key val where v: "v = Object [(key, val)]"
      by (cases v) (auto simp: bind_res_Inl_iff split: option.splits if_splits list.splits)
    then obtain c where c: "find_case u key = Some c" "uc_tys c \<noteq> []"
      using panic by (auto simp: bind_res_Inl_iff split: option.splits if_splits)
    with panic v have "map_res (\<lambda>p. json_to_scval env spec name (fst p) (snd p))
        (zip (union_vals val) (uc_tys c)) = Inl (Panic p)"
      by (auto simp: bind_res_Inl_iff split: if_splits)
    then show False
      using 27 v c panic by (auto simp: bind_res_Inl_iff dest!: map_res_InlD split: if_splits)
  qed
qed (auto simp: Let_def bind_res_Inl_iff split: json.splits dest!: map_res_InlD)

section \<open>Properties\<close>

lemma from_spec_xdr_simple_indexed:
  "from_spec_xdr_simple to_text it bytes = Some spec \<Longrightarrow> \<exists>s. spec = reindex s"
  by (auto simp: from_spec_xdr_simple_def from_spec_xdr_def Let_def split: if_splits)

lemma encode_call_with_spec_reindex:
  "encode_call_with_spec env tc (reindex s) cid fname args src =
     (case find (\<lambda>f. fn_name f = fname) (cs_functions s) of
        None \<Rightarrow> Inl (Encode (FunctionNotFound fname))
      | Some f \<Rightarrow>
          bind_res (lift (check_shape env f args)) (\<lambda>_.
          bind_res (map_res (encode_input env (reindex s) args) (enumerate 0 (fn_inputs f))) (\<lambda>scvals.
          bind_res (map_sum (Encode \<circ> Build) id (build_read_tx env tc cid fname scvals src)) (\<lambda>xdr.
          Inr \<lparr>tx_xdr = xdr,
               output_type = (case fn_output_tys f of [] \<Rightarrow> ''void'' | t # _ \<Rightarrow> type_name (lossy env) t),
               output_ty = (case fn_output_tys f of [] \<Rightarrow> None | t # _ \<Rightarrow> Some t)\<rparr>))))"
  unfolding encode_call_with_spec_def function_of_reindex
  by (auto simp: lift_def Let_def split: option.splits list.splits)

lemma decode_result_total: "\<exists>v. decode_result env tc xdr call (Some (reindex s)) = Inr v"
proof (cases "output_ty call")
  case (Some ty)
  let ?v = "decode_scval_base64 (b64_decode tc) (scval_read tc) (addr_to_string tc) xdr"
  obtain w where "relabel (lossy env) (reindex s) ?v ty = Inr w"
    using relabel_labels(1) [OF udt_refs_ok_reindex, of "lossy env" s ?v ty] by (auto simp: labels_def)
  with Some show ?thesis by (simp add: decode_result_def relabel_value_def)
qed (simp add: decode_result_def)

lemma decode_event_total: "\<exists>r. decode_event env tc target (Some (reindex s)) b64 = Inr r"
proof (cases "diag_from_base64 tc b64 500 (max (length b64) 1 * 3 div 4 + 16)")
  case (Some event)
  let ?topics = "map (decode_scval (addr_to_string tc)) (de_topics event)"
  have "\<exists>r. enrich_event (lossy env) (table_order tc) (reindex s) name ?topics
      (decode_scval (addr_to_string tc) (de_data event)) = Inr r" for name
    using enrich_event_ok [of ?topics "decode_scval (addr_to_string tc) (de_data event)" "lossy env"
        "table_order tc" s name]
    by (auto simp: list_all_iff)
  with Some show ?thesis
    by (auto simp: decode_event_def Let_def split: option.splits)
qed (simp add: decode_event_def)

definition args_fit :: "function_spec \<Rightarrow> json \<Rightarrow> bool" where
  "args_fit f args \<longleftrightarrow>
     (case args of
        Object m \<Rightarrow> set (map fst m) = set (map field_name (fn_inputs f))
      | Array a \<Rightarrow> length a = length (fn_inputs f)
      | _ \<Rightarrow> fn_inputs f = [])"

lemma check_shape_Inr:
  "check_shape env f args = Inr u \<longleftrightarrow>
     (case args of
        Object m \<Rightarrow> set (map fst m) \<subseteq> set (map field_name (fn_inputs f))
      | Array a \<Rightarrow> length a = length (fn_inputs f)
      | _ \<Rightarrow> True)"
  by (force simp: check_shape_def find_None_iff split: json.splits option.splits dest!: find_SomeD)

lemma encode_inputs_Inr:
  assumes "map_res (encode_input env spec args) (enumerate 0 (fn_inputs f)) = Inr scvals"
  shows "length scvals = length (fn_inputs f)"
    and "i < length (fn_inputs f) \<Longrightarrow> \<exists>jv. arg_value args i (field_name (fn_inputs f ! i)) = Some jv
      \<and> json_to_scval env spec (field_name (fn_inputs f ! i)) jv (field_ty (fn_inputs f ! i)) = Inr (scvals ! i)"
proof -
  have all: "list_all2 (\<lambda>x y. encode_input env spec args x = Inr y) (enumerate 0 (fn_inputs f)) scvals"
    using assms by (simp add: map_res_Inr_iff)
  then show "length scvals = length (fn_inputs f)"
    by (auto dest: list_all2_lengthD)
  show "\<exists>jv. arg_value args i (field_name (fn_inputs f ! i)) = Some jv
      \<and> json_to_scval env spec (field_name (fn_inputs f ! i)) jv (field_ty (fn_inputs f ! i)) = Inr (scvals ! i)"
    if "i < length (fn_inputs f)"
    using list_all2_nthD [OF all, of i] that by (auto simp: encode_input_def nth_enumerate_eq)
qed

lemma args_fit_intro:
  assumes "check_shape env f args = Inr u"
    and "\<And>i. i < length (fn_inputs f) \<Longrightarrow> arg_value args i (field_name (fn_inputs f ! i)) \<noteq> None"
  shows "args_fit f args"
proof (cases args)
  case (Object m)
  have "field_name x \<in> set (map fst m)" if "x \<in> set (fn_inputs f)" for x
  proof -
    obtain i where "i < length (fn_inputs f)" "fn_inputs f ! i = x"
      using \<open>x \<in> set (fn_inputs f)\<close> by (auto simp: in_set_conv_nth)
    then show ?thesis
      using assms(2) [of i] Object by (simp add: arg_value_def map_of_eq_None_iff)
  qed
  with assms(1) Object show ?thesis
    by (auto simp: args_fit_def check_shape_Inr)
qed (use assms in \<open>auto simp: args_fit_def check_shape_Inr arg_value_def\<close>)

text \<open>
  Claim C33. A call that is encoded is well-typed. Whenever \<^verbatim>\<open>encode_call_with_spec\<close> succeeds, the
  function is declared; the arguments are exactly its parameters (an object has the declared names
  and no others, an array the declared arity); the transaction carries one value per parameter, in
  order, each of the declared type, user-defined types, XDR length limits and the strict key order of
  maps included; and the declared return type is recorded.
\<close>

theorem encode_call_well_typed:
  assumes "encode_call_with_spec env tc (reindex s) cid fname args src = Inr call"
    and "total_order (scval_le env)"
  shows "\<exists>f scvals. find (\<lambda>f. fn_name f = fname) (cs_functions s) = Some f \<and> args_fit f args
    \<and> list_all2 (\<lambda>i sv. has_type env (reindex s) (field_ty i) sv) (fn_inputs f) scvals
    \<and> build_read_tx env tc cid fname scvals src = Inr (tx_xdr call)
    \<and> output_ty call = (case fn_output_tys f of [] \<Rightarrow> None | t # _ \<Rightarrow> Some t)"
proof -
  obtain f where f: "find (\<lambda>f. fn_name f = fname) (cs_functions s) = Some f"
    using assms(1) by (auto simp: encode_call_with_spec_reindex split: option.splits)
  with assms(1) obtain scvals where shape: "check_shape env f args = Inr ()"
    and enc: "map_res (encode_input env (reindex s) args) (enumerate 0 (fn_inputs f)) = Inr scvals"
    and tx: "build_read_tx env tc cid fname scvals src = Inr (tx_xdr call)"
      "output_ty call = (case fn_output_tys f of [] \<Rightarrow> None | t # _ \<Rightarrow> Some t)"
    by (auto simp: encode_call_with_spec_reindex)
  have "args_fit f args"
    using args_fit_intro [OF shape] encode_inputs_Inr(2) [OF enc] by fastforce
  moreover have "list_all2 (\<lambda>i sv. has_type env (reindex s) (field_ty i) sv) (fn_inputs f) scvals"
    unfolding list_all2_conv_all_nth
    using encode_inputs_Inr [OF enc] encoder_typed(1) [OF _ assms(2)] by metis
  ultimately show ?thesis using f tx by blast
qed

instance sc_address :: countable by countable_datatype
instance sc_error :: countable by countable_datatype
instance contract_executable :: countable by countable_datatype
instance uint128_parts :: countable by countable_datatype
instance int128_parts :: countable by countable_datatype
instance uint256_parts :: countable by countable_datatype
instance int256_parts :: countable by countable_datatype
instance scval :: countable by countable_datatype

text \<open>A concrete environment: strkeys are tagged text, and values are ordered by an enumeration.\<close>

definition sample_codecs :: codecs where
  "sample_codecs = \<lparr>address_from_str = (\<lambda>s. if starts_with ''C'' s then Some (ContractAddr (bytes_of_text (tl s))) else None),
     strkey_from_string = (\<lambda>s. None), pubkey_to_string = text_of_bytes, hex_decode = (\<lambda>s. None),
     symbol_max = 32, string_max = 100, vec_max = 100, scval_le = (\<lambda>a b. to_nat a \<le> to_nat b),
     lossy = text_of_bytes, dbg = id\<rparr>"

lemma sample_codecs_order: "total_order (scval_le sample_codecs)"
  unfolding total_order_def sample_codecs_def by (auto intro: injD [OF inj_to_nat])

definition sample_tx_codecs :: tx_codecs where
  "sample_tx_codecs = \<lparr>muxed_from_str = (\<lambda>s. Inl ''muxed''), pubkey_from_str = (\<lambda>s. Inl ''key''),
     scaddress_from_str = (\<lambda>s. Inr (ContractAddr (bytes_of_text s))), length_error = ''length'',
     envelope_to_base64 = (\<lambda>e. Inr ''AAAA''), diag_from_base64 = (\<lambda>s d l. None),
     addr_to_string = (\<lambda>a. ''C''), b64_decode = (\<lambda>s. None), scval_read = (\<lambda>b. None), table_order = id\<rparr>"

definition sample_function :: function_spec where
  "sample_function = \<lparr>fn_name = ''balance'', fn_doc = [],
     fn_inputs = [\<lparr>field_name = ''id'', field_type_name = ''Address'', field_ty = TAddress\<rparr>],
     fn_outputs = [''i128''], fn_output_tys = [TI128]\<rparr>"

definition sample_spec :: contract_spec where
  "sample_spec = spec_default\<lparr>cs_functions := [sample_function]\<rparr>"

theorem encode_call_well_typed_witness:
  "\<exists>call f scvals. encode_call_with_spec sample_codecs sample_tx_codecs (reindex sample_spec) ''C1'' ''balance''
       (Object [(''id'', Str ''C2'')]) None = Inr call
     \<and> args_fit f (Object [(''id'', Str ''C2'')])
     \<and> list_all2 (\<lambda>i sv. has_type sample_codecs (reindex sample_spec) (field_ty i) sv) (fn_inputs f) scvals
     \<and> output_ty call = Some TI128"
proof -
  obtain call where call: "encode_call_with_spec sample_codecs sample_tx_codecs (reindex sample_spec) ''C1'' ''balance''
       (Object [(''id'', Str ''C2'')]) None = Inr call" "output_ty call = Some TI128"
    by (simp add: encode_call_with_spec_reindex sample_spec_def sample_function_def check_shape_def encode_input_def
        arg_value_def lift_def sample_codecs_def sample_tx_codecs_def build_read_tx_def str_of_def starts_with_def)
  from encode_call_well_typed [OF call(1) sample_codecs_order] call show ?thesis by blast
qed

lemma map_res_first_error:
  assumes "map_res g (enumerate 0 pre) = Inr vs" "g (length pre, i) = Inl e"
  shows "map_res g (enumerate 0 (pre @ i # post)) = Inl e"
proof -
  have "map_res g (xs @ y # ys) = Inl e" if "map_res g xs = Inr vs" "g y = Inl e" for xs y ys vs
    using that by (induction xs arbitrary: vs) auto
  with assms show ?thesis by (simp add: enumerate_append_eq)
qed

text \<open>
  Each malformed call is refused with its own error. An undeclared function is
  \<^verbatim>\<open>FunctionNotFound\<close>; the first argument name that is not declared is reported with its spelling
  hint; a positional call of another length is \<^verbatim>\<open>WrongArity\<close>; and the first parameter, in declaration
  order, that is missing or does not fit its type decides the error.
\<close>

theorem encode_call_errors:
  fixes env tc s cid fname args src
  defines "r \<equiv> encode_call_with_spec env tc (reindex s) cid fname args src"
  shows "(find (\<lambda>f. fn_name f = fname) (cs_functions s) = None \<longrightarrow> r = Inl (Encode (FunctionNotFound fname)))
   \<and> (\<forall>f. find (\<lambda>f. fn_name f = fname) (cs_functions s) = Some f \<longrightarrow>
        (\<forall>m k. args = Object m \<and> find (\<lambda>k. k \<notin> set (map field_name (fn_inputs f))) (map fst m) = Some k \<longrightarrow>
           r = Inl (Encode (UnknownArgument k (did_you_mean (dbg env) k (map field_name (fn_inputs f))))))
      \<and> (\<forall>a. args = Array a \<and> length a \<noteq> length (fn_inputs f) \<longrightarrow>
           r = Inl (Encode (WrongArity (length (fn_inputs f)) (length a))))
      \<and> (\<forall>pre i post vs e. check_shape env f args = Inr () \<and> fn_inputs f = pre @ i # post
           \<and> map_res (encode_input env (reindex s) args) (enumerate 0 pre) = Inr vs
           \<and> (arg_value args (length pre) (field_name i) = None \<and> e = Encode (MissingArgument (field_name i))
              \<or> (\<exists>v. arg_value args (length pre) (field_name i) = Some v
                  \<and> json_to_scval env (reindex s) (field_name i) v (field_ty i) = Inl e)) \<longrightarrow>
           r = Inl e))"
  unfolding r_def encode_call_with_spec_reindex
  by (auto simp: check_shape_def lift_def map_res_first_error encode_input_def)

theorem encode_call_errors_witness:
  "encode_call_with_spec sample_codecs sample_tx_codecs (reindex sample_spec) ''C1'' ''balance'' (Array []) None
     = Inl (Encode (WrongArity 1 0))"
proof -
  have f: "find (\<lambda>f. fn_name f = ''balance'') (cs_functions sample_spec) = Some sample_function"
    by (simp add: sample_spec_def sample_function_def)
  have "length ([] :: json list) \<noteq> length (fn_inputs sample_function)" "length (fn_inputs sample_function) = 1"
    by (simp_all add: sample_function_def)
  then show ?thesis
    using encode_call_errors [of "''balance''" sample_spec sample_codecs sample_tx_codecs "''C1''" "Array []" None] f
    by simp
qed

text \<open>
  Claim C36. The read layer never panics. Over any section that parses, encoding a call, labelling a
  simulation result and decoding its events return a value or an error of the declared kinds; no
  interface lookup indexes out of range, whatever the JSON and the XDR given.
\<close>

theorem read_layer_never_panics:
  "encode_call env tc it spec_section cid fname args src \<noteq> Inl (Panic p)
   \<and> (\<forall>spec. from_spec_xdr_simple (lossy env) it spec_section = Some spec \<longrightarrow>
        (\<exists>v. decode_result env tc xdr call (Some spec) = Inr v)
        \<and> (\<exists>out. decode_events env tc evs target (Some spec) = Inr out \<and> length out \<le> length evs))"
proof (intro conjI allI impI)
  show "encode_call env tc it spec_section cid fname args src \<noteq> Inl (Panic p)"
  proof (cases "from_spec_xdr_simple (lossy env) it spec_section")
    case (Some spec)
    then obtain s where s: "spec = reindex s"
      using from_spec_xdr_simple_indexed by blast
    have no_panic: "encode_input env (reindex s) args x \<noteq> Inl (Panic p)" for x
      by (auto simp: encode_input_def bind_res_Inl_iff encoder_no_panic(1) [OF udts_resolve_reindex] split: prod.splits)
    show ?thesis
      unfolding encode_call_def Some s
      by (auto simp: encode_call_with_spec_reindex bind_res_Inl_iff no_panic
          split: option.splits dest!: map_res_InlD)
  qed (simp add: encode_call_def)
  fix spec
  assume "from_spec_xdr_simple (lossy env) it spec_section = Some spec"
  then obtain s where s: "spec = reindex s"
    using from_spec_xdr_simple_indexed by blast
  show "\<exists>v. decode_result env tc xdr call (Some spec) = Inr v"
    unfolding s by (rule decode_result_total)
  have total: "\<exists>r. decode_event env tc target (Some spec) b64 = Inr r" for b64
    unfolding s by (rule decode_event_total)
  obtain out where out: "map_res (decode_event env tc target (Some spec)) evs = Inr out"
    using map_res_total [of evs "decode_event env tc target (Some spec)" "\<lambda>_. True"] total by auto
  then show "\<exists>out. decode_events env tc evs target (Some spec) = Inr out \<and> length out \<le> length evs"
    using map_res_length [OF out] length_filter_le [of "\<lambda>x. x \<noteq> None" out]
    by (simp add: decode_events_def List.map_filter_def)
qed

theorem read_layer_never_panics_witness:
  "\<exists>spec v. from_spec_xdr_simple text_of_bytes (\<lambda>b. [Inr (UdtStructV0 b [])]) [65] = Some spec
     \<and> decode_result sample_codecs sample_tx_codecs ''AAAA''
         \<lparr>tx_xdr = [], output_type = ''A'', output_ty = Some (TUdt [65])\<rparr> (Some spec) = Inr v"
proof -
  let ?it = "\<lambda>b :: u8 list. [Inr (UdtStructV0 b []) :: string + sc_spec_entry]"
  have "\<exists>spec. from_spec_xdr_simple text_of_bytes ?it [65] = Some spec"
    by (simp add: from_spec_xdr_simple_def from_spec_xdr_def spec_is_empty_def)
  then obtain spec where spec: "from_spec_xdr_simple text_of_bytes ?it [65] = Some spec" by blast
  moreover have "lossy sample_codecs = text_of_bytes" by (simp add: sample_codecs_def)
  ultimately show ?thesis
    using read_layer_never_panics [where env = sample_codecs and tc = sample_tx_codecs and it = ?it
        and spec_section = "[65]" and xdr = "''AAAA''"
        and call = "\<lparr>tx_xdr = [], output_type = ''A'', output_ty = Some (TUdt [65])\<rparr>"] by metis
qed

end
