(* ===== verification/Webhook_Enqueue.thy ===== *)
theory Webhook_Enqueue
  imports Json
begin

text \<open>
  The enqueue stage of \<^verbatim>\<open>crates/lumenqraph-webhooks/src/dispatcher.rs\<close>: new events, new interface
  versions and per-subscription backfills are matched against the subscriptions, and one delivery
  row is inserted per match. The SQL statements are translated clause by clause over a record of
  tables; a statement and the watermark update after it commit together.

  The \<^verbatim>\<open>jsonb\<close> operators of PostgreSQL are the record \<open>jsonb\<close>. A condition that is NULL counts as
  not satisfied, which is what a join condition does with it; the negations in the statements are
  only applied to key tests, which are never NULL.
\<close>

section \<open>Tables\<close>

record jsonb =
  jb_contains :: "json \<Rightarrow> json \<Rightarrow> bool"
  jb_cast :: "string \<Rightarrow> json option"
  jb_has_key :: "json \<Rightarrow> string \<Rightarrow> bool"
  jb_text :: "json \<Rightarrow> string \<Rightarrow> string option"
  jb_get :: "json \<Rightarrow> string \<Rightarrow> json option"

record event_row =
  er_event_id :: string
  er_seq :: int
  er_contract_id :: string
  er_event_name :: "string option"
  er_decoded_topics :: json
  er_enriched :: "json option"

record version_row =
  vr_id :: int
  vr_contract_id :: string
  vr_version :: int

record subscription =
  sub_id :: nat
  sub_active :: bool
  sub_kind :: string
  sub_contract_id :: "string option"
  sub_event_name :: "string option"
  sub_contract_ids :: "string list"
  sub_event_names :: "string list"
  sub_filter :: "json option"
  sub_starting_seq :: int
  sub_backfill_seq :: "int option"
  sub_consecutive_failures :: int
  sub_last_success_at :: "int option"
  sub_first_failure_at :: "int option"
  sub_auto_disabled_at :: "int option"
  sub_auto_disabled_reason :: "string option"

datatype source = EventSource string | UpgradeSource int

datatype delivery_status = Pending | Delivered | Failed

record delivery =
  d_id :: nat
  d_sub :: nat
  d_source :: "source option"
  d_status :: delivery_status
  d_attempts :: int
  d_next_attempt_at :: int
  d_locked_until :: "int option"
  d_locked_by :: "string option"
  d_last_error :: "string option"
  d_last_status_code :: "int option"
  d_last_response_snippet :: "string option"
  d_delivered_at :: "int option"
  d_created_at :: int

record webhook_db =
  db_events :: "event_row list"
  db_versions :: "version_row list"
  db_subs :: "subscription list"
  db_deliveries :: "delivery list"
  db_next_id :: nat
  db_last_seq :: int
  db_last_upgrade_id :: int

datatype sql_error = InvalidJsonText string

section \<open>Matching\<close>

text \<open>\<^verbatim>\<open>x IS NULL OR x = y OR (array_length(xs) > 0 AND y = ANY(xs))\<close>, with a nullable \<open>y\<close>.\<close>

definition selects :: "string option \<Rightarrow> string list \<Rightarrow> string option \<Rightarrow> bool" where
  "selects x xs y \<longleftrightarrow> x = None \<or> (y \<noteq> None \<and> x = y) \<or> (length xs > 0 \<and> (\<exists>v \<in> set xs. y = Some v))"

fun sql_all :: "(sql_error + bool) list \<Rightarrow> sql_error + bool" where
  "sql_all [] = Inr True"
| "sql_all (c # cs) = bind_res c (\<lambda>b. if b then sql_all cs else Inr False)"

definition text_cond :: "jsonb \<Rightarrow> json \<Rightarrow> string \<Rightarrow> string option \<Rightarrow> sql_error + bool" where
  "text_cond pg f key y =
     Inr (\<not> jb_has_key pg f key \<or> (jb_text pg f key \<noteq> None \<and> jb_text pg f key = y))"

definition topic_key :: "nat \<Rightarrow> string" where
  "topic_key i = [''topic0'', ''topic1'', ''topic2'', ''topic3''] ! i"

definition topic_cond :: "jsonb \<Rightarrow> json \<Rightarrow> nat \<Rightarrow> json \<Rightarrow> sql_error + bool" where
  "topic_cond pg f i topics =
     (if \<not> jb_has_key pg f (topic_key i) then Inr True
      else (case jb_text pg f (topic_key i) of
              None \<Rightarrow> Inr (jb_contains pg topics (Array (replicate i Null @ [Null])))
            | Some t \<Rightarrow>
                (case jb_cast pg t of
                   None \<Rightarrow> Inl (InvalidJsonText t)
                 | Some j \<Rightarrow> Inr (jb_contains pg topics (Array (replicate i Null @ [j]))))))"

definition enriched_cond :: "jsonb \<Rightarrow> json \<Rightarrow> string \<Rightarrow> json option \<Rightarrow> sql_error + bool" where
  "enriched_cond pg f key enriched =
     Inr (\<not> jb_has_key pg f key
        \<or> (case enriched of
             None \<Rightarrow> False
           | Some e \<Rightarrow> jb_contains pg e (Object [(key, case jb_get pg f key of Some j \<Rightarrow> j | None \<Rightarrow> Null)])))"

definition filter_cond :: "jsonb \<Rightarrow> json option \<Rightarrow> event_row \<Rightarrow> sql_error + bool" where
  "filter_cond pg flt e =
     (case flt of
        None \<Rightarrow> Inr True
      | Some f \<Rightarrow>
          if f = Object [] then Inr True
          else sql_all
            [text_cond pg f ''contract_id'' (Some (er_contract_id e)),
             text_cond pg f ''event_name'' (er_event_name e),
             topic_cond pg f 0 (er_decoded_topics e),
             topic_cond pg f 1 (er_decoded_topics e),
             topic_cond pg f 2 (er_decoded_topics e),
             topic_cond pg f 3 (er_decoded_topics e),
             enriched_cond pg f ''to'' (er_enriched e),
             enriched_cond pg f ''from'' (er_enriched e),
             enriched_cond pg f ''amount'' (er_enriched e)])"

definition event_matches :: "jsonb \<Rightarrow> subscription \<Rightarrow> event_row \<Rightarrow> sql_error + bool" where
  "event_matches pg s e =
     sql_all [Inr (sub_kind s = ''event''),
       Inr (selects (sub_contract_id s) (sub_contract_ids s) (Some (er_contract_id e))),
       Inr (selects (sub_event_name s) (sub_event_names s) (er_event_name e)),
       filter_cond pg (sub_filter s) e]"

definition upgrade_matches :: "subscription \<Rightarrow> version_row \<Rightarrow> bool" where
  "upgrade_matches s v \<longleftrightarrow> sub_active s \<and> sub_kind s = ''upgrade''
     \<and> selects (sub_contract_id s) (sub_contract_ids s) (Some (vr_contract_id v))"

section \<open>Inserting deliveries\<close>

definition new_delivery :: "int \<Rightarrow> nat \<Rightarrow> nat \<times> source \<Rightarrow> delivery" where
  "new_delivery now i k = \<lparr>d_id = i, d_sub = fst k, d_source = Some (snd k), d_status = Pending,
     d_attempts = 0, d_next_attempt_at = now, d_locked_until = None, d_locked_by = None,
     d_last_error = None, d_last_status_code = None, d_last_response_snippet = None,
     d_delivered_at = None, d_created_at = now\<rparr>"

definition d_key :: "delivery \<Rightarrow> nat \<times> source option" where
  "d_key d = (d_sub d, d_source d)"

text \<open>\<^verbatim>\<open>INSERT .. ON CONFLICT (subscription_id, ..) DO NOTHING\<close>, row by row, counting the rows affected.\<close>

definition insert_delivery :: "int \<Rightarrow> nat \<times> source \<Rightarrow> nat \<times> webhook_db \<Rightarrow> nat \<times> webhook_db" where
  "insert_delivery now k cdb = (case cdb of (c, db) \<Rightarrow>
     if list_ex (\<lambda>d. d_key d = (fst k, Some (snd k))) (db_deliveries db) then (c, db)
     else (c + 1, db\<lparr>db_deliveries := db_deliveries db @ [new_delivery now (db_next_id db) k],
                     db_next_id := db_next_id db + 1\<rparr>))"

definition insert_deliveries :: "int \<Rightarrow> (nat \<times> source) list \<Rightarrow> webhook_db \<Rightarrow> nat \<times> webhook_db" where
  "insert_deliveries now ks db = fold (insert_delivery now) ks (0, db)"

section \<open>The streams\<close>

text \<open>The rows a statement selects: an error in any condition it evaluates aborts it.\<close>

fun select_pairs :: "('a \<times> 'b \<Rightarrow> sql_error + bool) \<Rightarrow> ('a \<times> 'b) list \<Rightarrow> sql_error + ('a \<times> 'b) list" where
  "select_pairs c [] = Inr []"
| "select_pairs c (p # ps) =
     bind_res (c p) (\<lambda>b. bind_res (select_pairs c ps) (\<lambda>qs. Inr (if b then p # qs else qs)))"

definition max_or_zero :: "int list \<Rightarrow> int" where
  "max_or_zero xs = (if xs = [] then 0 else Max (set xs))"

definition event_pairs :: "webhook_db \<Rightarrow> (event_row \<times> subscription) list" where
  "event_pairs db = List.product (db_events db) (db_subs db)"

definition event_window :: "jsonb \<Rightarrow> int \<Rightarrow> int \<Rightarrow> event_row \<times> subscription \<Rightarrow> sql_error + bool" where
  "event_window pg lo hi es = (case es of (e, s) \<Rightarrow>
     sql_all [Inr (er_seq e > max (sub_starting_seq s) lo), Inr (er_seq e \<le> hi), Inr (sub_active s),
       event_matches pg s e])"

definition event_target :: "event_row \<times> subscription \<Rightarrow> nat \<times> source" where
  "event_target es = (sub_id (snd es), EventSource (er_event_id (fst es)))"

definition enqueue_events :: "jsonb \<Rightarrow> int \<Rightarrow> int \<Rightarrow> webhook_db \<Rightarrow> sql_error + nat \<times> webhook_db" where
  "enqueue_events pg now batch db =
     (let last_seq = db_last_seq db;
          global_max = max_or_zero (map er_seq (db_events db))
      in if global_max \<le> last_seq then Inr (0, db)
         else
           (let upper = min (last_seq + batch) global_max
            in bind_res (select_pairs (event_window pg last_seq upper) (event_pairs db)) (\<lambda>pairs.
               case insert_deliveries now (map event_target pairs) db of
                 (created, db') \<Rightarrow> Inr (created, db'\<lparr>db_last_seq := upper\<rparr>))))"

definition upgrade_targets :: "int \<Rightarrow> int \<Rightarrow> webhook_db \<Rightarrow> (nat \<times> source) list" where
  "upgrade_targets lo hi db =
     map (\<lambda>(v, s). (sub_id s, UpgradeSource (vr_id v)))
       (filter (\<lambda>(v, s). vr_id v > lo \<and> vr_id v \<le> hi \<and> vr_version v > 1 \<and> upgrade_matches s v)
          (List.product (db_versions db) (db_subs db)))"

definition enqueue_upgrades :: "int \<Rightarrow> int \<Rightarrow> webhook_db \<Rightarrow> nat \<times> webhook_db" where
  "enqueue_upgrades now batch db =
     (let last_id = db_last_upgrade_id db;
          global_max = max_or_zero (map vr_id (db_versions db))
      in if global_max \<le> last_id then (0, db)
         else
           (let upper = min (last_id + batch) global_max
            in case insert_deliveries now (upgrade_targets last_id upper db) db of
                 (created, db') \<Rightarrow> (created, db'\<lparr>db_last_upgrade_id := upper\<rparr>)))"

section \<open>Backfill\<close>

definition set_backfill :: "nat \<Rightarrow> int option \<Rightarrow> webhook_db \<Rightarrow> webhook_db" where
  "set_backfill i v db =
     db\<lparr>db_subs := map (\<lambda>s. if sub_id s = i then s\<lparr>sub_backfill_seq := v\<rparr> else s) (db_subs db)\<rparr>"

definition backfill_window :: "jsonb \<Rightarrow> nat \<Rightarrow> int \<Rightarrow> int \<Rightarrow> event_row \<times> subscription \<Rightarrow> sql_error + bool" where
  "backfill_window pg i lo hi es = (case es of (e, s) \<Rightarrow>
     sql_all [Inr (sub_id s = i), Inr (er_seq e > lo), Inr (er_seq e \<le> hi), event_matches pg s e])"

text \<open>One turn of the loop, for the subscription row as it was read before the loop.\<close>

definition backfill_sub ::
  "jsonb \<Rightarrow> int \<Rightarrow> int \<Rightarrow> nat \<times> int \<times> int \<Rightarrow> webhook_db \<Rightarrow> sql_error + nat \<times> webhook_db" where
  "backfill_sub pg now batch row db = (case row of (i, backfill_seq, starting_seq) \<Rightarrow>
     if backfill_seq \<ge> starting_seq then Inr (0, set_backfill i None db)
     else
       (let upper = min (backfill_seq + batch) starting_seq
        in bind_res (select_pairs (backfill_window pg i backfill_seq upper) (event_pairs db)) (\<lambda>pairs.
           case insert_deliveries now (map event_target pairs) db of
             (created, db') \<Rightarrow>
               Inr (created, set_backfill i (if upper \<ge> starting_seq then None else Some upper) db'))))"

definition backfill_rows :: "webhook_db \<Rightarrow> (nat \<times> int \<times> int) list" where
  "backfill_rows db =
     List.map_filter (\<lambda>s. case sub_backfill_seq s of
         Some b \<Rightarrow> if sub_active s then Some (sub_id s, b, sub_starting_seq s) else None
       | None \<Rightarrow> None) (db_subs db)"

text \<open>
  Each turn commits on its own, so the rows done before an error stay: the error is returned with
  the tables as they are then.
\<close>

fun backfill_loop ::
  "jsonb \<Rightarrow> int \<Rightarrow> int \<Rightarrow> (nat \<times> int \<times> int) list \<Rightarrow> nat \<Rightarrow> webhook_db \<Rightarrow>
   (sql_error + nat) \<times> webhook_db" where
  "backfill_loop pg now batch [] acc db = (Inr acc, db)"
| "backfill_loop pg now batch (r # rs) acc db =
     (case backfill_sub pg now batch r db of
        Inl e \<Rightarrow> (Inl e, db)
      | Inr (created, db') \<Rightarrow> backfill_loop pg now batch rs (acc + created) db')"

definition enqueue_backfill :: "jsonb \<Rightarrow> int \<Rightarrow> int \<Rightarrow> webhook_db \<Rightarrow> (sql_error + nat) \<times> webhook_db" where
  "enqueue_backfill pg now batch db = backfill_loop pg now batch (backfill_rows db) 0 db"

text \<open>The three streams in turn; an error in the first leaves the other two for the next tick.\<close>

definition enqueue :: "jsonb \<Rightarrow> int \<Rightarrow> int \<Rightarrow> webhook_db \<Rightarrow> (sql_error + nat) \<times> webhook_db" where
  "enqueue pg now batch db =
     (case enqueue_events pg now batch db of
        Inl e \<Rightarrow> (Inl e, db)
      | Inr (events, db1) \<Rightarrow>
          (case enqueue_upgrades now batch db1 of
             (upgrades, db2) \<Rightarrow>
               (case enqueue_backfill pg now batch db2 of
                  (Inl e, db3) \<Rightarrow> (Inl e, db3)
                | (Inr backfill, db3) \<Rightarrow> (Inr (events + upgrades + backfill), db3))))"

section \<open>Inserting is idempotent per key\<close>

abbreviation keys_of :: "webhook_db \<Rightarrow> (nat \<times> source option) set" where
  "keys_of db \<equiv> d_key ` set (db_deliveries db)"

definition delivery_keys_ok :: "webhook_db \<Rightarrow> bool" where
  "delivery_keys_ok db \<longleftrightarrow> distinct (map d_key (db_deliveries db)) \<and> distinct (map d_id (db_deliveries db))
     \<and> (\<forall>d \<in> set (db_deliveries db). d_id d < db_next_id db)"

abbreviation full_key :: "nat \<times> source \<Rightarrow> nat \<times> source option" where
  "full_key k \<equiv> (fst k, Some (snd k))"

definition extends :: "webhook_db \<Rightarrow> webhook_db \<Rightarrow> bool" where
  "extends db db' \<longleftrightarrow> (\<exists>new. db_deliveries db' = db_deliveries db @ new
     \<and> (\<forall>d \<in> set new. d_status d = Pending \<and> d_attempts d = 0 \<and> d_locked_until d = None))
     \<and> db_events db' = db_events db \<and> db_versions db' = db_versions db"

lemma extends_refl [simp]: "extends db db"
  by (simp add: extends_def)

lemma extends_trans: "extends a b \<Longrightarrow> extends b c \<Longrightarrow> extends a c"
  by (auto simp: extends_def)

lemma new_delivery_simps [simp]:
  "d_key (new_delivery now i k) = full_key k" "d_id (new_delivery now i k) = i"
  "d_status (new_delivery now i k) = Pending" "d_attempts (new_delivery now i k) = 0"
  "d_locked_until (new_delivery now i k) = None"
  by (simp_all add: new_delivery_def d_key_def)

lemma insert_delivery_cases:
  "insert_delivery now k (c, db) =
     (if full_key k \<in> keys_of db then (c, db)
      else (Suc c, db\<lparr>db_deliveries := db_deliveries db @ [new_delivery now (db_next_id db) k],
                     db_next_id := db_next_id db + 1\<rparr>))"
  by (auto simp: insert_delivery_def list_ex_iff) (metis image_eqI)

lemma insert_delivery_props:
  assumes "insert_delivery now k (c, db) = (c', db')"
  shows "delivery_keys_ok db \<Longrightarrow> delivery_keys_ok db'" "keys_of db' = insert (full_key k) (keys_of db)"
    "extends db db'" "db_subs db' = db_subs db" "db_last_seq db' = db_last_seq db"
    "db_last_upgrade_id db' = db_last_upgrade_id db"
    "length (db_deliveries db') + c = length (db_deliveries db) + c'"
  using assms unfolding insert_delivery_cases
  by (auto simp: delivery_keys_ok_def extends_def less_Suc_eq split: if_splits) (metis less_irrefl)

lemma fold_insert_delivery:
  assumes "fold (insert_delivery now) ks (c, db) = (c', db')"
  shows "delivery_keys_ok db \<Longrightarrow> delivery_keys_ok db'" "keys_of db' = full_key ` set ks \<union> keys_of db"
    "extends db db'" "db_subs db' = db_subs db" "db_last_seq db' = db_last_seq db"
    "db_last_upgrade_id db' = db_last_upgrade_id db"
    "length (db_deliveries db') + c = length (db_deliveries db) + c'"
proof -
  have "(delivery_keys_ok db \<longrightarrow> delivery_keys_ok db') \<and> keys_of db' = full_key ` set ks \<union> keys_of db
      \<and> extends db db' \<and> db_subs db' = db_subs db \<and> db_last_seq db' = db_last_seq db
      \<and> db_last_upgrade_id db' = db_last_upgrade_id db
      \<and> length (db_deliveries db') + c = length (db_deliveries db) + c'"
    using assms
  proof (induction ks arbitrary: c db)
    case (Cons k ks)
    obtain c1 db1 where one: "insert_delivery now k (c, db) = (c1, db1)" by fastforce
    with Cons.prems have "fold (insert_delivery now) ks (c1, db1) = (c', db')" by simp
    from Cons.IH [OF this] insert_delivery_props [OF one] show ?case
      by (auto intro: extends_trans)
  qed simp
  then show "delivery_keys_ok db \<Longrightarrow> delivery_keys_ok db'" "keys_of db' = full_key ` set ks \<union> keys_of db"
    "extends db db'" "db_subs db' = db_subs db" "db_last_seq db' = db_last_seq db"
    "db_last_upgrade_id db' = db_last_upgrade_id db"
    "length (db_deliveries db') + c = length (db_deliveries db) + c'"
    by blast+
qed

lemmas insert_deliveries_props = fold_insert_delivery [where c = 0, folded insert_deliveries_def]

section \<open>Selecting rows\<close>

lemma sql_all_Inr_True: "sql_all cs = Inr True \<longleftrightarrow> (\<forall>c \<in> set cs. c = Inr True)"
  by (induction cs) auto

lemma sql_all_total: "(\<And>c. c \<in> set cs \<Longrightarrow> \<exists>b. c = Inr b) \<Longrightarrow> \<exists>b. sql_all cs = Inr b"
proof (induction cs)
  case (Cons c cs)
  then obtain b b' where "c = Inr b" "sql_all cs = Inr b'" by (metis list.set_intros(1,2))
  then show ?case by (cases b) auto
qed auto

lemma select_pairs_set: "select_pairs c ps = Inr qs \<Longrightarrow> set qs = {p \<in> set ps. c p = Inr True}"
  by (induction ps arbitrary: qs) (auto split: if_splits)

lemma select_pairs_total: "(\<And>p. p \<in> set ps \<Longrightarrow> \<exists>b. c p = Inr b) \<Longrightarrow> \<exists>qs. select_pairs c ps = Inr qs"
proof (induction ps)
  case (Cons p ps)
  then obtain b qs where "c p = Inr b" "select_pairs c ps = Inr qs" by (metis list.set_intros(1,2))
  then show ?case by simp
qed simp

section \<open>Streams with a watermark\<close>

text \<open>
  What the three streams share: a mark that moves towards a bound in steps of at most the batch size,
  each step inserting exactly the keys due between the old mark and the new one. The keys inserted by
  the time the mark reaches the bound do not depend on the batch size.
\<close>

locale watermark_stream =
  fixes ok :: "'s \<Rightarrow> bool" and bound :: "'s \<Rightarrow> int" and mark :: "'s \<Rightarrow> int" and keys :: "'s \<Rightarrow> 'k set"
    and due :: "'s \<Rightarrow> int \<Rightarrow> int \<Rightarrow> 'k set" and tick :: "int \<Rightarrow> 's \<Rightarrow> 's"
  assumes tick_idle: "ok s \<Longrightarrow> bound s \<le> mark s \<Longrightarrow> mark (tick b s) = mark s \<and> keys (tick b s) = keys s"
    and tick_mark: "ok s \<Longrightarrow> mark s < bound s \<Longrightarrow> mark (tick b s) = min (mark s + b) (bound s)"
    and tick_keys: "ok s \<Longrightarrow> 0 < b \<Longrightarrow> mark s < bound s \<Longrightarrow>
      keys (tick b s) = keys s \<union> due s (mark s) (mark (tick b s))"
    and tick_stable: "ok s \<Longrightarrow> ok (tick b s) \<and> bound (tick b s) = bound s \<and> due (tick b s) = due s"
    and due_split: "x \<le> y \<Longrightarrow> y \<le> z \<Longrightarrow> due s x z = due s x y \<union> due s y z"
    and due_empty: "due s x x = {}"
begin

lemma ticks_stable:
  "ok s \<Longrightarrow> ok ((tick b ^^ n) s) \<and> bound ((tick b ^^ n) s) = bound s \<and> due ((tick b ^^ n) s) = due s"
  by (induction n) (auto simp: tick_stable)

lemma ticks_mark:
  assumes "ok s" "0 < b" "mark s \<le> bound s"
  shows "mark ((tick b ^^ n) s) = min (mark s + int n * b) (bound s)"
proof (induction n)
  case (Suc n)
  let ?t = "(tick b ^^ n) s"
  have t: "ok ?t" "bound ?t = bound s"
    using ticks_stable [OF assms(1)] by auto
  have eq: "mark s + int (Suc n) * b = mark s + int n * b + b"
    by (simp add: algebra_simps)
  show ?case
  proof (cases "mark ?t < bound s")
    case True
    with tick_mark [OF t(1), of b] t(2) Suc assms show ?thesis
      unfolding eq by (simp add: min_def split: if_splits)
  next
    case False
    with tick_idle [OF t(1), of b] t(2) Suc assms show ?thesis
      unfolding eq by (simp add: min_def split: if_splits)
  qed
qed (use assms in simp)

lemma ticks_keys:
  assumes "ok s" "0 < b" "mark s \<le> bound s"
  shows "keys ((tick b ^^ n) s) = keys s \<union> due s (mark s) (mark ((tick b ^^ n) s))"
proof (induction n)
  case 0
  show ?case by (simp add: due_empty)
next
  case (Suc n)
  let ?t = "(tick b ^^ n) s"
  have t: "ok ?t" "bound ?t = bound s" "due ?t = due s"
    using ticks_stable [OF assms(1)] by auto
  have le: "mark s \<le> mark ?t" "mark ?t \<le> mark (tick b ?t)"
    using ticks_mark [OF assms, of n] ticks_mark [OF assms, of "Suc n"] assms(2,3)
    by (auto simp: min_def algebra_simps)
  show ?case
  proof (cases "mark ?t < bound s")
    case True
    then have "keys (tick b ?t) = keys ?t \<union> due s (mark ?t) (mark (tick b ?t))"
      using tick_keys [OF t(1) assms(2)] t by simp
    with Suc due_split [OF le, of s] show ?thesis by auto
  next
    case False
    with tick_idle [OF t(1), of b] t(2) Suc show ?thesis by simp
  qed
qed

text \<open>Enough ticks reach the bound, and then every due key is there, whatever the batch size.\<close>

lemma drained:
  assumes "ok s" "0 < b" "mark s \<le> bound s" "bound s - mark s \<le> int n * b"
  shows "mark ((tick b ^^ n) s) = bound s" "keys ((tick b ^^ n) s) = keys s \<union> due s (mark s) (bound s)"
proof -
  show m: "mark ((tick b ^^ n) s) = bound s"
    using ticks_mark [OF assms(1-3), of n] assms(4) by simp
  show "keys ((tick b ^^ n) s) = keys s \<union> due s (mark s) (bound s)"
    using ticks_keys [OF assms(1-3), of n] m by simp
qed

end

section \<open>The event stream\<close>

definition events_clean :: "jsonb \<Rightarrow> webhook_db \<Rightarrow> bool" where
  "events_clean pg db \<longleftrightarrow>
     list_all (\<lambda>s. list_all (\<lambda>e. case event_matches pg s e of Inl _ \<Rightarrow> False | Inr _ \<Rightarrow> True) (db_events db)) (db_subs db)"

definition event_due :: "jsonb \<Rightarrow> webhook_db \<Rightarrow> int \<Rightarrow> int \<Rightarrow> (nat \<times> source option) set" where
  "event_due pg db lo hi =
     {(sub_id s, Some (EventSource (er_event_id e))) | s e.
        s \<in> set (db_subs db) \<and> e \<in> set (db_events db) \<and> sub_active s \<and> event_matches pg s e = Inr True
        \<and> sub_starting_seq s < er_seq e \<and> lo < er_seq e \<and> er_seq e \<le> hi}"

definition event_tick :: "jsonb \<Rightarrow> int \<Rightarrow> int \<Rightarrow> webhook_db \<Rightarrow> webhook_db" where
  "event_tick pg now batch db = (case enqueue_events pg now batch db of Inl _ \<Rightarrow> db | Inr (_, db') \<Rightarrow> db')"

abbreviation event_bound :: "webhook_db \<Rightarrow> int" where
  "event_bound db \<equiv> max_or_zero (map er_seq (db_events db))"

lemma event_window_total:
  assumes "events_clean pg db" "es \<in> set (event_pairs db)"
  shows "\<exists>b. event_window pg lo hi es = Inr b"
proof -
  obtain e s where es: "es = (e, s)" "e \<in> set (db_events db)" "s \<in> set (db_subs db)"
    using assms(2) by (auto simp: event_pairs_def)
  then obtain b where "event_matches pg s e = Inr b"
    using assms(1) by (cases "event_matches pg s e") (auto simp: events_clean_def list_all_iff split: sum.splits)
  then show ?thesis
    unfolding es(1) event_window_def prod.case by (intro sql_all_total) auto
qed

lemma event_window_True:
  "event_window pg lo hi (e, s) = Inr True \<longleftrightarrow> sub_active s \<and> event_matches pg s e = Inr True
     \<and> sub_starting_seq s < er_seq e \<and> lo < er_seq e \<and> er_seq e \<le> hi"
  by (auto simp: event_window_def sql_all_Inr_True simp del: sql_all.simps)

lemma event_due_pairs:
  "full_key ` event_target ` {es \<in> set (event_pairs db). event_window pg lo hi es = Inr True} = event_due pg db lo hi"
  by (force simp: event_due_def event_pairs_def event_target_def event_window_True image_iff)

lemma enqueue_events_Inr:
  assumes "enqueue_events pg now batch db = Inr (created, db')" "db_last_seq db < event_bound db"
  shows "delivery_keys_ok db \<Longrightarrow> delivery_keys_ok db'"
    and "keys_of db' = keys_of db \<union> event_due pg db (db_last_seq db) (db_last_seq db')"
    and "db_last_seq db' = min (db_last_seq db + batch) (event_bound db)"
    and "extends db db'" and "db_subs db' = db_subs db" and "db_last_upgrade_id db' = db_last_upgrade_id db"
    and "length (db_deliveries db') = length (db_deliveries db) + created"
proof -
  let ?hi = "min (db_last_seq db + batch) (event_bound db)"
  obtain pairs where sel: "select_pairs (event_window pg (db_last_seq db) ?hi) (event_pairs db) = Inr pairs"
    and res: "(created, db') = (fst (insert_deliveries now (map event_target pairs) db),
      (snd (insert_deliveries now (map event_target pairs) db))\<lparr>db_last_seq := ?hi\<rparr>)"
    using assms by (auto simp: enqueue_events_def Let_def case_prod_beta)
  define db1 where "db1 = snd (insert_deliveries now (map event_target pairs) db)"
  have ins: "insert_deliveries now (map event_target pairs) db = (created, db1)"
    and db': "db' = db1\<lparr>db_last_seq := ?hi\<rparr>"
    using res by (simp_all add: db1_def)
  note props = insert_deliveries_props [OF ins]
  show "delivery_keys_ok db \<Longrightarrow> delivery_keys_ok db'"
    using props(1) by (simp add: db' delivery_keys_ok_def)
  show hi: "db_last_seq db' = ?hi" by (simp add: db')
  have "full_key ` set (map event_target pairs) = event_due pg db (db_last_seq db) ?hi"
    unfolding set_map select_pairs_set [OF sel] by (rule event_due_pairs)
  then show "keys_of db' = keys_of db \<union> event_due pg db (db_last_seq db) (db_last_seq db')"
    using props(2) hi by (auto simp: db')
  show "extends db db'" "db_subs db' = db_subs db" "db_last_upgrade_id db' = db_last_upgrade_id db"
    "length (db_deliveries db') = length (db_deliveries db) + created"
    using props(3-7) by (simp_all add: db' extends_def)
qed

lemma enqueue_events_clean:
  assumes "events_clean pg db"
  shows "\<exists>created. enqueue_events pg now batch db = Inr (created, event_tick pg now batch db)"
proof -
  have "\<exists>qs. select_pairs (event_window pg lo hi) (event_pairs db) = Inr qs" for lo hi
    by (rule select_pairs_total) (rule event_window_total [OF assms])
  then obtain g where "select_pairs (event_window pg lo hi) (event_pairs db) = Inr (g lo hi)" for lo hi
    by metis
  then have "\<exists>r. enqueue_events pg now batch db = Inr r"
    by (simp add: enqueue_events_def Let_def case_prod_beta)
  then show ?thesis by (auto simp: event_tick_def)
qed

lemma event_tick_idle: "event_bound db \<le> db_last_seq db \<Longrightarrow> event_tick pg now batch db = db"
  by (simp add: event_tick_def enqueue_events_def)

lemma event_tick_stable:
  assumes "events_clean pg db"
  shows "db_events (event_tick pg now b db) = db_events db" "db_subs (event_tick pg now b db) = db_subs db"
proof -
  obtain c where c: "enqueue_events pg now b db = Inr (c, event_tick pg now b db)"
    using enqueue_events_clean [OF assms] by blast
  show "db_events (event_tick pg now b db) = db_events db" "db_subs (event_tick pg now b db) = db_subs db"
    using enqueue_events_Inr(4,5) [OF c] event_tick_idle [of db pg now b]
    by (cases "db_last_seq db < event_bound db"; simp add: extends_def)+
qed

interpretation event_stream: watermark_stream "events_clean pg" event_bound db_last_seq keys_of "event_due pg"
    "event_tick pg now" for pg now
proof
  fix s :: webhook_db and b x y z :: int
  show "event_bound s \<le> db_last_seq s \<Longrightarrow>
      db_last_seq (event_tick pg now b s) = db_last_seq s \<and> keys_of (event_tick pg now b s) = keys_of s"
    by (simp add: event_tick_idle)
  show "x \<le> y \<Longrightarrow> y \<le> z \<Longrightarrow> event_due pg s x z = event_due pg s x y \<union> event_due pg s y z"
    by (force simp: event_due_def)
  show "event_due pg s x x = {}" by (auto simp: event_due_def)
  assume ok: "events_clean pg s"
  obtain c where c: "enqueue_events pg now b s = Inr (c, event_tick pg now b s)"
    using enqueue_events_clean [OF ok] by blast
  show "db_last_seq s < event_bound s \<Longrightarrow>
      db_last_seq (event_tick pg now b s) = min (db_last_seq s + b) (event_bound s)"
    using enqueue_events_Inr(3) [OF c] .
  show "db_last_seq s < event_bound s \<Longrightarrow> keys_of (event_tick pg now b s) =
      keys_of s \<union> event_due pg s (db_last_seq s) (db_last_seq (event_tick pg now b s))"
    using enqueue_events_Inr(2) [OF c] .
  show "events_clean pg (event_tick pg now b s) \<and> event_bound (event_tick pg now b s) = event_bound s
      \<and> event_due pg (event_tick pg now b s) = event_due pg s"
    using ok by (simp add: events_clean_def event_due_def [abs_def] event_tick_stable [OF ok])
qed

section \<open>The upgrade stream\<close>

abbreviation upgrade_bound :: "webhook_db \<Rightarrow> int" where
  "upgrade_bound db \<equiv> max_or_zero (map vr_id (db_versions db))"

definition upgrade_due :: "webhook_db \<Rightarrow> int \<Rightarrow> int \<Rightarrow> (nat \<times> source option) set" where
  "upgrade_due db lo hi =
     {(sub_id s, Some (UpgradeSource (vr_id v))) | s v.
        s \<in> set (db_subs db) \<and> v \<in> set (db_versions db) \<and> upgrade_matches s v \<and> 1 < vr_version v
        \<and> lo < vr_id v \<and> vr_id v \<le> hi}"

definition upgrade_tick :: "int \<Rightarrow> int \<Rightarrow> webhook_db \<Rightarrow> webhook_db" where
  "upgrade_tick now batch db = snd (enqueue_upgrades now batch db)"

lemma upgrade_due_targets: "full_key ` set (upgrade_targets lo hi db) = upgrade_due db lo hi"
  by (force simp: upgrade_targets_def upgrade_due_def image_iff)

lemma enqueue_upgrades_props:
  assumes "enqueue_upgrades now batch db = (created, db')"
  shows "delivery_keys_ok db \<Longrightarrow> delivery_keys_ok db'"
    and "db_last_upgrade_id db < upgrade_bound db \<Longrightarrow>
      keys_of db' = keys_of db \<union> upgrade_due db (db_last_upgrade_id db) (db_last_upgrade_id db')
      \<and> db_last_upgrade_id db' = min (db_last_upgrade_id db + batch) (upgrade_bound db)"
    and "upgrade_bound db \<le> db_last_upgrade_id db \<Longrightarrow> db' = db"
    and "extends db db'" and "db_subs db' = db_subs db" and "db_last_seq db' = db_last_seq db"
    and "length (db_deliveries db') = length (db_deliveries db) + created"
proof -
  let ?hi = "min (db_last_upgrade_id db + batch) (upgrade_bound db)"
  let ?ins = "insert_deliveries now (upgrade_targets (db_last_upgrade_id db) ?hi db) db"
  define c1 db1 where "c1 = fst ?ins" and "db1 = snd ?ins"
  then have ins: "?ins = (c1, db1)" by simp
  note props = insert_deliveries_props [OF ins]
  have res: "(created, db') = (if upgrade_bound db \<le> db_last_upgrade_id db then (0, db)
      else (c1, db1\<lparr>db_last_upgrade_id := ?hi\<rparr>))"
    using assms ins by (auto simp: enqueue_upgrades_def Let_def split: if_splits)
  show "delivery_keys_ok db \<Longrightarrow> delivery_keys_ok db'"
    using props(1) res by (auto simp: delivery_keys_ok_def split: if_splits)
  show "upgrade_bound db \<le> db_last_upgrade_id db \<Longrightarrow> db' = db" using res by simp
  show "extends db db'" "db_subs db' = db_subs db" "db_last_seq db' = db_last_seq db"
    "length (db_deliveries db') = length (db_deliveries db) + created"
    using props(3-7) res by (auto simp: extends_def split: if_splits)
  show "db_last_upgrade_id db < upgrade_bound db \<Longrightarrow>
      keys_of db' = keys_of db \<union> upgrade_due db (db_last_upgrade_id db) (db_last_upgrade_id db')
      \<and> db_last_upgrade_id db' = ?hi"
    using res props(2) upgrade_due_targets by auto
qed

interpretation upgrade_stream: watermark_stream "\<lambda>_. True" upgrade_bound db_last_upgrade_id keys_of upgrade_due
    "upgrade_tick now" for now
proof
  fix s :: webhook_db and b x y z :: int
  obtain c where c: "enqueue_upgrades now b s = (c, upgrade_tick now b s)"
    by (metis prod.collapse upgrade_tick_def)
  note props = enqueue_upgrades_props [OF c]
  show "upgrade_bound s \<le> db_last_upgrade_id s \<Longrightarrow>
      db_last_upgrade_id (upgrade_tick now b s) = db_last_upgrade_id s \<and> keys_of (upgrade_tick now b s) = keys_of s"
    using props(3) by simp
  show "x \<le> y \<Longrightarrow> y \<le> z \<Longrightarrow> upgrade_due s x z = upgrade_due s x y \<union> upgrade_due s y z"
    by (force simp: upgrade_due_def)
  show "upgrade_due s x x = {}" by (auto simp: upgrade_due_def)
  show "db_last_upgrade_id s < upgrade_bound s \<Longrightarrow>
      db_last_upgrade_id (upgrade_tick now b s) = min (db_last_upgrade_id s + b) (upgrade_bound s)"
    "db_last_upgrade_id s < upgrade_bound s \<Longrightarrow> keys_of (upgrade_tick now b s) =
      keys_of s \<union> upgrade_due s (db_last_upgrade_id s) (db_last_upgrade_id (upgrade_tick now b s))"
    using props(2) by blast+
  show "True \<and> upgrade_bound (upgrade_tick now b s) = upgrade_bound s
      \<and> upgrade_due (upgrade_tick now b s) = upgrade_due s"
    using props(4,5) by (simp add: upgrade_due_def [abs_def] extends_def)
qed

section \<open>The backfill of one subscription\<close>

definition the_sub :: "nat \<Rightarrow> webhook_db \<Rightarrow> subscription" where
  "the_sub i db = the (find (\<lambda>s. sub_id s = i) (db_subs db))"

definition backfill_mark :: "nat \<Rightarrow> webhook_db \<Rightarrow> int" where
  "backfill_mark i db = (case sub_backfill_seq (the_sub i db) of
     Some b \<Rightarrow> min b (sub_starting_seq (the_sub i db)) | None \<Rightarrow> sub_starting_seq (the_sub i db))"

definition backfill_due :: "jsonb \<Rightarrow> nat \<Rightarrow> webhook_db \<Rightarrow> int \<Rightarrow> int \<Rightarrow> (nat \<times> source option) set" where
  "backfill_due pg i db lo hi =
     {(i, Some (EventSource (er_event_id e))) | e. e \<in> set (db_events db)
        \<and> event_matches pg (the_sub i db) e = Inr True \<and> lo < er_seq e \<and> er_seq e \<le> hi}"

definition backfill_ok :: "jsonb \<Rightarrow> nat \<Rightarrow> webhook_db \<Rightarrow> bool" where
  "backfill_ok pg i db \<longleftrightarrow> events_clean pg db \<and> distinct (map sub_id (db_subs db))
     \<and> i \<in> sub_id ` set (db_subs db) \<and> sub_active (the_sub i db)"

definition backfill_tick :: "jsonb \<Rightarrow> int \<Rightarrow> nat \<Rightarrow> int \<Rightarrow> webhook_db \<Rightarrow> webhook_db" where
  "backfill_tick pg now i batch db =
     snd (backfill_loop pg now batch (filter (\<lambda>r. fst r = i) (backfill_rows db)) 0 db)"

lemma find_unique:
  assumes "distinct (map f xs)" "x \<in> set xs"
  shows "find (\<lambda>y. f y = f x) xs = Some x"
  using assms by (induction xs) (auto simp: image_iff)

lemma the_sub_unique: "distinct (map sub_id (db_subs db)) \<Longrightarrow> s \<in> set (db_subs db) \<Longrightarrow> the_sub (sub_id s) db = s"
  by (simp add: the_sub_def find_unique)

lemma the_sub_in:
  assumes "distinct (map sub_id (db_subs db))" "i \<in> sub_id ` set (db_subs db)"
  shows "the_sub i db \<in> set (db_subs db)" "sub_id (the_sub i db) = i"
  using assms the_sub_unique by fastforce+

lemma event_matches_backfill [simp]: "event_matches pg (s\<lparr>sub_backfill_seq := v\<rparr>) e = event_matches pg s e"
  by (simp add: event_matches_def)

lemma set_backfill_simps [simp]:
  "db_deliveries (set_backfill i v db) = db_deliveries db" "db_events (set_backfill i v db) = db_events db"
  "db_versions (set_backfill i v db) = db_versions db" "db_last_seq (set_backfill i v db) = db_last_seq db"
  "db_next_id (set_backfill i v db) = db_next_id db" "map sub_id (db_subs (set_backfill i v db)) = map sub_id (db_subs db)"
  by (simp_all add: set_backfill_def)

lemma set_backfill_ids [simp]: "sub_id ` set (db_subs (set_backfill i v db)) = sub_id ` set (db_subs db)"
  by (metis list.set_map set_backfill_simps(6))

lemma the_sub_set_backfill:
  assumes "j \<in> sub_id ` set (db_subs db)"
  shows "the_sub j (set_backfill i v db) =
    (if j = i then (the_sub j db)\<lparr>sub_backfill_seq := v\<rparr> else the_sub j db)"
proof -
  have "find (\<lambda>s. sub_id s = j) (map (\<lambda>s. if sub_id s = i then s\<lparr>sub_backfill_seq := v\<rparr> else s) xs)
      = map_option (\<lambda>s. if sub_id s = i then s\<lparr>sub_backfill_seq := v\<rparr> else s) (find (\<lambda>s. sub_id s = j) xs)" for xs
    by (induction xs) auto
  note upd = this
  obtain s where s: "find (\<lambda>s. sub_id s = j) (db_subs db) = Some s" "sub_id s = j"
    using assms by (cases "find (\<lambda>s. sub_id s = j) (db_subs db)") (auto simp: find_None_iff dest!: find_SomeD)
  have "find (\<lambda>s. sub_id s = j) (db_subs (set_backfill i v db))
      = Some (if sub_id s = i then s\<lparr>sub_backfill_seq := v\<rparr> else s)"
    unfolding set_backfill_def using upd [of "db_subs db"] s(1) by simp
  with s show ?thesis
    by (auto simp: the_sub_def)
qed

lemma events_clean_set_backfill [simp]: "events_clean pg (set_backfill i v db) = events_clean pg db"
proof -
  have "event_matches pg (if sub_id s = i then s\<lparr>sub_backfill_seq := v\<rparr> else s) e = event_matches pg s e" for s e
    by simp
  then show ?thesis
    by (simp add: events_clean_def set_backfill_def list.pred_map comp_def del: event_matches_backfill)
qed

lemma backfill_rows_one:
  assumes "distinct (map sub_id (db_subs db))" "i \<in> sub_id ` set (db_subs db)" "sub_active (the_sub i db)"
  shows "filter (\<lambda>r. fst r = i) (backfill_rows db) =
    (case sub_backfill_seq (the_sub i db) of
       None \<Rightarrow> [] | Some b \<Rightarrow> [(i, b, sub_starting_seq (the_sub i db))])"
proof -
  let ?row = "\<lambda>s. case sub_backfill_seq s of
      Some b \<Rightarrow> if sub_active s then Some (sub_id s, b, sub_starting_seq s) else None | None \<Rightarrow> None"
  have "filter (\<lambda>r. fst r = i) (List.map_filter ?row xs) =
      (case find (\<lambda>s. sub_id s = i) xs of None \<Rightarrow> [] | Some s \<Rightarrow> (case ?row s of None \<Rightarrow> [] | Some r \<Rightarrow> [r]))"
    if "distinct (map sub_id xs)" for xs
    using that
  proof (induction xs)
    case (Cons s xs)
    have "find (\<lambda>s. sub_id s = i) xs = None" if "sub_id s = i"
      using Cons.prems that unfolding find_None_iff by simp (metis image_eqI)
    with Cons show ?case
      by (auto simp: List.map_filter_simps split: option.splits if_splits)
  qed (simp add: List.map_filter_simps)
  note rows = this [OF assms(1)]
  obtain s where s: "find (\<lambda>s. sub_id s = i) (db_subs db) = Some s" "the_sub i db = s" "sub_id s = i"
    using assms(2) by (cases "find (\<lambda>s. sub_id s = i) (db_subs db)")
      (auto simp: find_None_iff the_sub_def dest!: find_SomeD)
  show ?thesis
    unfolding backfill_rows_def rows s(1,2) using s assms(3) by (simp split: option.splits)
qed

lemma backfill_window_total:
  assumes "events_clean pg db" "es \<in> set (event_pairs db)"
  shows "\<exists>b. backfill_window pg i lo hi es = Inr b"
proof -
  obtain e s where es: "es = (e, s)" "e \<in> set (db_events db)" "s \<in> set (db_subs db)"
    using assms(2) by (auto simp: event_pairs_def)
  then obtain b where "event_matches pg s e = Inr b"
    using assms(1) by (cases "event_matches pg s e") (auto simp: events_clean_def list_all_iff split: sum.splits)
  then show ?thesis
    unfolding es(1) backfill_window_def prod.case by (intro sql_all_total) auto
qed

lemma backfill_window_True:
  "backfill_window pg i lo hi (e, s) = Inr True \<longleftrightarrow> sub_id s = i \<and> event_matches pg s e = Inr True
     \<and> lo < er_seq e \<and> er_seq e \<le> hi"
  by (auto simp: backfill_window_def sql_all_Inr_True simp del: sql_all.simps)

lemma backfill_due_pairs:
  assumes "backfill_ok pg i db"
  shows "full_key ` event_target ` {es \<in> set (event_pairs db). backfill_window pg i lo hi es = Inr True}
    = backfill_due pg i db lo hi"
proof -
  let ?s = "the_sub i db"
  have uniq: "s = ?s" if "s \<in> set (db_subs db)" "sub_id s = i" for s
    using assms that the_sub_unique [of db s] by (auto simp: backfill_ok_def)
  have s: "?s \<in> set (db_subs db)" "sub_id ?s = i"
    using assms the_sub_in [of db i] by (auto simp: backfill_ok_def)
  have "{es \<in> set (event_pairs db). backfill_window pg i lo hi es = Inr True} =
      (\<lambda>e. (e, ?s)) ` {e \<in> set (db_events db). event_matches pg ?s e = Inr True \<and> lo < er_seq e \<and> er_seq e \<le> hi}"
  proof (intro set_eqI iffI)
    fix es
    assume "es \<in> {es \<in> set (event_pairs db). backfill_window pg i lo hi es = Inr True}"
    then obtain e s' where "es = (e, s')" "e \<in> set (db_events db)" "s' \<in> set (db_subs db)"
      "backfill_window pg i lo hi (e, s') = Inr True"
      by (cases es) (auto simp: event_pairs_def)
    with uniq [of s'] show "es \<in> (\<lambda>e. (e, ?s)) ` {e \<in> set (db_events db).
        event_matches pg ?s e = Inr True \<and> lo < er_seq e \<and> er_seq e \<le> hi}"
      by (simp add: backfill_window_True)
  qed (use s in \<open>auto simp: event_pairs_def backfill_window_True\<close>)
  then show ?thesis
    using s(2) by (simp add: image_image event_target_def backfill_due_def) blast
qed

lemma backfill_sub_ok:
  assumes "backfill_ok pg i db" "b < st"
  obtains created db1 where "backfill_sub pg now batch (i, b, st) db =
      Inr (created, set_backfill i (if min (b + batch) st \<ge> st then None else Some (min (b + batch) st)) db1)"
    "keys_of db1 = keys_of db \<union> backfill_due pg i db b (min (b + batch) st)"
    "extends db db1" "db_subs db1 = db_subs db" "delivery_keys_ok db \<Longrightarrow> delivery_keys_ok db1"
proof -
  let ?hi = "min (b + batch) st"
  obtain pairs where sel: "select_pairs (backfill_window pg i b ?hi) (event_pairs db) = Inr pairs"
    using select_pairs_total [of "event_pairs db" "backfill_window pg i b ?hi"]
      backfill_window_total [of pg db _ i b ?hi] assms(1) by (auto simp: backfill_ok_def)
  define c1 db1 where "c1 = fst (insert_deliveries now (map event_target pairs) db)"
    and "db1 = snd (insert_deliveries now (map event_target pairs) db)"
  then have ins: "insert_deliveries now (map event_target pairs) db = (c1, db1)" by simp
  note props = insert_deliveries_props [OF ins]
  have keys: "keys_of db1 = keys_of db \<union> backfill_due pg i db b ?hi"
    using props(2) backfill_due_pairs [OF assms(1)] select_pairs_set [OF sel] by auto
  have res: "backfill_sub pg now batch (i, b, st) db =
      Inr (c1, set_backfill i (if ?hi \<ge> st then None else Some ?hi) db1)"
    using assms(2) sel ins by (simp add: backfill_sub_def)
  show ?thesis
    by (rule that [OF res keys props(3,4,1)])
qed

lemma extends_due: "extends db db' \<Longrightarrow> db_subs db' = db_subs db \<Longrightarrow> backfill_due pg i db' = backfill_due pg i db"
  by (simp add: backfill_due_def [abs_def] the_sub_def extends_def)

lemma backfill_tick_step:
  fixes batch :: int
  assumes ok: "backfill_ok pg i db" and b: "sub_backfill_seq (the_sub i db) = Some b" "b < sub_starting_seq (the_sub i db)"
  defines "st \<equiv> sub_starting_seq (the_sub i db)"
  defines "hi \<equiv> min (b + batch) st"
  obtains db1 where "backfill_tick pg now i batch db = set_backfill i (if hi \<ge> st then None else Some hi) db1"
    "keys_of db1 = keys_of db \<union> backfill_due pg i db b hi" "extends db db1" "db_subs db1 = db_subs db"
    "delivery_keys_ok db \<Longrightarrow> delivery_keys_ok db1"
proof -
  obtain c db1 where "backfill_sub pg now batch (i, b, st) db = Inr (c, set_backfill i (if hi \<ge> st then None else Some hi) db1)"
    and db1: "keys_of db1 = keys_of db \<union> backfill_due pg i db b hi" "extends db db1" "db_subs db1 = db_subs db"
    "delivery_keys_ok db \<Longrightarrow> delivery_keys_ok db1"
    unfolding hi_def using backfill_sub_ok [OF ok b(2), folded st_def] by metis
  then have "backfill_tick pg now i batch db = set_backfill i (if hi \<ge> st then None else Some hi) db1"
    using ok b by (simp add: backfill_tick_def backfill_rows_one backfill_ok_def st_def)
  then show ?thesis using db1 that by blast
qed

lemma backfill_tick_idle:
  assumes "backfill_ok pg i db" "sub_starting_seq (the_sub i db) \<le> backfill_mark i db"
  shows "backfill_tick pg now i batch db = db \<or> backfill_tick pg now i batch db = set_backfill i None db"
  using assms by (auto simp: backfill_tick_def backfill_rows_one backfill_ok_def backfill_mark_def backfill_sub_def
      split: option.splits)

lemma backfill_tick_frame:
  assumes ok: "backfill_ok pg i db"
  obtains v db1 where "backfill_tick pg now i b db = set_backfill i v db1" "extends db db1" "db_subs db1 = db_subs db"
    | "backfill_tick pg now i b db = db"
proof (cases "sub_starting_seq (the_sub i db) \<le> backfill_mark i db")
  case True
  from backfill_tick_idle [OF ok True, of now b] that(2) that(1) [of None db] show ?thesis by auto
next
  case False
  then obtain x where "sub_backfill_seq (the_sub i db) = Some x" "x < sub_starting_seq (the_sub i db)"
    by (auto simp: backfill_mark_def split: option.splits)
  from backfill_tick_step [OF ok this, of now b] that(1) show ?thesis by metis
qed

lemma backfill_tick_stable:
  assumes ok: "backfill_ok pg i db"
  shows "backfill_ok pg i (backfill_tick pg now i b db)"
    "sub_starting_seq (the_sub i (backfill_tick pg now i b db)) = sub_starting_seq (the_sub i db)"
    "backfill_due pg i (backfill_tick pg now i b db) = backfill_due pg i db"
proof -
  have "backfill_ok pg i db' \<and> sub_starting_seq (the_sub i db') = sub_starting_seq (the_sub i db)
      \<and> backfill_due pg i db' = backfill_due pg i db" if "db' = backfill_tick pg now i b db" for db'
    using ok
  proof (cases rule: backfill_tick_frame [of pg i db now b])
    case (1 v db1)
    then have same: "the_sub i db1 = the_sub i db" "db_events db1 = db_events db" "events_clean pg db1 = events_clean pg db"
      by (simp_all add: the_sub_def extends_def events_clean_def)
    have "i \<in> sub_id ` set (db_subs db1)" using ok 1 by (simp add: backfill_ok_def)
    with 1 ok same that show ?thesis
      by (simp add: backfill_ok_def the_sub_set_backfill backfill_due_def [abs_def])
  qed (use ok that in simp_all)
  then show "backfill_ok pg i (backfill_tick pg now i b db)"
    "sub_starting_seq (the_sub i (backfill_tick pg now i b db)) = sub_starting_seq (the_sub i db)"
    "backfill_due pg i (backfill_tick pg now i b db) = backfill_due pg i db"
    by blast+
qed

lemma backfill_tick_moves:
  assumes ok: "backfill_ok pg i db" and lt: "backfill_mark i db < sub_starting_seq (the_sub i db)"
  shows "backfill_mark i (backfill_tick pg now i b db) = min (backfill_mark i db + b) (sub_starting_seq (the_sub i db))"
    "keys_of (backfill_tick pg now i b db) =
       keys_of db \<union> backfill_due pg i db (backfill_mark i db) (backfill_mark i (backfill_tick pg now i b db))"
proof -
  obtain x where x: "sub_backfill_seq (the_sub i db) = Some x" "x < sub_starting_seq (the_sub i db)"
    using lt by (auto simp: backfill_mark_def split: option.splits)
  then have mark: "backfill_mark i db = x" by (simp add: backfill_mark_def)
  define hi where "hi = min (x + b) (sub_starting_seq (the_sub i db))"
  obtain db1 where db1: "backfill_tick pg now i b db =
        set_backfill i (if hi \<ge> sub_starting_seq (the_sub i db) then None else Some hi) db1"
    "keys_of db1 = keys_of db \<union> backfill_due pg i db x hi" "db_subs db1 = db_subs db"
    unfolding hi_def using backfill_tick_step [OF ok x, of now b] by metis
  have "i \<in> sub_id ` set (db_subs db1)" using ok db1 by (simp add: backfill_ok_def)
  moreover have "the_sub i db1 = the_sub i db" using db1(3) by (simp add: the_sub_def)
  ultimately have m: "backfill_mark i (backfill_tick pg now i b db) = hi"
    unfolding db1(1) by (auto simp: backfill_mark_def the_sub_set_backfill hi_def)
  show "backfill_mark i (backfill_tick pg now i b db) = min (backfill_mark i db + b) (sub_starting_seq (the_sub i db))"
    using m mark by (simp add: hi_def)
  show "keys_of (backfill_tick pg now i b db) =
      keys_of db \<union> backfill_due pg i db (backfill_mark i db) (backfill_mark i (backfill_tick pg now i b db))"
    unfolding m mark using db1(1,2) by simp
qed

interpretation backfill_stream: watermark_stream "backfill_ok pg i" "\<lambda>db. sub_starting_seq (the_sub i db)"
    "backfill_mark i" keys_of "backfill_due pg i" "backfill_tick pg now i" for pg now i
proof
  fix s :: webhook_db and b x y z :: int
  show "x \<le> y \<Longrightarrow> y \<le> z \<Longrightarrow> backfill_due pg i s x z = backfill_due pg i s x y \<union> backfill_due pg i s y z"
    by (force simp: backfill_due_def)
  show "backfill_due pg i s x x = {}" by (auto simp: backfill_due_def)
  assume ok: "backfill_ok pg i s"
  show "backfill_ok pg i (backfill_tick pg now i b s)
      \<and> sub_starting_seq (the_sub i (backfill_tick pg now i b s)) = sub_starting_seq (the_sub i s)
      \<and> backfill_due pg i (backfill_tick pg now i b s) = backfill_due pg i s"
    using backfill_tick_stable [OF ok] by blast
  have "i \<in> sub_id ` set (db_subs s)" using ok by (simp add: backfill_ok_def)
  then show "sub_starting_seq (the_sub i s) \<le> backfill_mark i s \<Longrightarrow>
      backfill_mark i (backfill_tick pg now i b s) = backfill_mark i s \<and> keys_of (backfill_tick pg now i b s) = keys_of s"
    using backfill_tick_idle [OF ok, of now b]
    by (auto simp: backfill_mark_def the_sub_set_backfill split: option.splits)
  assume lt: "backfill_mark i s < sub_starting_seq (the_sub i s)"
  show "backfill_mark i (backfill_tick pg now i b s) = min (backfill_mark i s + b) (sub_starting_seq (the_sub i s))"
    "keys_of (backfill_tick pg now i b s) =
      keys_of s \<union> backfill_due pg i s (backfill_mark i s) (backfill_mark i (backfill_tick pg now i b s))"
    using backfill_tick_moves [OF ok lt] by blast+
qed

section \<open>Properties\<close>

lemma enqueue_events_frame:
  assumes "enqueue_events pg now batch db = Inr (created, db')"
  shows "delivery_keys_ok db \<Longrightarrow> delivery_keys_ok db'" "extends db db'" "db_subs db' = db_subs db"
    "db_last_upgrade_id db' = db_last_upgrade_id db"
    "length (db_deliveries db') = length (db_deliveries db) + created"
    "0 \<le> batch \<Longrightarrow> db_last_seq db \<le> db_last_seq db' \<and> db_last_seq db' \<le> max (db_last_seq db) (event_bound db)"
proof -
  have "(delivery_keys_ok db \<longrightarrow> delivery_keys_ok db') \<and> extends db db' \<and> db_subs db' = db_subs db
      \<and> db_last_upgrade_id db' = db_last_upgrade_id db
      \<and> length (db_deliveries db') = length (db_deliveries db) + created
      \<and> (0 \<le> batch \<longrightarrow> db_last_seq db \<le> db_last_seq db' \<and> db_last_seq db' \<le> max (db_last_seq db) (event_bound db))"
  proof (cases "db_last_seq db < event_bound db")
    case True
    then show ?thesis using enqueue_events_Inr [OF assms True] by auto
  next
    case False
    with assms have "db' = db" "created = 0" by (auto simp: enqueue_events_def)
    then show ?thesis by simp
  qed
  then show "delivery_keys_ok db \<Longrightarrow> delivery_keys_ok db'" "extends db db'" "db_subs db' = db_subs db"
    "db_last_upgrade_id db' = db_last_upgrade_id db"
    "length (db_deliveries db') = length (db_deliveries db) + created"
    "0 \<le> batch \<Longrightarrow> db_last_seq db \<le> db_last_seq db' \<and> db_last_seq db' \<le> max (db_last_seq db) (event_bound db)"
    by blast+
qed

lemma backfill_sub_frame:
  assumes "backfill_sub pg now batch r db = Inr (created, db')"
  shows "(delivery_keys_ok db \<longrightarrow> delivery_keys_ok db') \<and> extends db db' \<and> db_last_seq db' = db_last_seq db
    \<and> length (db_deliveries db') = length (db_deliveries db) + created"
proof -
  obtain i b st where r: "r = (i, b, st)" by (cases r)
  show ?thesis
  proof (cases "st \<le> b")
    case True
    with assms r show ?thesis
      by (auto simp: backfill_sub_def extends_def delivery_keys_ok_def)
  next
    case False
    let ?ins = "\<lambda>pairs. insert_deliveries now (map event_target pairs) db"
    obtain pairs v where "created = fst (?ins pairs)" "db' = set_backfill i v (snd (?ins pairs))"
      using assms r False by (auto simp: backfill_sub_def Let_def case_prod_beta)
    then show ?thesis
      using insert_deliveries_props [of now "map event_target pairs" db created "snd (?ins pairs)"]
      by (auto simp: extends_def delivery_keys_ok_def)
  qed
qed

lemma backfill_loop_frame:
  "backfill_loop pg now batch rs acc db = (r, db') \<Longrightarrow>
     (delivery_keys_ok db \<longrightarrow> delivery_keys_ok db') \<and> extends db db' \<and> db_last_seq db' = db_last_seq db
     \<and> (\<forall>n. r = Inr n \<longrightarrow> length (db_deliveries db') + acc = length (db_deliveries db) + n)"
proof (induction rs arbitrary: acc db)
  case (Cons row rs)
  show ?case
  proof (cases "backfill_sub pg now batch row db")
    case (Inr cd)
    then obtain c db1 where c: "backfill_sub pg now batch row db = Inr (c, db1)" by (cases cd) simp
    from Cons.IH [of "acc + c" db1] Cons.prems c backfill_sub_frame [OF c] show ?thesis
      by (auto intro: extends_trans)
  qed (use Cons.prems in auto)
qed auto

lemma enqueue_frame:
  assumes "delivery_keys_ok db" "0 \<le> batch" "enqueue pg now batch db = (r, db')"
  shows "delivery_keys_ok db' \<and> extends db db'
    \<and> db_last_seq db \<le> db_last_seq db' \<and> db_last_seq db' \<le> max (db_last_seq db) (event_bound db)
    \<and> (\<forall>n. r = Inr n \<longrightarrow> length (db_deliveries db') = length (db_deliveries db) + n)"
proof (cases "enqueue_events pg now batch db")
  case (Inl e)
  with assms show ?thesis by (auto simp: enqueue_def)
next
  case (Inr ev)
  then obtain c1 db1 where ev: "enqueue_events pg now batch db = Inr (c1, db1)" by (cases ev) simp
  obtain c2 db2 where up: "enqueue_upgrades now batch db1 = (c2, db2)" by fastforce
  obtain r3 db3 where bf: "enqueue_backfill pg now batch db2 = (r3, db3)" by fastforce
  have db': "db' = db3" and r: "\<And>n. r = Inr n \<Longrightarrow> \<exists>c3. r3 = Inr c3 \<and> n = c1 + c2 + c3"
    using assms(3) ev up bf by (auto simp: enqueue_def split: sum.splits)
  note f1 = enqueue_events_frame [OF ev] and f2 = enqueue_upgrades_props [OF up]
    and f3 = backfill_loop_frame [OF bf [unfolded enqueue_backfill_def]]
  have "extends db db3"
    using f1(2) f2(4) f3 extends_trans by blast
  moreover have "db_last_seq db \<le> db_last_seq db3 \<and> db_last_seq db3 \<le> max (db_last_seq db) (event_bound db)"
    using f1(6) [OF assms(2)] f2(6) f3 by simp
  ultimately show ?thesis
    using assms(1) f1(1,5) f2(1,7) f3 unfolding db' by (auto dest!: r)
qed


lemma event_ticks_keys_ok:
  assumes "events_clean pg db" "delivery_keys_ok db"
  shows "delivery_keys_ok ((event_tick pg now b ^^ n) db)"
proof (induction n)
  case (Suc n)
  let ?t = "(event_tick pg now b ^^ n) db"
  have "events_clean pg ?t" using event_stream.ticks_stable [OF assms(1)] by blast
  then obtain c where "enqueue_events pg now b ?t = Inr (c, event_tick pg now b ?t)"
    using enqueue_events_clean by blast
  with Suc show ?case using enqueue_events_frame(1) by simp
qed (use assms in simp)

text \<open>
  Claim C17. The event stream delivers every matching event exactly once, whatever the batch size.
  After enough ticks the watermark is the newest sequence number and the queue holds, beside what it
  held, one delivery for each event above the old watermark and each active subscription it matches
  and that starts before it: the result a single pass over the whole table would give.
\<close>

theorem event_stream_exactly_once:
  assumes "events_clean pg db" "delivery_keys_ok db" "0 < batch" "db_last_seq db \<le> event_bound db"
    "event_bound db - db_last_seq db \<le> int n * batch"
  shows "let db' = (event_tick pg now batch ^^ n) db in
    db_last_seq db' = event_bound db \<and> delivery_keys_ok db'
    \<and> keys_of db' = keys_of db \<union> event_due pg db (db_last_seq db) (event_bound db)"
  using event_stream.drained [OF assms(1,3,4,5)] event_ticks_keys_ok [OF assms(1,2)] by (simp add: Let_def)


text \<open>A database with one subscriber to every event and two events; containment is inclusion.\<close>

definition sample_jsonb :: jsonb where
  "sample_jsonb = \<lparr>
     jb_contains = (\<lambda>a b. case (a, b) of (Array xs, Array ys) \<Rightarrow> list_all (\<lambda>y. y \<in> set xs) ys | _ \<Rightarrow> a = b),
     jb_cast = (\<lambda>t. if t = ''1'' then Some (Number (PosInt 1)) else None),
     jb_has_key = (\<lambda>f k. jget k f \<noteq> None),
     jb_text = (\<lambda>f k. Option.bind (jget k f) as_str), jb_get = (\<lambda>f k. jget k f)\<rparr>"

definition sample_event_row :: "string \<Rightarrow> int \<Rightarrow> event_row" where
  "sample_event_row i n = \<lparr>er_event_id = i, er_seq = n, er_contract_id = ''C'', er_event_name = Some ''transfer'',
     er_decoded_topics = Array [Str ''transfer'', Str ''G''], er_enriched = None\<rparr>"

definition sample_sub :: "json option \<Rightarrow> int option \<Rightarrow> int \<Rightarrow> subscription" where
  "sample_sub flt b st = \<lparr>sub_id = 1, sub_active = True, sub_kind = ''event'', sub_contract_id = None,
     sub_event_name = None, sub_contract_ids = [], sub_event_names = [], sub_filter = flt, sub_starting_seq = st,
     sub_backfill_seq = b, sub_consecutive_failures = 0, sub_last_success_at = None, sub_first_failure_at = None,
     sub_auto_disabled_at = None, sub_auto_disabled_reason = None\<rparr>"

definition sample_db :: "subscription \<Rightarrow> webhook_db" where
  "sample_db s = \<lparr>db_events = [sample_event_row ''a'' 1, sample_event_row ''b'' 3], db_versions = [], db_subs = [s],
     db_deliveries = [], db_next_id = 0, db_last_seq = 0, db_last_upgrade_id = 0\<rparr>"

lemmas sample_db_defs = sample_db_def sample_sub_def sample_event_row_def

lemma sample_db_ok:
  "delivery_keys_ok (sample_db s)" "event_bound (sample_db s) = 3" "db_last_seq (sample_db s) = 0"
  "events_clean pg (sample_db (sample_sub None b st))"
  by (simp_all add: sample_db_defs delivery_keys_ok_def max_or_zero_def events_clean_def event_matches_def
      filter_cond_def selects_def)


theorem event_stream_exactly_once_witness:
  "db_last_seq ((event_tick sample_jsonb 5 1 ^^ 3) (sample_db (sample_sub None None 0))) = 3
   \<and> (1, Some (EventSource ''b'')) \<in> keys_of ((event_tick sample_jsonb 5 1 ^^ 3) (sample_db (sample_sub None None 0)))"
proof -
  let ?db = "sample_db (sample_sub None None 0)"
  have "(1, Some (EventSource ''b'')) \<in> event_due sample_jsonb ?db 0 3"
    unfolding event_due_def sample_db_def
    by (auto simp: sample_sub_def event_matches_def filter_cond_def selects_def
        intro!: exI [of _ "sample_event_row ''b'' 3"]) (simp_all add: sample_event_row_def)
  then show ?thesis
    using event_stream_exactly_once [OF sample_db_ok(4,1), where batch = 1 and n = 3] sample_db_ok(2,3)
    by (simp add: Let_def)
qed

lemma sample_backfill_ok: "backfill_ok sample_jsonb 1 (sample_db (sample_sub None (Some 0) 2))"
  unfolding backfill_ok_def using sample_db_ok(4) [of sample_jsonb "Some 0" 2]
  by (simp add: sample_db_def the_sub_def) (simp add: sample_sub_def)


text \<open>
  A filter on the second, third or fourth topic matches no event whose topics are all
  non-null: the statement asks the decoded topics to contain an array with a null at each earlier
  position, and array containment disregards positions.
\<close>

theorem later_topic_filter_matches_nothing:
  assumes "\<And>a b. jb_contains pg (Array a) (Array b) \<Longrightarrow> Null \<in> set b \<Longrightarrow> Null \<in> set a"
    and "sub_filter s = Some f" "f \<noteq> Object []" "i \<in> {1, 2, 3}" "jb_has_key pg f (topic_key i)"
    and "er_decoded_topics e = Array ts" "Null \<notin> set ts"
  shows "event_matches pg s e \<noteq> Inr True"
proof
  assume "event_matches pg s e = Inr True"
  then have "filter_cond pg (Some f) e = Inr True"
    using assms(2) by (simp add: event_matches_def sql_all_Inr_True del: sql_all.simps)
  then have "topic_cond pg f i (Array ts) = Inr True"
    using assms(3,4,6) by (auto simp: filter_cond_def sql_all_Inr_True simp del: sql_all.simps)
  then obtain j where "jb_contains pg (Array ts) (Array (replicate i Null @ [j]))"
    using assms(5) by (auto simp: topic_cond_def split: option.splits)
  moreover have "Null \<in> set (replicate i Null @ [j])" using assms(4) by auto
  ultimately show False using assms(1,7) by blast
qed

theorem later_topic_filter_matches_nothing_witness:
  "event_matches sample_jsonb (sample_sub (Some (Object [(''topic1'', Str ''1'')])) None 0) (sample_event_row ''a'' 1)
     \<noteq> Inr True"
  by (rule later_topic_filter_matches_nothing [where f = "Object [(''topic1'', Str ''1'')]" and i = 1
        and ts = "[Str ''transfer'', Str ''G'']"])
    (auto simp: sample_jsonb_def sample_sub_def sample_event_row_def topic_key_def list_all_iff)

lemma select_pairs_Inl: "p \<in> set ps \<Longrightarrow> c p = Inl e \<Longrightarrow> \<exists>e'. select_pairs c ps = Inl e'"
proof (induction ps)
  case (Cons q ps)
  show ?case
  proof (cases "c q")
    case (Inr b)
    with Cons have "\<exists>e'. select_pairs c ps = Inl e'" by auto
    with Inr show ?thesis by auto
  qed simp
qed simp

text \<open>
  One subscription can stop the whole stage: while an active subscription filters the first
  topic by a text that is not itself JSON, and an event in the current window reaches that condition,
  every tick fails, no row is added and no watermark moves, for any subscription, event or upgrade.
\<close>

theorem bad_topic_filter_stops_enqueue:
  assumes "s \<in> set (db_subs db)" "sub_active s" "sub_kind s = ''event''" "sub_filter s = Some f" "f \<noteq> Object []"
    and "\<not> jb_has_key pg f ''contract_id''" "\<not> jb_has_key pg f ''event_name''"
    and "jb_has_key pg f ''topic0''" "jb_text pg f ''topic0'' = Some t" "jb_cast pg t = None"
    and "e \<in> set (db_events db)" "selects (sub_contract_id s) (sub_contract_ids s) (Some (er_contract_id e))"
    and "selects (sub_event_name s) (sub_event_names s) (er_event_name e)"
    and "max (sub_starting_seq s) (db_last_seq db) < er_seq e"
    and "er_seq e \<le> min (db_last_seq db + batch) (event_bound db)"
  shows "\<exists>err. enqueue pg now batch db = (Inl err, db)"
proof -
  have "topic_key 0 = ''topic0''" by (simp add: topic_key_def)
  then have "event_matches pg s e = Inl (InvalidJsonText t)"
    using assms by (simp add: event_matches_def filter_cond_def text_cond_def topic_cond_def)
  then have "event_window pg (db_last_seq db) (min (db_last_seq db + batch) (event_bound db)) (e, s)
      = Inl (InvalidJsonText t)"
    using assms by (simp add: event_window_def)
  moreover have "(e, s) \<in> set (event_pairs db)" using assms by (simp add: event_pairs_def)
  ultimately obtain err where
    "select_pairs (event_window pg (db_last_seq db) (min (db_last_seq db + batch) (event_bound db))) (event_pairs db)
      = Inl err"
    using select_pairs_Inl by metis
  moreover have "\<not> event_bound db \<le> db_last_seq db" using assms by simp
  ultimately show ?thesis by (simp add: enqueue_def enqueue_events_def Let_def)
qed

theorem bad_topic_filter_stops_enqueue_witness:
  "\<exists>err. enqueue sample_jsonb 5 10 (sample_db (sample_sub (Some (Object [(''topic0'', Str ''transfer'')])) None 0))
     = (Inl err, sample_db (sample_sub (Some (Object [(''topic0'', Str ''transfer'')])) None 0))"
  by (rule bad_topic_filter_stops_enqueue [where s = "sample_sub (Some (Object [(''topic0'', Str ''transfer'')])) None 0"
        and f = "Object [(''topic0'', Str ''transfer'')]" and t = "''transfer''" and e = "sample_event_row ''a'' 1"])
    (simp_all add: sample_jsonb_def sample_db_defs selects_def max_or_zero_def)

end
