(* ===== verification/Url_Validation.thy ===== *)
theory Url_Validation
  imports Prelude
begin

text \<open>
  The guard against server-side request forgery, \<^verbatim>\<open>crates/lumenqraph-core/src/url_validation.rs\<close>:
  which addresses count as internal, the check when a webhook is registered and the check when it is
  delivered. Addresses keep their widths: four octets, or eight 16-bit segments.

  The URL parser and the name resolver are not part of the repository and are arguments. The address
  parser of the standard library is modelled.
\<close>

section \<open>Addresses\<close>

datatype ipv4 = Ipv4 u8 u8 u8 u8

datatype ipv6 = Ipv6 u16 u16 u16 u16 u16 u16 u16 u16

datatype ip_addr = V4 ipv4 | V6 ipv6

fun v4_is_loopback :: "ipv4 \<Rightarrow> bool" where
  "v4_is_loopback (Ipv4 a b c d) \<longleftrightarrow> a = 127"

fun v4_is_private :: "ipv4 \<Rightarrow> bool" where
  "v4_is_private (Ipv4 a b c d) \<longleftrightarrow> a = 10 \<or> (a = 172 \<and> 16 \<le> b \<and> b \<le> 31) \<or> (a = 192 \<and> b = 168)"

fun v4_is_link_local :: "ipv4 \<Rightarrow> bool" where
  "v4_is_link_local (Ipv4 a b c d) \<longleftrightarrow> a = 169 \<and> b = 254"

fun v4_is_multicast :: "ipv4 \<Rightarrow> bool" where
  "v4_is_multicast (Ipv4 a b c d) \<longleftrightarrow> 224 \<le> a \<and> a \<le> 239"

fun v4_is_broadcast :: "ipv4 \<Rightarrow> bool" where
  "v4_is_broadcast (Ipv4 a b c d) \<longleftrightarrow> a = 255 \<and> b = 255 \<and> c = 255 \<and> d = 255"

fun is_documentation_v4 :: "ipv4 \<Rightarrow> bool" where
  "is_documentation_v4 (Ipv4 a b c d) \<longleftrightarrow>
     (a = 192 \<and> b = 0 \<and> c = 2) \<or> (a = 198 \<and> b = 51 \<and> c = 100) \<or> (a = 203 \<and> b = 0 \<and> c = 113)"

fun is_reserved_v4 :: "ipv4 \<Rightarrow> bool" where
  "is_reserved_v4 (Ipv4 a b c d) \<longleftrightarrow>
     (a = 100 \<and> b \<ge> 64 \<and> b \<le> 127) \<or> (a = 192 \<and> b = 168) \<or> (a = 172 \<and> b \<ge> 16 \<and> b \<le> 31)
     \<or> a = 10 \<or> a = 127 \<or> (a = 169 \<and> b = 254) \<or> a \<ge> 240"

fun is_shared_address_space_v4 :: "ipv4 \<Rightarrow> bool" where
  "is_shared_address_space_v4 (Ipv4 a b c d) \<longleftrightarrow> a = 100 \<and> b \<ge> 64 \<and> b \<le> 127"

fun is_benchmarking_v4 :: "ipv4 \<Rightarrow> bool" where
  "is_benchmarking_v4 (Ipv4 a b c d) \<longleftrightarrow> a = 198 \<and> (b = 18 \<or> b = 19)"

fun first_octet_zero :: "ipv4 \<Rightarrow> bool" where
  "first_octet_zero (Ipv4 a b c d) \<longleftrightarrow> a = 0"

fun is_nat64_wellknown :: "ipv6 \<Rightarrow> bool" where
  "is_nat64_wellknown (Ipv6 s0 s1 s2 s3 s4 s5 s6 s7) \<longleftrightarrow> s0 = 0x64 \<and> s1 = 0xff9b \<and> s2 = 0 \<and> s3 = 0"

fun is_6to4 :: "ipv6 \<Rightarrow> bool" where
  "is_6to4 (Ipv6 s0 s1 s2 s3 s4 s5 s6 s7) \<longleftrightarrow> s0 = 0x2002"

fun is_ipv4_compatible :: "ipv6 \<Rightarrow> bool" where
  "is_ipv4_compatible (Ipv6 s0 s1 s2 s3 s4 s5 s6 s7) \<longleftrightarrow>
     s0 = 0 \<and> s1 = 0 \<and> s2 = 0 \<and> s3 = 0 \<and> s4 = 0 \<and> s5 = 0 \<and> \<not> (s6 = 0 \<and> (s7 = 0 \<or> s7 = 1))"

fun is_discard_prefix :: "ipv6 \<Rightarrow> bool" where
  "is_discard_prefix (Ipv6 s0 s1 s2 s3 s4 s5 s6 s7) \<longleftrightarrow> s0 = 0x100"

fun is_documentation_v6 :: "ipv6 \<Rightarrow> bool" where
  "is_documentation_v6 (Ipv6 s0 s1 s2 s3 s4 s5 s6 s7) \<longleftrightarrow> s0 = 0x2001 \<and> s1 = 0xdb8"

fun v6_is_loopback :: "ipv6 \<Rightarrow> bool" where
  "v6_is_loopback (Ipv6 s0 s1 s2 s3 s4 s5 s6 s7) \<longleftrightarrow>
     s0 = 0 \<and> s1 = 0 \<and> s2 = 0 \<and> s3 = 0 \<and> s4 = 0 \<and> s5 = 0 \<and> s6 = 0 \<and> s7 = 1"

fun v6_is_unspecified :: "ipv6 \<Rightarrow> bool" where
  "v6_is_unspecified (Ipv6 s0 s1 s2 s3 s4 s5 s6 s7) \<longleftrightarrow>
     s0 = 0 \<and> s1 = 0 \<and> s2 = 0 \<and> s3 = 0 \<and> s4 = 0 \<and> s5 = 0 \<and> s6 = 0 \<and> s7 = 0"

fun v6_is_multicast :: "ipv6 \<Rightarrow> bool" where
  "v6_is_multicast (Ipv6 s0 s1 s2 s3 s4 s5 s6 s7) \<longleftrightarrow> unat s0 div 2 ^ 8 = 0xff"

fun v6_is_unicast_link_local :: "ipv6 \<Rightarrow> bool" where
  "v6_is_unicast_link_local (Ipv6 s0 s1 s2 s3 s4 s5 s6 s7) \<longleftrightarrow> unat s0 div 2 ^ 6 = 0xfe80 div 2 ^ 6"

fun v6_is_unique_local :: "ipv6 \<Rightarrow> bool" where
  "v6_is_unique_local (Ipv6 s0 s1 s2 s3 s4 s5 s6 s7) \<longleftrightarrow> unat s0 div 2 ^ 9 = 0xfc00 div 2 ^ 9"

fun to_ipv4_mapped :: "ipv6 \<Rightarrow> ipv4 option" where
  "to_ipv4_mapped (Ipv6 s0 s1 s2 s3 s4 s5 s6 s7) =
     (if s0 = 0 \<and> s1 = 0 \<and> s2 = 0 \<and> s3 = 0 \<and> s4 = 0 \<and> s5 = 0xffff
      then Some (Ipv4 (of_nat (unat s6 div 256)) (of_nat (unat s6 mod 256))
                      (of_nat (unat s7 div 256)) (of_nat (unat s7 mod 256)))
      else None)"

definition is_reserved_ipv4 :: "ipv4 \<Rightarrow> bool" where
  "is_reserved_ipv4 v4 \<longleftrightarrow>
     v4_is_loopback v4 \<or> v4_is_private v4 \<or> v4_is_link_local v4 \<or> v4_is_multicast v4 \<or> v4_is_broadcast v4
     \<or> first_octet_zero v4 \<or> is_documentation_v4 v4 \<or> is_reserved_v4 v4 \<or> is_shared_address_space_v4 v4
     \<or> is_benchmarking_v4 v4"

definition is_reserved_ipv6 :: "ipv6 \<Rightarrow> bool" where
  "is_reserved_ipv6 v6 =
     (case to_ipv4_mapped v6 of
        Some v4 \<Rightarrow> is_reserved_ipv4 v4
      | None \<Rightarrow>
          if is_nat64_wellknown v6 then True
          else if is_6to4 v6 then True
          else if is_ipv4_compatible v6 then True
          else v6_is_loopback v6 \<or> v6_is_multicast v6 \<or> v6_is_unicast_link_local v6 \<or> v6_is_unspecified v6
            \<or> v6_is_unique_local v6 \<or> is_documentation_v6 v6 \<or> is_discard_prefix v6)"

fun is_reserved_ip :: "ip_addr \<Rightarrow> bool" where
  "is_reserved_ip (V4 v4) = is_reserved_ipv4 v4"
| "is_reserved_ip (V6 v6) = is_reserved_ipv6 v6"

section \<open>Parsing an address\<close>

definition hex_value :: "char \<Rightarrow> nat option" where
  "hex_value c =
     (if is_ascii_digit c then Some (digit_val c)
      else if 97 \<le> (of_char c :: nat) \<and> (of_char c :: nat) \<le> 102 then Some (of_char c - 87)
      else if 65 \<le> (of_char c :: nat) \<and> (of_char c :: nat) \<le> 70 then Some (of_char c - 55)
      else None)"

definition to_digit :: "nat \<Rightarrow> char \<Rightarrow> nat option" where
  "to_digit radix c = (case hex_value c of Some d \<Rightarrow> if d < radix then Some d else None | None \<Rightarrow> None)"

definition read_number :: "nat \<Rightarrow> nat \<Rightarrow> bool \<Rightarrow> nat \<Rightarrow> string \<Rightarrow> (nat \<times> string) option" where
  "read_number radix max_digits allow_zero_prefix limit s =
     (let ds = takeWhile (\<lambda>c. to_digit radix c \<noteq> None) s;
          n = foldl (\<lambda>a c. a * radix + the (to_digit radix c)) 0 ds
      in if ds = [] \<or> length ds > max_digits then None
         else if \<not> allow_zero_prefix \<and> hd ds = CHR ''0'' \<and> length ds > 1 then None
         else if n \<ge> limit then None
         else Some (n, drop (length ds) s))"

definition read_char :: "char \<Rightarrow> string \<Rightarrow> string option" where
  "read_char c s = (case s of d # rest \<Rightarrow> if d = c then Some rest else None | [] \<Rightarrow> None)"

definition read_ipv4_addr :: "string \<Rightarrow> (ipv4 \<times> string) option" where
  "read_ipv4_addr s =
     (let octet = read_number 10 3 False 256
      in Option.bind (octet s) (\<lambda>(a, s).
         Option.bind (read_char (CHR ''.'') s) (\<lambda>s. Option.bind (octet s) (\<lambda>(b, s).
         Option.bind (read_char (CHR ''.'') s) (\<lambda>s. Option.bind (octet s) (\<lambda>(c, s).
         Option.bind (read_char (CHR ''.'') s) (\<lambda>s. Option.bind (octet s) (\<lambda>(d, s).
         Some (Ipv4 (of_nat a) (of_nat b) (of_nat c) (of_nat d), s)))))))))"

fun v4_groups :: "ipv4 \<Rightarrow> u16 list" where
  "v4_groups (Ipv4 a b c d) = [of_nat (unat a * 256 + unat b), of_nat (unat c * 256 + unat d)]"

text \<open>
  \<^verbatim>\<open>read_groups\<close>: up to \<open>limit\<close> groups from position \<open>i\<close>, the separator before each but the first,
  an embedded dotted quad taking two; the flag says that one was read.
\<close>

fun read_groups :: "nat \<Rightarrow> bool \<Rightarrow> string \<Rightarrow> u16 list \<times> bool \<times> string" where
  "read_groups 0 first s = ([], False, s)"
| "read_groups (Suc left) first s =
     (case (if first then Some s else read_char (CHR '':'') s) of
        None \<Rightarrow> ([], False, s)
      | Some s' \<Rightarrow>
          (case (if left > 0 then read_ipv4_addr s' else None) of
             Some (v4, rest) \<Rightarrow> (v4_groups v4, True, rest)
           | None \<Rightarrow>
               (case read_number 16 4 True 65536 s' of
                  None \<Rightarrow> ([], False, s)
                | Some (g, rest) \<Rightarrow>
                    (case read_groups left False rest of (gs, v4, r) \<Rightarrow> (of_nat g # gs, v4, r)))))"

fun ipv6_of :: "u16 list \<Rightarrow> ipv6 option" where
  "ipv6_of [a, b, c, d, e, f, g, h] = Some (Ipv6 a b c d e f g h)"
| "ipv6_of _ = None"

definition read_ipv6_addr :: "string \<Rightarrow> (ipv6 \<times> string) option" where
  "read_ipv6_addr s =
     (case read_groups 8 True s of (head, head_ipv4, s1) \<Rightarrow>
        if length head = 8 then Option.bind (ipv6_of head) (\<lambda>a. Some (a, s1))
        else if head_ipv4 then None
        else Option.bind (read_char (CHR '':'') s1) (\<lambda>s2. Option.bind (read_char (CHR '':'') s2) (\<lambda>s3.
          let limit = 8 - (length head + 1)
          in case read_groups limit True s3 of (tail, _, s4) \<Rightarrow>
               Option.bind (ipv6_of (head @ replicate (8 - length head - length tail) 0 @ tail)) (\<lambda>a. Some (a, s4)))))"

definition parse_ip :: "string \<Rightarrow> ip_addr option" where
  "parse_ip s =
     (case (case read_ipv4_addr s of
              Some (a, rest) \<Rightarrow> Some (V4 a, rest)
            | None \<Rightarrow> map_option (\<lambda>(a, rest). (V6 a, rest)) (read_ipv6_addr s)) of
        Some (ip, rest) \<Rightarrow> if rest = [] then Some ip else None
      | None \<Rightarrow> None)"

section \<open>Registration\<close>

record parsed_url =
  url_scheme :: string
  url_host_str :: "string option"

definition strip_brackets :: "string \<Rightarrow> string" where
  "strip_brackets h =
     (if h \<noteq> [] \<and> hd h = CHR ''['' \<and> tl h \<noteq> [] \<and> last h = CHR '']'' then butlast (tl h) else h)"

definition is_localhost :: "string \<Rightarrow> bool" where
  "is_localhost h \<longleftrightarrow> to_lowercase h \<in> {''localhost'', ''127.0.0.1'', ''::1'', ''[::1]''}"

definition is_internal_address :: "string \<Rightarrow> bool" where
  "is_internal_address h =
     (if is_localhost h then True
      else (case parse_ip (strip_brackets h) of Some ip \<Rightarrow> is_reserved_ip ip | None \<Rightarrow> False))"

definition no_host :: string where
  "no_host = ''url must have a host''"

text \<open>\<^verbatim>\<open>str::get\<close> gives nothing when the index splits a character.\<close>

definition raw_host :: "string \<Rightarrow> string \<Rightarrow> string" where
  "raw_host scheme url =
     (let after_scheme = drop (length scheme + 3) url
      in if after_scheme \<noteq> [] \<and> cont_byte (hd (bytes_of_text after_scheme)) then []
         else takeWhile (\<lambda>c. c \<notin> set ''/?#:'') after_scheme)"

definition validate_webhook_url :: "(string \<Rightarrow> string + parsed_url) \<Rightarrow> string \<Rightarrow> string + unit" where
  "validate_webhook_url parse_url url =
     bind_res (map_sum (\<lambda>e. ''invalid URL: '' @ e) id (parse_url url)) (\<lambda>parsed.
     if \<not> (url_scheme parsed = ''http'' \<or> url_scheme parsed = ''https'')
     then Inl ''url scheme must be http or https''
     else if raw_host (url_scheme parsed) url = [] then Inl no_host
     else (case url_host_str parsed of
             None \<Rightarrow> Inl no_host
           | Some h \<Rightarrow>
               if h = [] then Inl no_host
               else if is_internal_address h
               then Inl ''url points to an internal/reserved address (loopback, link-local, private, or multicast)''
               else Inr ()))"

section \<open>Delivery\<close>

text \<open>\<open>lookup\<close> is the name resolver, \<open>show_ip\<close> the display of an address.\<close>

definition validate_webhook_url_at_delivery ::
  "(string \<Rightarrow> string + parsed_url) \<Rightarrow> (string \<Rightarrow> ip_addr list option) \<Rightarrow> (ip_addr \<Rightarrow> string) \<Rightarrow> string \<Rightarrow>
   string + ip_addr" where
  "validate_webhook_url_at_delivery parse_url lookup show_ip url =
     bind_res (map_sum (\<lambda>e. ''invalid URL: '' @ e) id (parse_url url)) (\<lambda>parsed.
     case url_host_str parsed of
       None \<Rightarrow> Inl no_host
     | Some h \<Rightarrow>
         (case parse_ip (strip_brackets h) of
            Some ip \<Rightarrow>
              if is_reserved_ip ip then Inl ''IP address points to an internal/reserved network'' else Inr ip
          | None \<Rightarrow>
              (case lookup (h @ '':80'') of
                 None \<Rightarrow> Inl ''could not resolve hostname''
               | Some addrs \<Rightarrow>
                   (case addrs of
                      [] \<Rightarrow> Inl ''hostname resolved to no addresses''
                    | first # _ \<Rightarrow>
                        (case find is_reserved_ip addrs of
                           Some a \<Rightarrow> Inl (''hostname resolves to internal/reserved address: '' @ show_ip a)
                         | None \<Rightarrow> Inr first)))))"

section \<open>Address blocks\<close>

text \<open>
  The specification: an address is a number, and a CIDR block is the set of numbers with the same
  leading bits as the base.
\<close>

definition num :: "'a::len word list \<Rightarrow> nat" where
  "num xs = foldl (\<lambda>a x. a * 2 ^ LENGTH('a) + unat x) 0 xs"

definition in_cidr :: "'a::len word list \<Rightarrow> 'a word list \<times> nat \<Rightarrow> bool" where
  "in_cidr v block \<longleftrightarrow> (case block of (base, len) \<Rightarrow>
     let k = 2 ^ (LENGTH('a) * length base - len) in num v div k = num base div k)"

fun octets :: "ipv4 \<Rightarrow> u8 list" where
  "octets (Ipv4 a b c d) = [a, b, c, d]"

fun segments :: "ipv6 \<Rightarrow> u16 list" where
  "segments (Ipv6 a b c d e f g h) = [a, b, c, d, e, f, g, h]"

definition v4_blocks :: "(u8 list \<times> nat) list" where
  "v4_blocks =
     [([0, 0, 0, 0], 8), ([10, 0, 0, 0], 8), ([100, 64, 0, 0], 10), ([127, 0, 0, 0], 8), ([169, 254, 0, 0], 16),
      ([172, 16, 0, 0], 12), ([192, 0, 2, 0], 24), ([192, 168, 0, 0], 16), ([198, 18, 0, 0], 15),
      ([198, 51, 100, 0], 24), ([203, 0, 113, 0], 24), ([224, 0, 0, 0], 4), ([240, 0, 0, 0], 4)]"

definition v6_blocks :: "(u16 list \<times> nat) list" where
  "v6_blocks =
     [([0, 0, 0, 0, 0, 0, 0, 0], 96), ([0x64, 0xff9b, 0, 0, 0, 0, 0, 0], 64), ([0x100, 0, 0, 0, 0, 0, 0, 0], 16),
      ([0x2001, 0xdb8, 0, 0, 0, 0, 0, 0], 32), ([0x2002, 0, 0, 0, 0, 0, 0, 0], 16),
      ([0xfc00, 0, 0, 0, 0, 0, 0, 0], 7), ([0xfe80, 0, 0, 0, 0, 0, 0, 0], 10), ([0xff00, 0, 0, 0, 0, 0, 0, 0], 8)]"

definition v4_special :: "ipv4 \<Rightarrow> bool" where
  "v4_special v4 \<longleftrightarrow> list_ex (in_cidr (octets v4)) v4_blocks"

lemma num_snoc: "num (xs @ [x :: 'a::len word]) = num xs * 2 ^ LENGTH('a) + unat x"
  by (simp add: num_def)

lemma num_snoc_div: "num (xs @ [x :: 'a::len word]) div 2 ^ LENGTH('a) = num xs"
  using unsigned_less [of x] by (simp add: num_snoc)

lemma num_append_div: "num (xs @ ys :: 'a::len word list) div 2 ^ (LENGTH('a) * length ys) = num xs"
proof (induction ys rule: rev_induct)
  case (snoc y ys)
  have "num (xs @ ys @ [y]) div 2 ^ (LENGTH('a) * length (ys @ [y]))
      = num ((xs @ ys) @ [y]) div 2 ^ LENGTH('a) div 2 ^ (LENGTH('a) * length ys)"
    by (simp add: power_add div_mult2_eq algebra_simps)
  also have "num ((xs @ ys) @ [y]) div 2 ^ LENGTH('a) = num (xs @ ys)"
    by (rule num_snoc_div)
  finally show ?case using snoc by simp
qed simp

lemma num_take:
  fixes v :: "'a::len word list"
  assumes "k \<le> length v"
  shows "num v div 2 ^ (LENGTH('a) * (length v - k)) = num (take k v)"
  using num_append_div [of "take k v" "drop k v"] assms by simp

lemma num_inj: "length xs = length ys \<Longrightarrow> num xs = num ys \<longleftrightarrow> xs = (ys :: 'a::len word list)"
proof (induction xs arbitrary: ys rule: rev_induct)
  case (snoc x xs)
  then obtain zs z where ys: "ys = zs @ [z]" by (cases ys rule: rev_cases) auto
  have "num xs = num zs" if "num (xs @ [x]) = num (zs @ [z])"
    using that num_snoc_div [of xs x] num_snoc_div [of zs z] by simp
  moreover have "unat x = unat z" if "num (xs @ [x]) = num (zs @ [z])" "num xs = num zs"
    using that by (simp add: num_snoc)
  moreover have "num xs = num zs \<longleftrightarrow> xs = zs" using snoc ys by simp
  ultimately show ?case unfolding ys by (metis append1_eq_conv word_unat_eq_iff)
qed simp

text \<open>A block whose length is a whole number of units fixes the leading units; otherwise it also
  bounds the unit after them.\<close>

lemma in_cidr_units:
  fixes v :: "'a::len word list"
  assumes "length v = length base" "k \<le> length v"
  shows "in_cidr v (base, LENGTH('a) * k) \<longleftrightarrow> take k v = take k base"
proof -
  have "LENGTH('a) * length base - LENGTH('a) * k = LENGTH('a) * (length base - k)"
    by (simp add: diff_mult_distrib2)
  then show ?thesis
    using num_take [OF assms(2)] num_take [of k base] assms num_inj [of "take k v" "take k base"]
    by (simp add: in_cidr_def Let_def)
qed

lemma in_cidr_bits:
  fixes v :: "'a::len word list"
  assumes "length v = length base" "k < length v" "m \<le> LENGTH('a)"
  shows "in_cidr v (base, LENGTH('a) * k + m) \<longleftrightarrow>
    (num (take (Suc k) v) div 2 ^ (LENGTH('a) - m) = num (take (Suc k) base) div 2 ^ (LENGTH('a) - m))"
proof -
  let ?w = "LENGTH('a)"
  have e: "?w * length base - (?w * k + m) = ?w * (length base - Suc k) + (?w - m)"
  proof -
    have "length base = (length base - Suc k) + Suc k" using assms by simp
    then have "?w * length base = ?w * ((length base - Suc k) + Suc k)" by (rule arg_cong)
    then have "?w * length base = ?w * (length base - Suc k) + ?w * k + ?w"
      unfolding add_mult_distrib2 mult_Suc_right by linarith
    then show ?thesis using assms(3) by simp
  qed
  show ?thesis
    unfolding in_cidr_def prod.case Let_def e power_add div_mult2_eq
    using num_take [of "Suc k" v] num_take [of "Suc k" base] assms(1,2) by simp
qed

lemma unat_numeral_eq: "(x :: 'a::len word) = y \<longleftrightarrow> unat x = unat y"
  by (rule word_unat_eq_iff)

lemma pair_div:
  fixes a b x y k :: nat
  assumes "b < 2 ^ n" "y < 2 ^ n" "k \<le> n"
  shows "(a * 2 ^ n + b) div 2 ^ k = (x * 2 ^ n + y) div 2 ^ k \<longleftrightarrow> a = x \<and> b div 2 ^ k = y div 2 ^ k"
proof -
  have split: "(c * 2 ^ n + d) div 2 ^ k = c * 2 ^ (n - k) + d div 2 ^ k" for c d :: nat
  proof -
    have eq: "c * 2 ^ n + d = d + (c * 2 ^ (n - k)) * 2 ^ k"
      using assms(3) by (simp add: mult.assoc flip: power_add)
    show ?thesis unfolding eq by simp
  qed
  have small: "d div 2 ^ k < 2 ^ (n - k)" if "d < 2 ^ n" for d :: nat
    using that assms(3) by (simp add: less_mult_imp_div_less flip: power_add)
  have "a = x" if "a * 2 ^ (n - k) + b div 2 ^ k = x * 2 ^ (n - k) + y div 2 ^ k"
  proof -
    have "(a * 2 ^ (n - k) + b div 2 ^ k) div 2 ^ (n - k) = a" "(x * 2 ^ (n - k) + y div 2 ^ k) div 2 ^ (n - k) = x"
      using small assms by simp_all
    with that show ?thesis by simp
  qed
  then show ?thesis unfolding split by auto
qed

text \<open>The blocks of the specification, read as conditions on the octets.\<close>

lemma v4_block_conds:
  "in_cidr [a, b, c, d] ([x, 0, 0, 0], 8) \<longleftrightarrow> a = x"
  "in_cidr [a, b, c, d] ([x, y, 0, 0], 16) \<longleftrightarrow> a = x \<and> b = y"
  "in_cidr [a, b, c, d] ([x, y, z, 0], 24) \<longleftrightarrow> a = x \<and> b = y \<and> c = z"
  "in_cidr [a, b, c, d] ([x, 0, 0, 0], 4) \<longleftrightarrow> unat a div 16 = unat x div 16"
  "in_cidr [a, b, c, d] ([x, y, 0, 0], 10) \<longleftrightarrow> a = x \<and> unat b div 64 = unat y div 64"
  "in_cidr [a, b, c, d] ([x, y, 0, 0], 12) \<longleftrightarrow> a = x \<and> unat b div 16 = unat y div 16"
  "in_cidr [a, b, c, d] ([x, y, 0, 0], 15) \<longleftrightarrow> a = x \<and> unat b div 2 = unat y div 2"
  for a b c d x y z :: u8
proof -
  let ?v = "[a, b, c, d]"
  show "in_cidr ?v ([x, 0, 0, 0], 8) \<longleftrightarrow> a = x"
    using in_cidr_units [of ?v "[x, 0, 0, 0]" 1] by simp
  show "in_cidr ?v ([x, y, 0, 0], 16) \<longleftrightarrow> a = x \<and> b = y"
    using in_cidr_units [of ?v "[x, y, 0, 0]" 2] by (simp add: take_Cons')
  show "in_cidr ?v ([x, y, z, 0], 24) \<longleftrightarrow> a = x \<and> b = y \<and> c = z"
    using in_cidr_units [of ?v "[x, y, z, 0]" 3] by (simp add: take_Cons')
  show "in_cidr ?v ([x, 0, 0, 0], 4) \<longleftrightarrow> unat a div 16 = unat x div 16"
    using in_cidr_bits [of ?v "[x, 0, 0, 0]" 0 4] by (simp add: num_def)
  have two: "in_cidr ?v ([x, y, 0, 0], 8 + m) \<longleftrightarrow> a = x \<and> unat b div 2 ^ (8 - m) = unat y div 2 ^ (8 - m)"
    if "m \<le> 8" for m
    using in_cidr_bits [of ?v "[x, y, 0, 0]" 1 m] that unsigned_less [of b] unsigned_less [of y]
      pair_div [of "unat b" 8 "unat y" "8 - m" "unat a" "unat x"]
    by (simp add: num_def word_unat_eq_iff)
  show "in_cidr ?v ([x, y, 0, 0], 10) \<longleftrightarrow> a = x \<and> unat b div 64 = unat y div 64"
    "in_cidr ?v ([x, y, 0, 0], 12) \<longleftrightarrow> a = x \<and> unat b div 16 = unat y div 16"
    "in_cidr ?v ([x, y, 0, 0], 15) \<longleftrightarrow> a = x \<and> unat b div 2 = unat y div 2"
    using two [of 2] two [of 4] two [of 7] by simp_all
qed

lemma v4_special_octets:
  "v4_special (Ipv4 a b c d) \<longleftrightarrow>
     a = 0 \<or> a = 10 \<or> (a = 100 \<and> unat b div 64 = 1) \<or> a = 127 \<or> (a = 169 \<and> b = 254)
     \<or> (a = 172 \<and> unat b div 16 = 1) \<or> (a = 192 \<and> b = 0 \<and> c = 2) \<or> (a = 192 \<and> b = 168)
     \<or> (a = 198 \<and> unat b div 2 = 9) \<or> (a = 198 \<and> b = 51 \<and> c = 100) \<or> (a = 203 \<and> b = 0 \<and> c = 113)
     \<or> unat a div 16 = 14 \<or> unat a div 16 = 15"
  by (simp add: v4_special_def v4_blocks_def v4_block_conds)

lemma octet_ranges:
  "unat b div 64 = 1 \<longleftrightarrow> 64 \<le> b \<and> b \<le> 127" "unat b div 16 = 1 \<longleftrightarrow> 16 \<le> b \<and> b \<le> 31"
  "unat b div 2 = 9 \<longleftrightarrow> b = 18 \<or> b = 19" "unat b div 16 = 14 \<longleftrightarrow> 224 \<le> b \<and> b \<le> 239" "unat b div 16 = 15 \<longleftrightarrow> 240 \<le> b"
  for b :: u8
proof -
  have "unat b < 256" using unsigned_less [of b, where ?'a = nat] by simp
  then show "unat b div 64 = 1 \<longleftrightarrow> 64 \<le> b \<and> b \<le> 127" "unat b div 16 = 1 \<longleftrightarrow> 16 \<le> b \<and> b \<le> 31"
    "unat b div 2 = 9 \<longleftrightarrow> b = 18 \<or> b = 19" "unat b div 16 = 14 \<longleftrightarrow> 224 \<le> b \<and> b \<le> 239" "unat b div 16 = 15 \<longleftrightarrow> 240 \<le> b"
    by (auto simp: word_le_nat_alt word_unat_eq_iff)
qed

lemma reserved_ipv4_blocks: "is_reserved_ipv4 v4 \<longleftrightarrow> v4_special v4"
proof (cases v4)
  case (Ipv4 a b c d)
  have "240 \<le> a" if "v4_is_broadcast (Ipv4 a b c d)" using that by auto
  then show ?thesis
    unfolding Ipv4 v4_special_octets octet_ranges is_reserved_ipv4_def
    by (simp only: v4_is_loopback.simps v4_is_private.simps v4_is_link_local.simps v4_is_multicast.simps
        first_octet_zero.simps is_documentation_v4.simps is_reserved_v4.simps is_shared_address_space_v4.simps
        is_benchmarking_v4.simps) argo
qed

lemma v6_block_units:
  "in_cidr v ([x, 0, 0, 0, 0, 0, 0, 0], 16) \<longleftrightarrow> take 1 v = [x]"
  "in_cidr v ([x, y, 0, 0, 0, 0, 0, 0], 32) \<longleftrightarrow> take 2 v = [x, y]"
  "in_cidr v ([x, y, 0, 0, 0, 0, 0, 0], 64) \<longleftrightarrow> take 4 v = [x, y, 0, 0]"
  "in_cidr v ([0, 0, 0, 0, 0, 0, 0, 0], 96) \<longleftrightarrow> take 6 v = [0, 0, 0, 0, 0, 0]"
  if "length v = 8" for v :: "u16 list" and x y
  using that in_cidr_units [of v "[x, 0, 0, 0, 0, 0, 0, 0]" 1] in_cidr_units [of v "[x, y, 0, 0, 0, 0, 0, 0]" 2]
    in_cidr_units [of v "[x, y, 0, 0, 0, 0, 0, 0]" 4] in_cidr_units [of v "[0, 0, 0, 0, 0, 0, 0, 0]" 6]
  by (simp_all add: take_Cons')

lemma v6_block_bits:
  "in_cidr (x # v) ([y, 0, 0, 0, 0, 0, 0, 0], m) \<longleftrightarrow> unat x div 2 ^ (16 - m) = unat y div 2 ^ (16 - m)"
  if "length v = 7" "m \<le> 16" for v :: "u16 list"
  using that in_cidr_bits [of "x # v" "[y, 0, 0, 0, 0, 0, 0, 0]" 0 m] by (simp add: num_def)

lemma reserved_ipv6_blocks:
  "is_reserved_ipv6 v6 \<longleftrightarrow>
     (case to_ipv4_mapped v6 of Some v4 \<Rightarrow> v4_special v4 | None \<Rightarrow> list_ex (in_cidr (segments v6)) v6_blocks)"
proof (cases "to_ipv4_mapped v6")
  case None
  obtain s0 s1 s2 s3 s4 s5 s6 s7 where v6: "v6 = Ipv6 s0 s1 s2 s3 s4 s5 s6 s7" by (cases v6)
  let ?v = "[s0, s1, s2, s3, s4, s5, s6, s7]"
  have blocks: "list_ex (in_cidr ?v) v6_blocks \<longleftrightarrow>
      (s0 = 0 \<and> s1 = 0 \<and> s2 = 0 \<and> s3 = 0 \<and> s4 = 0 \<and> s5 = 0) \<or> is_nat64_wellknown v6 \<or> is_discard_prefix v6
      \<or> is_documentation_v6 v6 \<or> is_6to4 v6 \<or> v6_is_unique_local v6 \<or> v6_is_unicast_link_local v6
      \<or> v6_is_multicast v6"
    unfolding v6 v6_blocks_def
    by (simp add: v6_block_units v6_block_bits take_Cons')
  have "is_ipv4_compatible v6 \<or> v6_is_loopback v6 \<or> v6_is_unspecified v6
      \<longleftrightarrow> s0 = 0 \<and> s1 = 0 \<and> s2 = 0 \<and> s3 = 0 \<and> s4 = 0 \<and> s5 = 0"
    unfolding v6 by (simp only: is_ipv4_compatible.simps v6_is_loopback.simps v6_is_unspecified.simps) argo
  with blocks None show ?thesis
    unfolding is_reserved_ipv6_def v6 by (simp only: option.case segments.simps if_bool_eq_disj) argo
qed (simp add: is_reserved_ipv6_def reserved_ipv4_blocks)

section \<open>Properties\<close>

definition in_special_block :: "ip_addr \<Rightarrow> bool" where
  "in_special_block ip \<longleftrightarrow>
     (case ip of
        V4 v4 \<Rightarrow> v4_special v4
      | V6 v6 \<Rightarrow> (case to_ipv4_mapped v6 of
            Some v4 \<Rightarrow> v4_special v4 | None \<Rightarrow> list_ex (in_cidr (segments v6)) v6_blocks))"

text \<open>
  Claim C22. The octet and segment comparisons are exactly the special-purpose address blocks. An
  address is treated as reserved if and only if it lies in one of the listed CIDR blocks, an
  IPv4-mapped IPv6 address if and only if the address it maps lies in an IPv4 block: no block has
  a hole, and nothing outside them is refused.
\<close>

theorem reserved_is_special_blocks: "is_reserved_ip ip \<longleftrightarrow> in_special_block ip"
  by (cases ip) (simp_all add: in_special_block_def reserved_ipv4_blocks reserved_ipv6_blocks)

text \<open>
  Claim C23. Delivery never connects to an internal address: whatever the URL and whatever the
  resolver answers, an address the delivery check returns is outside every special-purpose block; it is
  the literal address of the URL, or the first of the resolved addresses, all of which are outside too.
\<close>

theorem delivery_address_is_public:
  assumes "validate_webhook_url_at_delivery parse_url lookup show_ip url = Inr ip"
  shows "\<not> in_special_block ip \<and> (\<exists>u h. parse_url url = Inr u \<and> url_host_str u = Some h
    \<and> (parse_ip (strip_brackets h) = Some ip
       \<or> (\<exists>addrs. lookup (h @ '':80'') = Some addrs \<and> addrs \<noteq> [] \<and> ip = hd addrs
            \<and> list_all (\<lambda>a. \<not> in_special_block a) addrs)))"
proof -
  have special: "in_special_block a \<longleftrightarrow> is_reserved_ip a" for a
    by (cases a) (simp_all add: in_special_block_def reserved_ipv4_blocks reserved_ipv6_blocks)
  obtain u h where u: "parse_url url = Inr u" "url_host_str u = Some h"
    using assms by (cases "parse_url url") (auto simp: validate_webhook_url_at_delivery_def split: option.splits)
  show ?thesis
  proof (cases "parse_ip (strip_brackets h)")
    case (Some a)
    with assms u show ?thesis
      by (auto simp: validate_webhook_url_at_delivery_def special split: if_splits)
  next
    case None
    then obtain addrs where "lookup (h @ '':80'') = Some addrs" "addrs \<noteq> []" "ip = hd addrs"
      "find is_reserved_ip addrs = None"
      using assms u by (auto simp: validate_webhook_url_at_delivery_def split: option.splits list.splits)
    then have "addrs \<noteq> []" "ip = hd addrs" "\<forall>a \<in> set addrs. \<not> is_reserved_ip a"
      by (auto simp: find_None_iff)
    with u \<open>lookup (h @ '':80'') = Some addrs\<close> show ?thesis
      by (auto simp: special list_all_iff)
  qed
qed

theorem delivery_address_is_public_witness:
  "\<not> in_special_block (V4 (Ipv4 8 8 8 8))
   \<and> validate_webhook_url_at_delivery (\<lambda>u. Inr \<lparr>url_scheme = ''https'', url_host_str = Some ''x''\<rparr>)
       (\<lambda>h. Some [V4 (Ipv4 8 8 8 8)]) (\<lambda>_. []) ''https://x/'' = Inr (V4 (Ipv4 8 8 8 8))"
proof -
  have digit: "to_digit r (CHR ''x'') = None" for r
    by (simp add: to_digit_def hex_value_def is_ascii_digit_def)
  have "read_groups 8 True ''x'' = ([], False, ''x'')"
    by (simp add: eval_nat_numeral read_number_def digit read_ipv4_addr_def)
  then have "parse_ip (strip_brackets ''x'') = None"
    by (simp add: parse_ip_def read_ipv4_addr_def read_ipv6_addr_def read_number_def digit strip_brackets_def
        read_char_def)
  then have "validate_webhook_url_at_delivery (\<lambda>u. Inr \<lparr>url_scheme = ''https'', url_host_str = Some ''x''\<rparr>)
       (\<lambda>h. Some [V4 (Ipv4 8 8 8 8)]) (\<lambda>_. []) ''https://x/'' = Inr (V4 (Ipv4 8 8 8 8))"
    by (simp add: validate_webhook_url_at_delivery_def is_reserved_ipv4_def)
  with delivery_address_is_public [OF this] show ?thesis by blast
qed

end
