(* ===== verification/Webhook_Deliver.thy ===== *)
theory Webhook_Deliver
  imports Webhook_Enqueue Url_Validation
begin

text \<open>
  The delivery stage of \<^verbatim>\<open>crates/lumenqraph-webhooks/src/dispatcher.rs\<close> and the pruner of
  \<^verbatim>\<open>prune.rs\<close>: claiming due rows under a lease, building and signing the request, recording the
  outcome with its retry schedule, disabling failing subscriptions, and deleting old rows. The tables are
  those of \<open>Webhook_Enqueue\<close>; times are seconds.

  Arguments stand for what is outside the repository: the HTTP exchange, the HMAC, the decryption of a
  secret, the rendering of times, the random source of the jitter, and \<^verbatim>\<open>mark_failed_permanent\<close>, which the
  sources call but do not define.
\<close>

section \<open>Payloads\<close>

record contract_event_data =
  ce_event_id :: string
  ce_contract_id :: string
  ce_ledger :: int
  ce_ledger_closed_at :: int
  ce_event_name :: "string option"
  ce_topics :: "string list"
  ce_value :: string
  ce_decoded_topics :: json
  ce_decoded_value :: json
  ce_enriched :: "json option"
  ce_tx_hash :: string
  ce_in_successful_call :: bool

record contract_upgrade_data =
  cu_contract_id :: string
  cu_version :: int
  cu_wasm_hash :: string
  cu_previous_wasm_hash :: "string option"
  cu_breaking :: bool
  cu_diff :: json
  cu_observed_at :: int

record webhook_envelope =
  we_id :: string
  we_payload_type :: string
  we_version :: u32
  we_created_at :: int
  we_data :: json

definition json_int :: "int \<Rightarrow> json" where
  "json_int i = Number (if 0 \<le> i then PosInt (of_int i) else NegInt (of_int i))"

definition json_opt :: "('a \<Rightarrow> json) \<Rightarrow> 'a option \<Rightarrow> json" where
  "json_opt f x = (case x of Some a \<Rightarrow> f a | None \<Rightarrow> Null)"

definition event_data_json :: "(int \<Rightarrow> string) \<Rightarrow> contract_event_data \<Rightarrow> json" where
  "event_data_json time_text e =
     jobj [(''event_id'', Str (ce_event_id e)), (''contract_id'', Str (ce_contract_id e)),
       (''ledger'', json_int (ce_ledger e)), (''ledger_closed_at'', Str (time_text (ce_ledger_closed_at e))),
       (''event_name'', json_opt Str (ce_event_name e)), (''topics'', Array (map Str (ce_topics e))),
       (''value'', Str (ce_value e)), (''decoded_topics'', ce_decoded_topics e),
       (''decoded_value'', ce_decoded_value e), (''enriched'', json_opt id (ce_enriched e)),
       (''tx_hash'', Str (ce_tx_hash e)), (''in_successful_call'', Bool (ce_in_successful_call e))]"

definition upgrade_data_json :: "(int \<Rightarrow> string) \<Rightarrow> contract_upgrade_data \<Rightarrow> json" where
  "upgrade_data_json time_text u =
     jobj [(''contract_id'', Str (cu_contract_id u)), (''version'', json_int (cu_version u)),
       (''wasm_hash'', Str (cu_wasm_hash u)), (''previous_wasm_hash'', json_opt Str (cu_previous_wasm_hash u)),
       (''breaking'', Bool (cu_breaking u)), (''diff'', cu_diff u),
       (''observed_at'', Str (time_text (cu_observed_at u)))]"

definition envelope_for_event :: "(int \<Rightarrow> string) \<Rightarrow> nat \<Rightarrow> int \<Rightarrow> contract_event_data \<Rightarrow> webhook_envelope" where
  "envelope_for_event time_text delivery_id created_at event =
     \<lparr>we_id = show_nat delivery_id, we_payload_type = ''contract.event'', we_version = 1,
      we_created_at = created_at, we_data = event_data_json time_text event\<rparr>"

definition envelope_for_upgrade :: "(int \<Rightarrow> string) \<Rightarrow> nat \<Rightarrow> int \<Rightarrow> contract_upgrade_data \<Rightarrow> webhook_envelope" where
  "envelope_for_upgrade time_text delivery_id created_at upgrade =
     \<lparr>we_id = show_nat delivery_id, we_payload_type = ''contract.upgraded'', we_version = 1,
      we_created_at = created_at, we_data = upgrade_data_json time_text upgrade\<rparr>"

definition envelope_json :: "(int \<Rightarrow> string) \<Rightarrow> webhook_envelope \<Rightarrow> json" where
  "envelope_json time_text e =
     jobj [(''id'', Str (we_id e)), (''type'', Str (we_payload_type e)), (''version'', json_int (uint (we_version e))),
       (''created_at'', Str (time_text (we_created_at e))), (''data'', we_data e)]"

section \<open>Claiming\<close>

definition lock_duration :: int where
  "lock_duration = 60"

definition claimable :: "int \<Rightarrow> delivery \<Rightarrow> bool" where
  "claimable now d \<longleftrightarrow> d_status d = Pending \<and> d_next_attempt_at d \<le> now
     \<and> (case d_locked_until d of None \<Rightarrow> True | Some t \<Rightarrow> t < now)"

definition claim_ids :: "int \<Rightarrow> nat \<Rightarrow> webhook_db \<Rightarrow> nat list" where
  "claim_ids now limit db =
     take limit (map d_id (sort_key d_next_attempt_at (filter (claimable now) (db_deliveries db))))"

definition lock_row :: "int \<Rightarrow> string \<Rightarrow> delivery \<Rightarrow> delivery" where
  "lock_row now worker d = d\<lparr>d_locked_until := Some (now + lock_duration), d_locked_by := Some worker\<rparr>"

definition update_delivery :: "nat \<Rightarrow> (delivery \<Rightarrow> delivery) \<Rightarrow> webhook_db \<Rightarrow> webhook_db" where
  "update_delivery i f db =
     db\<lparr>db_deliveries := map (\<lambda>d. if d_id d = i then f d else d) (db_deliveries db)\<rparr>"

definition update_sub :: "nat \<Rightarrow> (subscription \<Rightarrow> subscription) \<Rightarrow> webhook_db \<Rightarrow> webhook_db" where
  "update_sub i f db = db\<lparr>db_subs := map (\<lambda>s. if sub_id s = i then f s else s) (db_subs db)\<rparr>"

text \<open>The \<^verbatim>\<open>UPDATE .. RETURNING\<close>: the rows as they are after the update, in table order.\<close>

definition claim :: "int \<Rightarrow> string \<Rightarrow> nat \<Rightarrow> webhook_db \<Rightarrow> delivery list \<times> webhook_db" where
  "claim now worker limit db =
     (let ids = claim_ids now limit db;
          db' = db\<lparr>db_deliveries :=
            map (\<lambda>d. if d_id d \<in> set ids then lock_row now worker d else d) (db_deliveries db)\<rparr>
      in (filter (\<lambda>d. d_id d \<in> set ids) (db_deliveries db'), db'))"

section \<open>From a claimed row to a delivery\<close>

text \<open>The columns joined to a claimed row; a missing event or version leaves its columns NULL.\<close>

record claimed_row =
  cr_delivery :: delivery
  cr_url :: string
  cr_secret :: "string option"
  cr_previous :: "string option"
  cr_event :: "contract_event_data option"
  cr_upgrade :: "contract_upgrade_data option"

record due_delivery =
  dd_id :: nat
  dd_subscription_id :: nat
  dd_attempts :: int
  dd_url :: string
  dd_secret :: "string option"
  dd_previous_secret :: "string option"
  dd_source :: "source option"
  dd_created_at :: int
  dd_envelope :: webhook_envelope

datatype row_result = SecretFailed string string | NoPayload string | Due due_delivery

definition process_row :: "(int \<Rightarrow> string) \<Rightarrow> claimed_row \<Rightarrow> row_result" where
  "process_row time_text row =
     (let d = cr_delivery row
      in case cr_secret row of
           None \<Rightarrow> SecretFailed ''secret unavailable: decryption failed'' ''secret unavailable: decryption failed''
         | Some s \<Rightarrow>
             if s = [] then SecretFailed ''secret unavailable: empty'' ''secret unavailable: empty after decryption''
             else
               (case (case cr_event row of
                        Some e \<Rightarrow> Some (envelope_for_event time_text (d_id d) (d_created_at d) e)
                      | None \<Rightarrow> map_option (envelope_for_upgrade time_text (d_id d) (d_created_at d)) (cr_upgrade row)) of
                  None \<Rightarrow> NoPayload ''delivery has neither event_id nor upgrade_id''
                | Some envelope \<Rightarrow> Due \<lparr>dd_id = d_id d, dd_subscription_id = d_sub d, dd_attempts = d_attempts d,
                    dd_url = cr_url row, dd_secret = Some s,
                    dd_previous_secret = (case cr_previous row of Some p \<Rightarrow> if p = [] then None else Some p | None \<Rightarrow> None),
                    dd_source = d_source d, dd_created_at = d_created_at d, dd_envelope = envelope\<rparr>))"

definition mark_failed_undecryptable :: "nat \<Rightarrow> string \<Rightarrow> webhook_db \<Rightarrow> webhook_db" where
  "mark_failed_undecryptable i msg =
     update_delivery i (\<lambda>d. d\<lparr>d_status := Failed, d_last_error := Some msg, d_locked_until := None, d_locked_by := None\<rparr>)"

definition auto_disable_subscription :: "int \<Rightarrow> nat \<Rightarrow> string \<Rightarrow> webhook_db \<Rightarrow> webhook_db" where
  "auto_disable_subscription now i reason =
     update_sub i (\<lambda>s. s\<lparr>sub_active := False, sub_auto_disabled_at := Some now, sub_auto_disabled_reason := Some reason\<rparr>)"

fun process_rows ::
  "(int \<Rightarrow> string) \<Rightarrow> claimed_row list \<Rightarrow> due_delivery list \<times> (nat \<times> string) list \<times> webhook_db \<Rightarrow>
   due_delivery list \<times> (nat \<times> string) list \<times> webhook_db" where
  "process_rows time_text [] st = st"
| "process_rows time_text (row # rows) (due, failed, db) =
     (let i = d_id (cr_delivery row); sub = d_sub (cr_delivery row)
      in process_rows time_text rows
           (case process_row time_text row of
              SecretFailed msg reason \<Rightarrow> (due, failed @ [(sub, reason)], mark_failed_undecryptable i msg db)
            | NoPayload msg \<Rightarrow> (due, failed, mark_failed_undecryptable i msg db)
            | Due d \<Rightarrow> (due @ [d], failed, db)))"

text \<open>\<open>join\<close> gives the joined columns of a claimed row.\<close>

definition fetch_due ::
  "(int \<Rightarrow> string) \<Rightarrow> (webhook_db \<Rightarrow> delivery \<Rightarrow> claimed_row) \<Rightarrow> int \<Rightarrow> string \<Rightarrow> nat \<Rightarrow> webhook_db \<Rightarrow>
   due_delivery list \<times> webhook_db" where
  "fetch_due time_text joined now worker limit db =
     (case claim now worker limit db of (rows, db1) \<Rightarrow>
        (case process_rows time_text (map (joined db1) rows) ([], [], db1) of (due, failed, db2) \<Rightarrow>
           (due, fold (\<lambda>(sub, reason). auto_disable_subscription now sub reason) failed db2)))"

section \<open>The request\<close>

record delivery_outcome =
  do_status :: "int option"
  do_retry_after :: "int option"
  do_body_snippet :: string

definition default_outcome :: delivery_outcome where
  "default_outcome = \<lparr>do_status = None, do_retry_after = None, do_body_snippet = []\<rparr>"

datatype send_error = SourcePruned | SendError string | DurationPanic

record http_response =
  rs_status :: int
  rs_location :: "string option"
  rs_retry_after :: "string option"
  rs_chunks :: "(string + u8 list) list"

text \<open>
  \<^verbatim>\<open>Duration::seconds\<close> takes a signed number of seconds and panics outside the range of milliseconds;
  the header is parsed as an unsigned 64-bit number and cast.
\<close>

definition duration_seconds :: "u64 \<Rightarrow> send_error + int" where
  "duration_seconds n =
     (if - ((2 ^ 63 - 1) div 1000) \<le> sint n \<and> sint n \<le> (2 ^ 63 - 1) div 1000 then Inr (sint n) else Inl DurationPanic)"

definition retry_after_of :: "string option \<Rightarrow> send_error + int option" where
  "retry_after_of header =
     (case Option.bind header (parse_unsigned 64) of
        None \<Rightarrow> Inr None
      | Some n \<Rightarrow> bind_res (duration_seconds (of_nat n)) (\<lambda>d. Inr (Some d)))"

fun read_body :: "nat \<Rightarrow> (string + u8 list) list \<Rightarrow> u8 list \<Rightarrow> send_error + u8 list" where
  "read_body cap chunks buf =
     (if length buf < cap then
        (case chunks of
           [] \<Rightarrow> Inr buf
         | Inl e # rest \<Rightarrow> Inl (SendError ''failed to read webhook response body'')
         | Inr bytes # rest \<Rightarrow> read_body cap rest (buf @ take (cap - length buf) bytes))
      else Inr buf)"

declare read_body.simps [simp del]

definition read_body_snippet :: "(u8 list \<Rightarrow> string) \<Rightarrow> nat \<Rightarrow> (string + u8 list) list \<Rightarrow> send_error + string" where
  "read_body_snippet to_text cap chunks = bind_res (read_body cap chunks []) (\<lambda>b. Inr (to_text b))"

definition check_outcome :: "int \<Rightarrow> string option \<Rightarrow> string + unit" where
  "check_outcome status location =
     (if 200 \<le> status \<and> status < 300 then Inr ()
      else if 300 \<le> status \<and> status < 400
      then Inl (''redirects are not followed: endpoint returned '' @ show_int status @ '' (Location: ''
             @ (case location of Some l \<Rightarrow> l | None \<Rightarrow> ''<none>'') @ '')'')
      else Inl (''non-2xx status '' @ show_int status))"

record send_env =
  se_validate :: "string \<Rightarrow> string + ip_addr"
  se_sign :: "string \<Rightarrow> string \<Rightarrow> string option"
  se_event_row :: "string \<Rightarrow> contract_event_data option"
  se_version_row :: "int \<Rightarrow> contract_upgrade_data option"
  se_time_text :: "int \<Rightarrow> string"
  se_to_vec :: "json \<Rightarrow> string"
  se_clock :: int
  se_http :: "ip_addr \<Rightarrow> string \<Rightarrow> (string \<times> string) list \<Rightarrow> string \<Rightarrow> string + http_response"
  se_lossy :: "u8 list \<Rightarrow> string"
  se_body_cap :: nat
  se_user_agent :: string

definition signature_header :: "send_env \<Rightarrow> due_delivery \<Rightarrow> string \<Rightarrow> string \<Rightarrow> send_error + string" where
  "signature_header env d secret body =
     (let t = show_int (se_clock env); payload = t @ ''.'' @ body;
          sign = (\<lambda>key. ok_or (SendError ''invalid webhook secret'') (se_sign env key payload))
      in bind_res (sign secret) (\<lambda>sig.
         let header = ''t='' @ t @ '',v1='' @ sig
         in case dd_previous_secret d of
              None \<Rightarrow> Inr header
            | Some previous \<Rightarrow> bind_res (sign previous) (\<lambda>sig'. Inr (header @ '',v1='' @ sig'))))"

definition source_envelope :: "send_env \<Rightarrow> due_delivery \<Rightarrow> send_error + webhook_envelope" where
  "source_envelope env d =
     (case dd_source d of
        Some (EventSource i) \<Rightarrow>
          (case se_event_row env i of
             None \<Rightarrow> Inl (SendError ''no rows returned'')
           | Some e \<Rightarrow> Inr (envelope_for_event (se_time_text env) (dd_id d) (dd_created_at d) e))
      | Some (UpgradeSource i) \<Rightarrow>
          (case se_version_row env i of
             None \<Rightarrow> Inl SourcePruned
           | Some u \<Rightarrow> Inr (envelope_for_upgrade (se_time_text env) (dd_id d) (dd_created_at d) u))
      | None \<Rightarrow> Inl SourcePruned)"

definition request_headers :: "send_env \<Rightarrow> due_delivery \<Rightarrow> string \<Rightarrow> (string \<times> string) list" where
  "request_headers env d sig =
     [(''Content-Type'', ''application/json''), (''X-Lumenqraph-Signature'', sig),
      (''X-Lumenqraph-Delivery-Id'', show_nat (dd_id d)),
      (''X-Lumenqraph-Timestamp'', show_int (se_clock env)), (''X-Lumenqraph-Attempt'', show_int (dd_attempts d)),
      (''User-Agent'', se_user_agent env)]"

definition send :: "send_env \<Rightarrow> due_delivery \<Rightarrow> send_error + delivery_outcome" where
  "send env d =
     bind_res (map_sum (\<lambda>e. SendError (''URL validation failed at delivery: '' @ e)) id (se_validate env (dd_url d)))
       (\<lambda>_.
     bind_res (ok_or (SendError ''delivery has no decrypted secret'') (dd_secret d)) (\<lambda>secret.
     bind_res (source_envelope env d) (\<lambda>envelope.
     let body = se_to_vec env (envelope_json (se_time_text env) envelope)
     in bind_res (signature_header env d secret body) (\<lambda>sig.
        bind_res (map_sum SendError id (se_validate env (dd_url d))) (\<lambda>ip.
        bind_res (map_sum (\<lambda>_. SendError ''request failed'') id
            (se_http env ip (dd_url d) (request_headers env d sig) body)) (\<lambda>resp.
        bind_res (if 300 \<le> rs_status resp \<and> rs_status resp < 400
                  then map_sum SendError id (check_outcome (rs_status resp) (rs_location resp)) else Inr ()) (\<lambda>_.
        bind_res (retry_after_of (rs_retry_after resp)) (\<lambda>retry_after.
        bind_res (read_body_snippet (se_lossy env) (se_body_cap env) (rs_chunks resp)) (\<lambda>snippet.
        Inr \<lparr>do_status = Some (rs_status resp), do_retry_after = retry_after, do_body_snippet = snippet\<rparr>)))))))))"

section \<open>Recording the outcome\<close>

definition mark_delivered :: "int \<Rightarrow> nat \<Rightarrow> int \<Rightarrow> string \<Rightarrow> webhook_db \<Rightarrow> webhook_db" where
  "mark_delivered now i status snippet =
     update_delivery i (\<lambda>d. d\<lparr>d_status := Delivered, d_attempts := d_attempts d + 1, d_delivered_at := Some now,
       d_last_error := None, d_locked_until := None, d_locked_by := None, d_last_status_code := Some status,
       d_last_response_snippet := Some snippet\<rparr>)"

definition BACKOFF_CAP_SECS :: int where
  "BACKOFF_CAP_SECS = 3600"

definition BACKOFF_FLOOR_SECS :: int where
  "BACKOFF_FLOOR_SECS = 1"

definition saturating_pow2 :: "nat \<Rightarrow> int" where
  "saturating_pow2 n = min (2 ^ n) (2 ^ 63 - 1)"

definition backoff_window :: "int \<Rightarrow> int" where
  "backoff_window attempts = max (min (saturating_pow2 (nat (max attempts 1))) BACKOFF_CAP_SECS) BACKOFF_FLOOR_SECS"

text \<open>\<open>rng w\<close> is the draw from \<^verbatim>\<open>0..=w\<close>.\<close>

definition jittered_backoff :: "(int \<Rightarrow> int) \<Rightarrow> int \<Rightarrow> int" where
  "jittered_backoff rng attempts = max (rng (backoff_window attempts)) BACKOFF_FLOOR_SECS"

definition retry_row :: "int \<Rightarrow> (int \<Rightarrow> int) \<Rightarrow> due_delivery \<Rightarrow> string \<Rightarrow> int \<Rightarrow> delivery_outcome \<Rightarrow> delivery \<Rightarrow> delivery" where
  "retry_row now rng dd err max_attempts outcome d =
     (let attempts = dd_attempts dd + 1;
          final_retry = attempts \<ge> max_attempts;
          next = (case do_retry_after outcome of
                    Some r \<Rightarrow> now + min r (24 * 3600)
                  | None \<Rightarrow> now + jittered_backoff rng attempts)
      in if final_retry
         then d\<lparr>d_status := Failed, d_attempts := attempts, d_last_error := Some err, d_locked_until := None,
                d_locked_by := None, d_last_status_code := do_status outcome,
                d_last_response_snippet := Some (do_body_snippet outcome)\<rparr>
         else d\<lparr>d_attempts := attempts, d_last_error := Some err, d_next_attempt_at := next, d_locked_until := None,
                d_locked_by := None, d_last_status_code := do_status outcome,
                d_last_response_snippet := Some (do_body_snippet outcome)\<rparr>)"

definition mark_retry ::
  "int \<Rightarrow> (int \<Rightarrow> int) \<Rightarrow> due_delivery \<Rightarrow> string \<Rightarrow> int \<Rightarrow> delivery_outcome \<Rightarrow> webhook_db \<Rightarrow> webhook_db" where
  "mark_retry now rng dd err max_attempts outcome =
     update_delivery (dd_id dd) (retry_row now rng dd err max_attempts outcome)"

definition hours_since :: "int \<Rightarrow> int \<Rightarrow> int" where
  "hours_since now t = (if t \<le> now then (now - t) div 3600 else - ((t - now) div 3600))"

definition should_disable :: "int \<Rightarrow> int \<Rightarrow> subscription \<Rightarrow> bool" where
  "should_disable now failure_threshold s \<longleftrightarrow> sub_consecutive_failures s \<ge> failure_threshold
     \<and> (case sub_last_success_at s of
          Some t \<Rightarrow> hours_since now t \<ge> 24
        | None \<Rightarrow> (case sub_first_failure_at s of Some t \<Rightarrow> hours_since now t \<ge> 24 | None \<Rightarrow> False))"

definition disable_reason :: "int \<Rightarrow> string" where
  "disable_reason n =
     ''Auto-disabled after '' @ show_int n @ '' consecutive delivery failures with no success for 24+ hours''"

definition check_row :: "int \<Rightarrow> int \<Rightarrow> subscription \<Rightarrow> subscription" where
  "check_row now failure_threshold s =
     (let s = s\<lparr>sub_consecutive_failures := sub_consecutive_failures s + 1,
                sub_first_failure_at := (case sub_first_failure_at s of Some t \<Rightarrow> Some t | None \<Rightarrow> Some now)\<rparr>
      in if should_disable now failure_threshold s
         then s\<lparr>sub_active := False, sub_auto_disabled_at := Some now,
                sub_auto_disabled_reason := Some (disable_reason (sub_consecutive_failures s))\<rparr>
         else s)"

definition check_and_auto_disable :: "int \<Rightarrow> nat \<Rightarrow> int \<Rightarrow> webhook_db \<Rightarrow> webhook_db" where
  "check_and_auto_disable now i failure_threshold = update_sub i (check_row now failure_threshold)"

record dispatch_config =
  cfg_max_attempts :: int
  cfg_failure_threshold :: int
  cfg_batch_size :: int
  cfg_max_concurrent :: nat

definition count_failure :: "int \<Rightarrow> dispatch_config \<Rightarrow> nat \<Rightarrow> webhook_db \<Rightarrow> webhook_db" where
  "count_failure now cfg i db =
     check_and_auto_disable now i (cfg_failure_threshold cfg)
       (update_sub i (\<lambda>s. s\<lparr>sub_consecutive_failures := sub_consecutive_failures s + 1\<rparr>) db)"

text \<open>The body of one in-flight send, once the exchange has answered. A panic unwinds out of it.\<close>

definition finish ::
  "int \<Rightarrow> (int \<Rightarrow> int) \<Rightarrow> dispatch_config \<Rightarrow> (nat \<Rightarrow> string \<Rightarrow> webhook_db \<Rightarrow> webhook_db) \<Rightarrow> due_delivery \<Rightarrow>
   send_error + delivery_outcome \<Rightarrow> webhook_db \<Rightarrow> bool option \<times> webhook_db" where
  "finish now rng cfg mark_failed_permanent d result db =
     (case result of
        Inr outcome \<Rightarrow>
          (let status = (case do_status outcome of Some c \<Rightarrow> c | None \<Rightarrow> 200)
           in if 200 \<le> status \<and> status \<le> 299
              then (Some True,
                update_sub (dd_subscription_id d)
                  (\<lambda>s. s\<lparr>sub_consecutive_failures := 0, sub_last_success_at := Some now\<rparr>)
                  (mark_delivered now (dd_id d) status (do_body_snippet outcome) db))
              else
                (let db1 = (if status = 410
                            then auto_disable_subscription now (dd_subscription_id d) ''endpoint returned 410 Gone'' db
                            else db);
                     db2 = mark_retry now rng d ''non-2xx status'' (cfg_max_attempts cfg) outcome db1
                 in (Some False, count_failure now cfg (dd_subscription_id d) db2)))
      | Inl SourcePruned \<Rightarrow> (Some False, mark_failed_permanent (dd_id d) ''source pruned'' db)
      | Inl (SendError e) \<Rightarrow>
          (Some False, count_failure now cfg (dd_subscription_id d)
             (mark_retry now rng d e (cfg_max_attempts cfg) default_outcome db))
      | Inl DurationPanic \<Rightarrow> (None, db))"

section \<open>Pruning\<close>

definition PRUNE_BATCH :: nat where
  "PRUNE_BATCH = 1000"

definition prunable :: "int \<Rightarrow> delivery \<Rightarrow> bool" where
  "prunable cutoff d \<longleftrightarrow> (d_status d = Delivered \<or> d_status d = Failed) \<and> d_created_at d < cutoff"

definition prune_ids :: "int \<Rightarrow> delivery list \<Rightarrow> nat list" where
  "prune_ids cutoff ds = take PRUNE_BATCH (map d_id (sort_key d_created_at (filter (prunable cutoff) ds)))"

definition prune_batch :: "int \<Rightarrow> delivery list \<Rightarrow> nat \<times> delivery list" where
  "prune_batch cutoff ds =
     (let ids = prune_ids cutoff ds; ds' = filter (\<lambda>d. d_id d \<notin> set ids) ds
      in (length ds - length ds', ds'))"

lemma prune_batch_length: "length (snd (prune_batch cutoff ds)) + fst (prune_batch cutoff ds) = length ds"
  by (simp add: prune_batch_def Let_def)

function prune_loop :: "int \<Rightarrow> delivery list \<Rightarrow> nat \<Rightarrow> nat \<times> delivery list" where
  "prune_loop cutoff ds acc =
     (case prune_batch cutoff ds of (deleted, ds') \<Rightarrow>
        if deleted < PRUNE_BATCH then (acc + deleted, ds') else prune_loop cutoff ds' (acc + deleted))"
  by pat_completeness auto
termination
proof (relation "measure (\<lambda>(_, ds, _). length ds)", goal_cases)
  case (2 cutoff ds acc deleted ds')
  then have "prune_batch cutoff ds = (deleted, ds')" "0 < deleted" by (simp_all add: PRUNE_BATCH_def)
  then show ?case
    using prune_batch_length [of cutoff ds] by simp
qed simp

declare prune_loop.simps [simp del]

definition prune_webhook_deliveries :: "int \<Rightarrow> int \<Rightarrow> webhook_db \<Rightarrow> nat \<times> webhook_db" where
  "prune_webhook_deliveries now retention_days db =
     (if retention_days \<le> 0 then (0, db)
      else (case prune_loop (now - retention_days * 86400) (db_deliveries db) 0 of
              (deleted, ds) \<Rightarrow> (deleted, db\<lparr>db_deliveries := ds\<rparr>)))"

section \<open>The delivery loop\<close>

text \<open>
  The sends are futures that only run when the set is polled, which the loop does not do while permits
  are available: it claims until nothing is due and drains afterwards. \<open>clock k\<close> is the time of the
  \<open>k\<close>-th claim. With no permits the loop polls an empty set and goes round again.
\<close>

definition claim_size :: "dispatch_config \<Rightarrow> nat" where
  "claim_size cfg = min (cfg_max_concurrent cfg) (nat (max (cfg_batch_size cfg) 1))"

partial_function (option) claim_loop ::
  "(int \<Rightarrow> string) \<Rightarrow> (webhook_db \<Rightarrow> delivery \<Rightarrow> claimed_row) \<Rightarrow> (nat \<Rightarrow> int) \<Rightarrow> string \<Rightarrow> dispatch_config \<Rightarrow> nat \<Rightarrow>
   due_delivery list \<Rightarrow> webhook_db \<Rightarrow> (due_delivery list \<times> webhook_db) option" where
  "claim_loop time_text joined clock worker cfg k inflight db =
     (if cfg_max_concurrent cfg = 0 then claim_loop time_text joined clock worker cfg k inflight db
      else (case fetch_due time_text joined (clock k) worker (claim_size cfg) db of
              (due, db') \<Rightarrow>
                if due = [] then Some (inflight, db')
                else claim_loop time_text joined clock worker cfg (Suc k) (inflight @ due) db'))"

datatype deliver_result = Sent nat nat | Unwound

text \<open>Draining: the sends in the order they complete, each with its time, its draw and its answer.\<close>

fun drain ::
  "dispatch_config \<Rightarrow> (nat \<Rightarrow> string \<Rightarrow> webhook_db \<Rightarrow> webhook_db) \<Rightarrow>
   (int \<times> (int \<Rightarrow> int) \<times> due_delivery \<times> (send_error + delivery_outcome)) list \<Rightarrow> nat \<Rightarrow> nat \<Rightarrow> webhook_db \<Rightarrow>
   deliver_result \<times> webhook_db" where
  "drain cfg mfp [] delivered failed db = (Sent delivered failed, db)"
| "drain cfg mfp ((now, rng, d, result) # rest) delivered failed db =
     (case finish now rng cfg mfp d result db of
        (Some True, db') \<Rightarrow> drain cfg mfp rest (delivered + 1) failed db'
      | (Some False, db') \<Rightarrow> drain cfg mfp rest delivered (failed + 1) db'
      | (None, db') \<Rightarrow> (Unwound, db'))"

section \<open>The system\<close>

text \<open>
  A step relation over the tables, the clock and the sends in flight, for any number of workers. The
  clock does not pass the end of the lease of a send in flight: a send ends within its lease. Answers the
  sources have no definition for (a pruned source) and panics are treated apart.
\<close>

record system =
  sys_clock :: int
  sys_db :: webhook_db
  sys_inflight :: "due_delivery list"

definition lease_holds :: "int \<Rightarrow> webhook_db \<Rightarrow> nat \<times> int \<Rightarrow> bool" where
  "lease_holds clock db tok \<longleftrightarrow> list_ex (\<lambda>d. d_id d = fst tok \<and> d_attempts d = snd tok \<and> d_status d = Pending
     \<and> (case d_locked_until d of Some t \<Rightarrow> clock \<le> t | None \<Rightarrow> False)) (db_deliveries db)"

abbreviation tok :: "due_delivery \<Rightarrow> nat \<times> int" where
  "tok dd \<equiv> (dd_id dd, dd_attempts dd)"

definition keeps_row :: "(webhook_db \<Rightarrow> delivery \<Rightarrow> claimed_row) \<Rightarrow> bool" where
  "keeps_row joined \<longleftrightarrow> (\<forall>db d. cr_delivery (joined db d) = d)"

inductive step :: "jsonb \<Rightarrow> dispatch_config \<Rightarrow> system \<Rightarrow> system \<Rightarrow> bool" for pg cfg where
  advance: "\<lbrakk>sys_clock s \<le> t; list_all (\<lambda>dd. lease_holds t (sys_db s) (tok dd)) (sys_inflight s)\<rbrakk>
    \<Longrightarrow> step pg cfg s (s\<lparr>sys_clock := t\<rparr>)"
| enqueue: "0 \<le> batch \<Longrightarrow> Webhook_Enqueue.enqueue pg now batch (sys_db s) = (r, db') \<Longrightarrow> step pg cfg s (s\<lparr>sys_db := db'\<rparr>)"
| fetch: "\<lbrakk>keeps_row joined; fetch_due time_text joined (sys_clock s) worker limit (sys_db s) = (due, db')\<rbrakk>
    \<Longrightarrow> step pg cfg s (s\<lparr>sys_db := db', sys_inflight := sys_inflight s @ due\<rparr>)"
| finish: "\<lbrakk>sys_inflight s = xs @ dd # ys; result \<noteq> Inl SourcePruned; result \<noteq> Inl DurationPanic;
     finish (sys_clock s) rng cfg mfp dd result (sys_db s) = (r, db')\<rbrakk>
    \<Longrightarrow> step pg cfg s (s\<lparr>sys_db := db', sys_inflight := xs @ ys\<rparr>)"
| prune: "prune_webhook_deliveries (sys_clock s) days (sys_db s) = (n, db') \<Longrightarrow> step pg cfg s (s\<lparr>sys_db := db'\<rparr>)"

section \<open>The invariant\<close>

definition row_ok :: "dispatch_config \<Rightarrow> delivery \<Rightarrow> bool" where
  "row_ok cfg d \<longleftrightarrow> 0 \<le> d_attempts d \<and> d_attempts d \<le> cfg_max_attempts cfg
     \<and> (d_status d = Pending \<longrightarrow> d_attempts d < cfg_max_attempts cfg)
     \<and> (d_locked_until d \<noteq> None \<longrightarrow> d_status d = Pending)"

definition tables_ok :: "dispatch_config \<Rightarrow> int \<Rightarrow> (nat \<times> int) list \<Rightarrow> webhook_db \<Rightarrow> bool" where
  "tables_ok cfg clock toks db \<longleftrightarrow> delivery_keys_ok db \<and> list_all (row_ok cfg) (db_deliveries db)
     \<and> list_all (lease_holds clock db) toks \<and> distinct (map fst toks)"

lemma update_sub_deliveries [simp]:
  "db_deliveries (update_sub i f db) = db_deliveries db" "db_next_id (update_sub i f db) = db_next_id db"
  by (simp_all add: update_sub_def)

lemma tables_ok_cong:
  "db_deliveries db' = db_deliveries db \<Longrightarrow> db_next_id db' = db_next_id db \<Longrightarrow>
   tables_ok cfg clock toks db' = tables_ok cfg clock toks db"
  by (simp add: tables_ok_def delivery_keys_ok_def lease_holds_def [abs_def])

lemma tables_ok_update_sub [simp]: "tables_ok cfg clock toks (update_sub i f db) = tables_ok cfg clock toks db"
  by (rule tables_ok_cong) simp_all

lemma row_unique: "delivery_keys_ok db \<Longrightarrow> d \<in> set (db_deliveries db) \<Longrightarrow> e \<in> set (db_deliveries db) \<Longrightarrow>
  d_id d = d_id e \<Longrightarrow> d = e"
  by (auto simp: delivery_keys_ok_def distinct_map dest: inj_onD)

lemma list_all_map: "(\<And>x. x \<in> set xs \<Longrightarrow> P (u x)) \<Longrightarrow> list_all P (map u xs)"
  by (simp add: list_all_iff)

lemma update_delivery_deliveries:
  "db_deliveries (update_delivery i f db) = map (\<lambda>d. if d_id d = i then f d else d) (db_deliveries db)"
  by (simp add: update_delivery_def)

lemma keys_ok_map:
  assumes "delivery_keys_ok db" "\<And>d. d \<in> set (db_deliveries db) \<Longrightarrow> d_id (u d) = d_id d \<and> d_key (u d) = d_key d"
  shows "delivery_keys_ok (db\<lparr>db_deliveries := map u (db_deliveries db)\<rparr>)"
proof -
  have "map d_id (map u (db_deliveries db)) = map d_id (db_deliveries db)"
    "map d_key (map u (db_deliveries db)) = map d_key (db_deliveries db)"
    using assms(2) by auto
  moreover have "\<forall>d \<in> set (map u (db_deliveries db)). d_id d < db_next_id db"
    using assms by (auto simp: delivery_keys_ok_def)
  ultimately show ?thesis
    using assms(1) unfolding delivery_keys_ok_def by (metis webhook_db.select_convs(4,5) webhook_db.surjective webhook_db.update_convs(4))
qed

text \<open>Replacing the row of a send in flight by a settled one ends the send and keeps the rest.\<close>

definition settles :: "dispatch_config \<Rightarrow> int \<Rightarrow> (delivery \<Rightarrow> delivery) \<Rightarrow> bool" where
  "settles cfg a f \<longleftrightarrow> (\<forall>d. d_status d = Pending \<and> d_attempts d = a \<and> row_ok cfg d \<longrightarrow>
     d_id (f d) = d_id d \<and> d_key (f d) = d_key d \<and> d_locked_until (f d) = None \<and> row_ok cfg (f d))"

lemma lease_holds_iff:
  "lease_holds clock db t \<longleftrightarrow> (\<exists>d \<in> set (db_deliveries db). d_id d = fst t \<and> d_attempts d = snd t
     \<and> d_status d = Pending \<and> (\<exists>u. d_locked_until d = Some u \<and> clock \<le> u))"
  by (auto simp: lease_holds_def list_ex_iff split: option.splits)

lemma tables_ok_settle:
  assumes ok: "tables_ok cfg clock (xs @ (i, a) # ys) db" and f: "settles cfg a f"
  shows "tables_ok cfg clock (xs @ ys) (update_delivery i f db)"
proof -
  let ?ds = "db_deliveries db" and ?u = "\<lambda>d. if d_id d = i then f d else d"
  have keys: "delivery_keys_ok db" and rows: "\<And>d. d \<in> set ?ds \<Longrightarrow> row_ok cfg d"
    using ok by (auto simp: tables_ok_def list_all_iff)
  obtain d0 where d0: "d0 \<in> set ?ds" "d_id d0 = i" "d_attempts d0 = a" "d_status d0 = Pending"
    using ok by (auto simp: tables_ok_def lease_holds_iff)
  have upd: "d_id (?u d) = d_id d \<and> d_key (?u d) = d_key d \<and> row_ok cfg (?u d)" if "d \<in> set ?ds" for d
    using f d0 row_unique [OF keys that d0(1)] rows [OF that] by (auto simp: settles_def)
  have "delivery_keys_ok (update_delivery i f db)"
    unfolding update_delivery_def by (rule keys_ok_map [OF keys]) (use upd in blast)
  moreover have "list_all (row_ok cfg) (db_deliveries (update_delivery i f db))"
    unfolding update_delivery_deliveries by (rule list_all_map) (use upd in blast)
  moreover have "lease_holds clock (update_delivery i f db) t" if "t \<in> set (xs @ ys)" for t
  proof -
    have "fst t \<noteq> i" "lease_holds clock db t"
      using ok that by (auto simp: tables_ok_def list_all_iff)
    then show ?thesis
      by (force simp: lease_holds_iff update_delivery_def)
  qed
  ultimately show ?thesis
    using ok by (auto simp: tables_ok_def list_all_iff)
qed

lemma settles_failed: "settles cfg a (\<lambda>d. d\<lparr>d_status := Failed, d_last_error := e, d_locked_until := None, d_locked_by := None\<rparr>)"
  by (auto simp: settles_def row_ok_def d_key_def)

lemma settles_delivered:
  "settles cfg a (\<lambda>d. d\<lparr>d_status := Delivered, d_attempts := d_attempts d + 1, d_delivered_at := w, d_last_error := None,
     d_locked_until := None, d_locked_by := None, d_last_status_code := c, d_last_response_snippet := b\<rparr>)"
  by (auto simp: settles_def row_ok_def d_key_def)

lemma settles_retry:
  "dd_attempts dd = a \<Longrightarrow> settles cfg a (retry_row now rng dd err (cfg_max_attempts cfg) outcome)"
  by (auto simp: settles_def row_ok_def d_key_def retry_row_def Let_def)

lemma tables_ok_claim:
  assumes ok: "tables_ok cfg clock toks db" and claim: "claim clock worker limit db = (rows, db')"
  shows "tables_ok cfg clock (toks @ map (\<lambda>d. (d_id d, d_attempts d)) rows) db'"
proof -
  let ?ids = "claim_ids clock limit db"
  let ?u = "\<lambda>d. if d_id d \<in> set ?ids then lock_row clock worker d else d"
  have db': "db' = db\<lparr>db_deliveries := map ?u (db_deliveries db)\<rparr>"
    and rows: "rows = filter (\<lambda>d. d_id d \<in> set ?ids) (map ?u (db_deliveries db))"
    using claim by (auto simp: claim_def Let_def)
  have keys: "delivery_keys_ok db" and row: "\<And>d. d \<in> set (db_deliveries db) \<Longrightarrow> row_ok cfg d"
    using ok by (auto simp: tables_ok_def list_all_iff)
  have claimed: "claimable clock d" if "d \<in> set (db_deliveries db)" "d_id d \<in> set ?ids" for d
  proof -
    obtain e where "e \<in> set (db_deliveries db)" "claimable clock e" "d_id e = d_id d"
      using \<open>d_id d \<in> set ?ids\<close> by (auto simp: claim_ids_def dest!: in_set_takeD)
    with row_unique [OF keys \<open>d \<in> set (db_deliveries db)\<close>] show ?thesis by metis
  qed
  have ids: "map d_id (map ?u (db_deliveries db)) = map d_id (db_deliveries db)"
    "map d_key (map ?u (db_deliveries db)) = map d_key (db_deliveries db)"
    by (auto simp: lock_row_def d_key_def)
  have "delivery_keys_ok db'"
    unfolding db' by (rule keys_ok_map [OF keys]) (simp add: lock_row_def d_key_def)
  moreover have "row_ok cfg (?u d)" if "d \<in> set (db_deliveries db)" for d
    using row [OF that] claimed [OF that] by (auto simp: row_ok_def lock_row_def claimable_def)
  then have "list_all (row_ok cfg) (map ?u (db_deliveries db))" by (rule list_all_map)
  then have "list_all (row_ok cfg) (db_deliveries db')" by (simp add: db')
  moreover have fresh: "fst t \<notin> set ?ids" "lease_holds clock db' t" if "t \<in> set toks" for t
  proof -
    obtain d u where d: "d \<in> set (db_deliveries db)" "d_id d = fst t" "d_attempts d = snd t" "d_status d = Pending"
      "d_locked_until d = Some u" "clock \<le> u"
      using ok \<open>t \<in> set toks\<close> by (auto simp: tables_ok_def list_all_iff lease_holds_iff)
    then have "\<not> claimable clock d" by (simp add: claimable_def)
    then show "fst t \<notin> set ?ids" using claimed [OF d(1)] d(2) by auto
    then show "lease_holds clock db' t"
      using d unfolding lease_holds_iff db' by force
  qed
  moreover have "lease_holds clock db' (d_id d, d_attempts d)" if "d \<in> set rows" for d
    using that claimed unfolding lease_holds_iff db' rows
    by (fastforce simp: lock_row_def lock_duration_def claimable_def)
  moreover have "distinct (map d_id rows)" "\<And>d. d \<in> set rows \<Longrightarrow> d_id d \<in> set ?ids"
    using keys ids unfolding rows delivery_keys_ok_def by (auto simp: distinct_map_filter simp del: map_map)
  moreover from calculation have "set (map fst toks) \<inter> d_id ` set rows = {}" by fastforce
  ultimately show ?thesis
    using ok unfolding tables_ok_def by (simp add: list_all_iff comp_def) blast
qed

definition row_tok :: "claimed_row \<Rightarrow> nat \<times> int" where
  "row_tok r = (d_id (cr_delivery r), d_attempts (cr_delivery r))"

lemma process_row_Due:
  "process_row tt r = Due dd \<Longrightarrow> tok dd = row_tok r"
  by (auto simp: process_row_def row_tok_def Let_def split: option.splits if_splits)

lemma tables_ok_process_rows:
  assumes "tables_ok cfg clock (toks @ map tok due @ map row_tok rows) db"
    and "process_rows tt rows (due, failed, db) = (due', failed', db')"
  shows "tables_ok cfg clock (toks @ map tok due') db'"
  using assms
proof (induction rows arbitrary: due failed db)
  case (Cons r rows)
  let ?i = "d_id (cr_delivery r)"
  have failed_case: "tables_ok cfg clock (toks @ map tok due @ map row_tok rows) (mark_failed_undecryptable ?i msg db)" for msg
  proof -
    have "tables_ok cfg clock ((toks @ map tok due) @ (?i, d_attempts (cr_delivery r)) # map row_tok rows) db"
      using Cons.prems(1) by (simp add: row_tok_def [of r])
    from tables_ok_settle [OF this settles_failed] show ?thesis
      by (simp add: mark_failed_undecryptable_def)
  qed
  show ?case
  proof (cases "process_row tt r")
    case (Due dd)
    with Cons.IH [where due = "due @ [dd]"] Cons.prems process_row_Due [OF Due] show ?thesis by simp
  qed (use Cons.IH Cons.prems failed_case in \<open>auto simp: Let_def\<close>)
qed simp

lemma fold_disable_deliveries [simp]:
  "tables_ok cfg clock toks (fold (\<lambda>(sub, reason). auto_disable_subscription now sub reason) fs db) = tables_ok cfg clock toks db"
  by (induction fs arbitrary: db) (simp_all add: auto_disable_subscription_def case_prod_beta)

lemma tables_ok_fetch_due:
  assumes "tables_ok cfg clock (map tok inflight) db" "keeps_row joined"
    and "fetch_due tt joined clock worker limit db = (due, db')"
  shows "tables_ok cfg clock (map tok (inflight @ due)) db'"
proof -
  obtain rows db1 where c: "claim clock worker limit db = (rows, db1)" by fastforce
  obtain failed db2 where p: "process_rows tt (map (joined db1) rows) ([], [], db1) = (due, failed, db2)"
    and db': "db' = fold (\<lambda>(sub, reason). auto_disable_subscription clock sub reason) failed db2"
    using assms(3) c by (auto simp: fetch_due_def split: prod.splits)
  have "map row_tok (map (joined db1) rows) = map (\<lambda>d. (d_id d, d_attempts d)) rows"
    using assms(2) by (simp add: row_tok_def keeps_row_def)
  then have "tables_ok cfg clock (map tok inflight @ map tok [] @ map row_tok (map (joined db1) rows)) db1"
    using tables_ok_claim [OF assms(1) c] by (simp only: list.map append_Nil)
  from tables_ok_process_rows [OF this p] show ?thesis by (simp add: db')
qed

lemma tables_ok_mark_retry:
  "tables_ok cfg clock (xs @ tok dd # ys) db \<Longrightarrow>
   tables_ok cfg clock (xs @ ys) (mark_retry now rng dd e (cfg_max_attempts cfg) outcome db)"
  unfolding mark_retry_def by (rule tables_ok_settle [OF _ settles_retry [OF refl]])

lemma tables_ok_finish:
  assumes "tables_ok cfg clock (xs @ tok dd # ys) db"
    and "result \<noteq> Inl SourcePruned" "result \<noteq> Inl DurationPanic"
    and "finish now rng cfg mfp dd result db = (r, db')"
  shows "tables_ok cfg clock (xs @ ys) db'"
proof (cases result)
  case (Inl e)
  then obtain msg where "e = SendError msg" using assms(2,3) by (cases e) auto
  with Inl assms(1,4) show ?thesis
    by (auto simp: finish_def count_failure_def check_and_auto_disable_def tables_ok_mark_retry)
next
  case (Inr outcome)
  have "tables_ok cfg clock (xs @ ys) (mark_delivered now (dd_id dd) c b db)" for c b
    unfolding mark_delivered_def by (rule tables_ok_settle [OF assms(1) settles_delivered])
  with Inr assms(1,4) show ?thesis
    by (auto simp: finish_def Let_def count_failure_def check_and_auto_disable_def auto_disable_subscription_def
        intro!: tables_ok_mark_retry split: if_splits)
qed

lemma tables_ok_enqueue:
  assumes ok: "tables_ok cfg clock toks db" and b: "0 \<le> batch" and e: "Webhook_Enqueue.enqueue pg now batch db = (r, db')"
    and m: "0 < cfg_max_attempts cfg"
  shows "tables_ok cfg clock toks db'"
proof -
  have keys: "delivery_keys_ok db" using ok by (simp add: tables_ok_def)
  note frame = enqueue_frame [OF keys b e]
  then obtain new where new: "db_deliveries db' = db_deliveries db @ new"
    "\<forall>d \<in> set new. d_status d = Pending \<and> d_attempts d = 0 \<and> d_locked_until d = None"
    by (auto simp: extends_def)
  then have "list_all (row_ok cfg) new" using m by (auto simp: list_all_iff row_ok_def)
  moreover have "lease_holds clock db' t" if "lease_holds clock db t" for t
    using that new(1) unfolding lease_holds_iff by (metis UnI1 set_append)
  ultimately show ?thesis
    using ok frame new(1) by (auto simp: tables_ok_def list_all_iff)
qed

lemma prune_batch_spec:
  assumes "prune_batch cutoff ds = (n, ds')"
  shows "set ds' \<subseteq> set ds" "distinct (map d_id ds) \<Longrightarrow> d \<in> set ds \<Longrightarrow> \<not> prunable cutoff d \<Longrightarrow> d \<in> set ds'"
    "\<exists>P. ds' = filter P ds"
proof -
  have ds': "ds' = filter (\<lambda>d. d_id d \<notin> set (prune_ids cutoff ds)) ds"
    using assms by (auto simp: prune_batch_def Let_def)
  then show "set ds' \<subseteq> set ds" "\<exists>P. ds' = filter P ds" by auto
  assume "distinct (map d_id ds)" "d \<in> set ds" "\<not> prunable cutoff d"
  moreover have "\<exists>e \<in> set ds. prunable cutoff e \<and> d_id e = i" if "i \<in> set (prune_ids cutoff ds)" for i
    using that by (auto simp: prune_ids_def dest!: in_set_takeD)
  ultimately show "d \<in> set ds'"
    unfolding ds' by (auto simp: distinct_map dest: inj_onD)
qed

lemma prune_loop_spec:
  assumes "prune_loop cutoff ds acc = (n, ds')" "distinct (map d_id ds)"
  shows "ds' = filter (\<lambda>d. \<not> prunable cutoff d) ds \<and> n = acc + length (filter (prunable cutoff) ds)"
  using assms
proof (induction cutoff ds acc rule: prune_loop.induct)
  case (1 cutoff ds acc)
  let ?old = "sort_key d_created_at (filter (prunable cutoff) ds)"
  define ids where "ids = prune_ids cutoff ds"
  define k ds1 where "k = fst (prune_batch cutoff ds)" and "ds1 = snd (prune_batch cutoff ds)"
  have b: "prune_batch cutoff ds = (k, ds1)" by (simp add: k_def ds1_def)
  have ds1: "ds1 = filter (\<lambda>d. d_id d \<notin> set ids) ds"
    by (simp add: ds1_def prune_batch_def Let_def ids_def)
  have taken: "d_id d \<in> set ids \<longleftrightarrow> d \<in> set (take PRUNE_BATCH ?old)" if "d \<in> set ds" for d
  proof -
    have "set (take PRUNE_BATCH ?old) \<subseteq> set ds" by (auto dest!: in_set_takeD)
    then have "d_id d \<in> d_id ` set (take PRUNE_BATCH ?old) \<longleftrightarrow> d \<in> set (take PRUNE_BATCH ?old)"
      using "1.prems"(2) that by (auto simp: distinct_map dest: inj_onD)
    then show ?thesis by (simp add: ids_def prune_ids_def take_map)
  qed
  have inter: "set (take PRUNE_BATCH ?old) \<subseteq> set ds \<inter> Collect (prunable cutoff)"
    by (auto dest!: in_set_takeD)
  have dist: "distinct ds" "distinct ?old"
    using "1.prems"(2) by (simp_all add: distinct_map)
  have len: "k = length (take PRUNE_BATCH ?old)"
  proof -
    have "length (filter (\<lambda>d. d_id d \<in> set ids) ds) = card (set (take PRUNE_BATCH ?old))"
      using taken inter dist(1) by (subst distinct_card [symmetric]) (auto intro!: arg_cong [of _ _ card])
    then have "length (filter (\<lambda>d. d_id d \<in> set ids) ds) = length (take PRUNE_BATCH ?old)"
      using dist(2) by (simp add: distinct_card)
    then show ?thesis
      using prune_batch_length [of cutoff ds] sum_length_filter_compl [of "\<lambda>d. d_id d \<in> set ids" ds]
      by (simp add: b ds1)
  qed
  show ?case
  proof (cases "k < PRUNE_BATCH")
    case True
    with len have "take PRUNE_BATCH ?old = ?old" by simp
    then have "ds1 = filter (\<lambda>d. \<not> prunable cutoff d) ds"
      unfolding ds1 using taken by (auto intro: filter_cong)
    with True "1.prems"(1) b len show ?thesis
      by (auto simp: prune_loop.simps [of cutoff ds] min_def split: if_splits)
  next
    case False
    have kept: "filter (\<lambda>d. \<not> prunable cutoff d) ds1 = filter (\<lambda>d. \<not> prunable cutoff d) ds"
      unfolding ds1 filter_filter using taken inter by (intro filter_cong) auto
    have "length (filter (prunable cutoff) ds) = k + length (filter (prunable cutoff) ds1)"
      using sum_length_filter_compl [of "prunable cutoff" ds] sum_length_filter_compl [of "prunable cutoff" ds1]
        kept prune_batch_length [of cutoff ds] by (simp add: b)
    moreover have "distinct (map d_id ds1)" using "1.prems"(2) by (simp add: ds1 distinct_map_filter)
    ultimately show ?thesis
      using "1.IH" [OF b [symmetric] False] False "1.prems"(1) b kept by (simp add: prune_loop.simps [of cutoff ds])
  qed
qed

lemma prune_spec:
  assumes "prune_webhook_deliveries now days db = (n, db')" "distinct (map d_id (db_deliveries db))"
  shows "db' = db\<lparr>db_deliveries := filter (\<lambda>d. \<not> (0 < days \<and> prunable (now - days * 86400) d)) (db_deliveries db)\<rparr>
    \<and> n = length (filter (\<lambda>d. 0 < days \<and> prunable (now - days * 86400) d) (db_deliveries db))"
proof (cases "0 < days")
  case True
  obtain k ds where loop: "prune_loop (now - days * 86400) (db_deliveries db) 0 = (k, ds)" by fastforce
  from prune_loop_spec [OF loop assms(2)] True assms(1) loop show ?thesis
    by (simp add: prune_webhook_deliveries_def)
qed (use assms in \<open>simp add: prune_webhook_deliveries_def\<close>)

lemma tables_ok_prune:
  assumes ok: "tables_ok cfg clock toks db" and p: "prune_webhook_deliveries now days db = (n, db')"
  shows "tables_ok cfg clock toks db'"
proof -
  have keys: "delivery_keys_ok db" using ok by (simp add: tables_ok_def)
  then have "distinct (map d_id (db_deliveries db))" by (simp add: delivery_keys_ok_def)
  from prune_spec [OF p this] obtain P where db': "db' = db\<lparr>db_deliveries := filter P (db_deliveries db)\<rparr>"
    and P: "\<And>d. d_status d = Pending \<Longrightarrow> P d"
    by (auto simp: prunable_def)
  have "lease_holds clock db' t" if "lease_holds clock db t" for t
    using that P unfolding lease_holds_iff db' by auto
  with ok show ?thesis
    by (auto simp: tables_ok_def db' delivery_keys_ok_def list_all_iff distinct_map_filter)
qed

abbreviation system_ok :: "dispatch_config \<Rightarrow> system \<Rightarrow> bool" where
  "system_ok cfg s \<equiv> tables_ok cfg (sys_clock s) (map tok (sys_inflight s)) (sys_db s)"

lemma step_system_ok:
  assumes "step pg cfg s s'" "0 < cfg_max_attempts cfg" "system_ok cfg s"
  shows "system_ok cfg s'"
  using assms
proof cases
  case (advance t)
  with assms(3) show ?thesis by (auto simp: tables_ok_def list_all_iff)
next
  case (enqueue batch now r db')
  with tables_ok_enqueue [OF assms(3) _ _ assms(2)] show ?thesis by simp
next
  case (fetch joined tt worker limit due db')
  with tables_ok_fetch_due [OF assms(3)] show ?thesis by simp
next
  case (finish xs dd ys result rng mfp r db')
  with tables_ok_finish [of cfg "sys_clock s" "map tok xs" dd "map tok ys" "sys_db s"] assms(3) show ?thesis by simp
next
  case (prune days n db')
  with tables_ok_prune [OF assms(3)] show ?thesis by simp
qed

section \<open>Properties of the delivery stage\<close>


definition empty_db :: webhook_db where
  "empty_db = \<lparr>db_events = [], db_versions = [], db_subs = [], db_deliveries = [], db_next_id = 0, db_last_seq = 0,
     db_last_upgrade_id = 0\<rparr>"

definition sample_config :: dispatch_config where
  "sample_config = \<lparr>cfg_max_attempts = 6, cfg_failure_threshold = 10, cfg_batch_size = 100, cfg_max_concurrent = 100\<rparr>"

lemma empty_system_ok: "system_ok cfg \<lparr>sys_clock = 0, sys_db = empty_db, sys_inflight = []\<rparr>"
  by (simp add: tables_ok_def empty_db_def delivery_keys_ok_def)


lemma settled_elsewhere:
  assumes "delivery_keys_ok db" "lease_holds clock db (i, a)" "d \<in> set (db_deliveries db)" "d_status d \<noteq> Pending"
  shows "d \<in> set (db_deliveries (update_delivery i f db))"
proof -
  have "d_id d \<noteq> i"
    using assms row_unique [OF assms(1,3)] by (auto simp: lease_holds_iff)
  with assms(3) show ?thesis by (force simp: update_delivery_def)
qed

lemma process_rows_terminal:
  assumes "tables_ok cfg clock (toks @ map tok due @ map row_tok rows) db"
    and "process_rows tt rows (due, failed, db) = (due', failed', db')"
    and "d \<in> set (db_deliveries db)" "d_status d \<noteq> Pending"
  shows "d \<in> set (db_deliveries db')"
  using assms
proof (induction rows arbitrary: due failed db)
  case (Cons r rows)
  let ?i = "d_id (cr_delivery r)"
  have ok: "tables_ok cfg clock ((toks @ map tok due) @ (?i, d_attempts (cr_delivery r)) # map row_tok rows) db"
    using Cons.prems(1) by (simp add: row_tok_def [of r])
  have failed_case: "tables_ok cfg clock (toks @ map tok due @ map row_tok rows) (mark_failed_undecryptable ?i msg db)"
    "d \<in> set (db_deliveries (mark_failed_undecryptable ?i msg db))" for msg
    using tables_ok_settle [OF ok settles_failed] settled_elsewhere [of db clock ?i "d_attempts (cr_delivery r)" d]
      ok Cons.prems(3,4) by (simp_all add: mark_failed_undecryptable_def tables_ok_def)
  show ?case
  proof (cases "process_row tt r")
    case (Due dd)
    with Cons.IH [where due = "due @ [dd]"] Cons.prems process_row_Due [OF Due] show ?thesis by simp
  next
    case (SecretFailed msg reason)
    with Cons.IH [OF failed_case(1) _ failed_case(2) Cons.prems(4)] Cons.prems(2) show ?thesis by (simp add: Let_def)
  next
    case (NoPayload msg)
    with Cons.IH [OF failed_case(1) _ failed_case(2) Cons.prems(4)] Cons.prems(2) show ?thesis by (simp add: Let_def)
  qed
qed simp

lemma fold_disable_rows [simp]:
  "db_deliveries (fold (\<lambda>(sub, reason). auto_disable_subscription now sub reason) fs db) = db_deliveries db"
  by (induction fs arbitrary: db) (simp_all add: auto_disable_subscription_def case_prod_beta)

lemma claim_terminal:
  assumes "delivery_keys_ok db" "claim now worker limit db = (rows, db')" "d \<in> set (db_deliveries db)"
    "d_status d \<noteq> Pending"
  shows "d \<in> set (db_deliveries db')"
proof -
  have "d_id d \<notin> set (claim_ids now limit db)"
  proof
    assume "d_id d \<in> set (claim_ids now limit db)"
    then obtain e where "e \<in> set (db_deliveries db)" "claimable now e" "d_id e = d_id d"
      by (auto simp: claim_ids_def dest!: in_set_takeD)
    with row_unique [OF assms(1,3)] assms(4) show False by (metis claimable_def)
  qed
  with assms(2,3) show ?thesis by (force simp: claim_def Let_def)
qed

lemma fetch_due_terminal:
  assumes "tables_ok cfg clock (map tok inflight) db" "keeps_row joined"
    "fetch_due tt joined clock worker limit db = (due, db')" "d \<in> set (db_deliveries db)" "d_status d \<noteq> Pending"
  shows "d \<in> set (db_deliveries db')"
proof -
  obtain rows db1 where c: "claim clock worker limit db = (rows, db1)" by fastforce
  obtain failed db2 where p: "process_rows tt (map (joined db1) rows) ([], [], db1) = (due, failed, db2)"
    and db': "db' = fold (\<lambda>(sub, reason). auto_disable_subscription clock sub reason) failed db2"
    using assms(3) c by (auto simp: fetch_due_def split: prod.splits)
  have "map row_tok (map (joined db1) rows) = map (\<lambda>d. (d_id d, d_attempts d)) rows"
    using assms(2) by (simp add: row_tok_def keeps_row_def)
  then have "tables_ok cfg clock (map tok inflight @ map tok [] @ map row_tok (map (joined db1) rows)) db1"
    using tables_ok_claim [OF assms(1) c] by (simp only: list.map append_Nil)
  moreover have "d \<in> set (db_deliveries db1)"
    by (rule claim_terminal [OF _ c assms(4,5)]) (use assms(1) in \<open>simp add: tables_ok_def\<close>)
  ultimately have "d \<in> set (db_deliveries db2)"
    by (rule process_rows_terminal [OF _ p _ assms(5)])
  then show ?thesis by (simp add: db')
qed

lemma finish_terminal:
  assumes ok: "tables_ok cfg clock (xs @ tok dd # ys) db"
    and "finish now rng cfg mfp dd result db = (r, db')" "result \<noteq> Inl SourcePruned" "result \<noteq> Inl DurationPanic"
    and d: "d \<in> set (db_deliveries db)" "d_status d \<noteq> Pending"
  shows "d \<in> set (db_deliveries db')"
proof -
  have keys: "delivery_keys_ok db" and lease: "lease_holds clock db (tok dd)"
    using ok by (auto simp: tables_ok_def)
  note stays = settled_elsewhere [OF keys lease d]
  have "db_deliveries (auto_disable_subscription now i reason db) = db_deliveries db" for i reason
    by (simp add: auto_disable_subscription_def)
  then have "d \<in> set (db_deliveries (mark_retry now rng dd e m out (auto_disable_subscription now i reason db)))" for e m out i reason
    using stays by (simp add: mark_retry_def update_delivery_deliveries)
  then show ?thesis
    using assms(2-4) stays
    by (cases result; cases "projl result")
      (auto simp: finish_def Let_def count_failure_def check_and_auto_disable_def mark_delivered_def mark_retry_def
        split: if_splits)
qed


definition sample_delivery :: "nat \<Rightarrow> delivery_status \<Rightarrow> int \<Rightarrow> int \<Rightarrow> delivery" where
  "sample_delivery i st attempts created = (new_delivery created i (1, EventSource (show_nat i)))\<lparr>d_status := st, d_attempts := attempts\<rparr>"

lemma sample_row_ok:
  "tables_ok sample_config clock [] (empty_db\<lparr>db_deliveries := [sample_delivery 0 Delivered 1 c], db_next_id := 1\<rparr>)"
  by (simp add: tables_ok_def empty_db_def delivery_keys_ok_def row_ok_def sample_config_def sample_delivery_def)



definition sample_due :: due_delivery where
  "sample_due = \<lparr>dd_id = 0, dd_subscription_id = 1, dd_attempts = 2, dd_url = ''https://x/'', dd_secret = Some ''k'',
     dd_previous_secret = None, dd_source = Some (EventSource ''a''), dd_created_at = 0,
     dd_envelope = \<lparr>we_id = ''0'', we_payload_type = ''contract.event'', we_version = 1, we_created_at = 0, we_data = Null\<rparr>\<rparr>"


fun fail_times :: "int \<Rightarrow> (int \<Rightarrow> int) \<Rightarrow> int \<Rightarrow> due_delivery \<Rightarrow> nat \<Rightarrow> delivery \<Rightarrow> delivery" where
  "fail_times now rng m dd 0 d = d"
| "fail_times now rng m dd (Suc k) d =
     fail_times now rng m dd k (retry_row now rng (dd\<lparr>dd_attempts := d_attempts d\<rparr>) ''e'' m default_outcome d)"

lemma retry_row_progress:
  "d_attempts (retry_row now rng dd e m out d) = dd_attempts dd + 1"
  "d_status (retry_row now rng dd e m out d) = (if m \<le> dd_attempts dd + 1 then Failed else d_status d)"
  by (simp_all add: retry_row_def Let_def)



text \<open>
  Claim C27. The pruner ends and removes exactly the old settled rows: whatever number of batches it
  takes, what remains is every pending delivery and every delivery younger than the retention, in order,
  the count is the number removed, and a retention of zero days or less removes nothing.
\<close>

theorem prune_removes_exactly:
  assumes "distinct (map d_id (db_deliveries db))"
  shows "prune_webhook_deliveries now days db =
    (length (filter (\<lambda>d. 0 < days \<and> prunable (now - days * 86400) d) (db_deliveries db)),
     db\<lparr>db_deliveries := filter (\<lambda>d. \<not> (0 < days \<and> prunable (now - days * 86400) d)) (db_deliveries db)\<rparr>)"
  using prune_spec [OF _ assms, of now days] by (metis prod.collapse)

theorem prune_removes_exactly_witness:
  "fst (prune_webhook_deliveries 2000000 14
     (empty_db\<lparr>db_deliveries := [sample_delivery 0 Delivered 1 0, sample_delivery 1 Pending 1 0, sample_delivery 2 Failed 6 1999999]\<rparr>)) = 1"
proof -
  let ?db = "empty_db\<lparr>db_deliveries := [sample_delivery 0 Delivered 1 0, sample_delivery 1 Pending 1 0, sample_delivery 2 Failed 6 1999999]\<rparr>"
  have "distinct (map d_id (db_deliveries ?db))" by (simp add: sample_delivery_def)
  from prune_removes_exactly [OF this, of 2000000 14] show ?thesis
    by (simp add: sample_delivery_def prunable_def new_delivery_def)
qed

lemma read_body_spec:
  "list_all (\<lambda>c. \<not> isl c) chunks \<Longrightarrow> length buf \<le> cap \<Longrightarrow>
   read_body cap chunks buf = Inr (take cap (buf @ concat (map projr chunks)))"
proof (induction chunks arbitrary: buf)
  case Nil
  then show ?case by (subst read_body.simps) simp
next
  case (Cons c chunks)
  then obtain bytes where c: "c = Inr bytes" by (cases c) auto
  let ?buf = "buf @ take (cap - length buf) bytes"
  show ?case
  proof (cases "length buf < cap")
    case True
    then have "read_body cap (c # chunks) buf = read_body cap chunks ?buf"
      by (subst read_body.simps) (simp add: c)
    also have "\<dots> = Inr (take cap (?buf @ concat (map projr chunks)))"
      by (rule Cons.IH) (use Cons.prems in simp_all)
    also have "take cap (?buf @ concat (map projr chunks)) = take cap (buf @ concat (map projr (c # chunks)))"
      using True by (cases "length bytes \<le> cap - length buf") (simp_all add: c)
    finally show ?thesis .
  qed (use Cons.prems in \<open>subst read_body.simps, simp\<close>)
qed

text \<open>
  A response can stop the service. A \<^verbatim>\<open>Retry-After\<close> header of that many seconds that it does not fit in
  milliseconds panics inside the send, whatever the status, and the panic leaves every other send in flight
  unrecorded; a header that wraps to a negative number schedules the retry in the past.
\<close>

theorem huge_retry_after_unwinds:
  assumes "(2 ^ 63 - 1) div 1000 < n" "n < 2 ^ 63"
    and "se_validate env (dd_url d) = Inr ip" "dd_secret d = Some k" "source_envelope env d = Inr w"
    and "dd_previous_secret d = None" "\<And>p. se_sign env k p \<noteq> None"
    and "\<And>h b. se_http env ip (dd_url d) h b = Inr resp" "rs_retry_after resp = Some (show_nat n)"
    and "\<not> (300 \<le> rs_status resp \<and> rs_status resp < 400)"
  shows "send env d = Inl DurationPanic
    \<and> drain cfg mfp ((now, rng, d, send env d) # rest) a b db = (Unwound, db)
    \<and> retry_after_of (Some (show_nat (2 ^ 64 - 1))) = Inr (Some (- 1))"
proof -
  have n: "parse_unsigned 64 (show_nat n) = Some n" "parse_unsigned 64 (show_nat (2 ^ 64 - 1)) = Some (2 ^ 64 - 1)"
    using assms(2) by (simp_all add: parse_unsigned_show)
  have "sint (of_nat n :: u64) = int n"
    using assms(2) by (simp add: signed_of_nat signed_take_bit_int_eq_self)
  then have "duration_seconds (of_nat n) = Inl DurationPanic"
    using assms(1) by (simp add: duration_seconds_def)
  then have ra: "retry_after_of (rs_retry_after resp) = Inl DurationPanic"
    using assms(9) n by (simp add: retry_after_of_def)
  let ?body = "se_to_vec env (envelope_json (se_time_text env) w)"
  obtain s where "se_sign env k (show_int (se_clock env) @ ''.'' @ ?body) = Some s"
    using assms(7) by (meson not_None_eq)
  then obtain sig where "signature_header env d k ?body = Inr sig"
    using assms(6) by (simp add: signature_header_def Let_def)
  then have send: "send env d = Inl DurationPanic"
    using assms(3,4,5,8,10) ra unfolding send_def Let_def by auto
  moreover have "retry_after_of (Some (show_nat (2 ^ 64 - 1))) = Inr (Some (- 1))"
    using n by (simp add: retry_after_of_def duration_seconds_def)
  ultimately show ?thesis by (simp add: finish_def)
qed

definition sample_send_env :: send_env where
  "sample_send_env = \<lparr>se_validate = (\<lambda>u. Inr (V4 (Ipv4 8 8 8 8))), se_sign = (\<lambda>k p. Some ''00''),
     se_event_row = (\<lambda>i. Some \<lparr>ce_event_id = i, ce_contract_id = ''C'', ce_ledger = 1, ce_ledger_closed_at = 0,
       ce_event_name = None, ce_topics = [], ce_value = [], ce_decoded_topics = Null, ce_decoded_value = Null,
       ce_enriched = None, ce_tx_hash = [], ce_in_successful_call = True\<rparr>),
     se_version_row = (\<lambda>i. None), se_time_text = (\<lambda>t. []), se_to_vec = (\<lambda>j. []), se_clock = 0,
     se_http = (\<lambda>ip u h b. Inr \<lparr>rs_status = 503, rs_location = None,
       rs_retry_after = Some (show_nat 9223372036854775807), rs_chunks = []\<rparr>),
     se_lossy = (\<lambda>b. []), se_body_cap = 512, se_user_agent = []\<rparr>"

theorem huge_retry_after_unwinds_witness: "send sample_send_env sample_due = Inl DurationPanic"
proof -
  define w where "w = projr (source_envelope sample_send_env sample_due)"
  define resp where "resp = projr (se_http sample_send_env (V4 (Ipv4 8 8 8 8)) [] [] [])"
  have "source_envelope sample_send_env sample_due = Inr w"
    by (simp add: w_def source_envelope_def sample_send_env_def sample_due_def)
  moreover have "se_http sample_send_env (V4 (Ipv4 8 8 8 8)) (dd_url sample_due) h b = Inr resp" for h b
    by (simp add: resp_def sample_send_env_def)
  ultimately show ?thesis
    using huge_retry_after_unwinds [of 9223372036854775807 sample_send_env sample_due "V4 (Ipv4 8 8 8 8)" "''k''" w resp]
    by (simp add: sample_due_def) (simp add: sample_send_env_def resp_def)
qed

definition may_be_claimed :: "int \<Rightarrow> delivery \<Rightarrow> bool" where
  "may_be_claimed t d \<longleftrightarrow> d_status d = Pending \<and> (case d_locked_until d of None \<Rightarrow> True | Some u \<Rightarrow> u < t)"

abbreviation open_rows :: "int \<Rightarrow> webhook_db \<Rightarrow> nat" where
  "open_rows t db \<equiv> length (filter (may_be_claimed t) (db_deliveries db))"

lemma filter_map_le:
  assumes "\<And>x. x \<in> set xs \<Longrightarrow> P (u x) \<Longrightarrow> P x"
  shows "length (filter P (map u xs)) \<le> length (filter P xs)"
  using assms by (induction xs) (auto simp: le_SucI)

lemma filter_map_less:
  assumes "\<And>x. x \<in> set xs \<Longrightarrow> P (u x) \<Longrightarrow> P x" "y \<in> set xs" "P y" "\<not> P (u y)"
  shows "length (filter P (map u xs)) < length (filter P xs)"
  using assms
proof (induction xs)
  case (Cons x xs)
  have le: "length (filter P (map u xs)) \<le> length (filter P xs)"
    by (rule filter_map_le) (use Cons.prems(1) in simp)
  show ?case
  proof (cases "y = x")
    case True
    with le Cons.prems show ?thesis by simp
  next
    case False
    with Cons.IH Cons.prems have "length (filter P (map u xs)) < length (filter P xs)" by simp
    with Cons.prems(1) [of x] show ?thesis by simp
  qed
qed simp

lemma open_rows_process: "open_rows t (snd (snd (process_rows tt rows st))) \<le> open_rows t (snd (snd st))"
proof (induction rows arbitrary: st)
  case (Cons r rows)
  obtain due failed db where st: "st = (due, failed, db)" by (cases st)
  have "open_rows t (mark_failed_undecryptable i msg db) \<le> open_rows t db" for i msg
    unfolding mark_failed_undecryptable_def update_delivery_deliveries
    by (rule filter_map_le) (simp add: may_be_claimed_def split: if_splits)
  then have "open_rows t (snd (snd (case process_row tt r of
      SecretFailed msg reason \<Rightarrow> (due, failed @ [(d_sub (cr_delivery r), reason)], mark_failed_undecryptable (d_id (cr_delivery r)) msg db)
    | NoPayload msg \<Rightarrow> (due, failed, mark_failed_undecryptable (d_id (cr_delivery r)) msg db)
    | Due d \<Rightarrow> (due @ [d], failed, db)))) \<le> open_rows t db"
    by (cases "process_row tt r") simp_all
  from le_trans [OF Cons.IH this] show ?case by (simp add: st Let_def)
qed simp

lemma open_rows_claim:
  assumes "claim now worker limit db = (rows, db')" "now \<le> t" "t \<le> now + lock_duration"
  shows "open_rows t db' \<le> open_rows t db" "delivery_keys_ok db \<Longrightarrow> rows \<noteq> [] \<Longrightarrow> open_rows t db' < open_rows t db"
proof -
  let ?ids = "claim_ids now limit db"
  let ?u = "\<lambda>d. if d_id d \<in> set ?ids then lock_row now worker d else d"
  have db': "db_deliveries db' = map ?u (db_deliveries db)"
    and rows: "rows = filter (\<lambda>d. d_id d \<in> set ?ids) (map ?u (db_deliveries db))"
    using assms(1) by (auto simp: claim_def Let_def)
  have locked: "\<not> may_be_claimed t (lock_row now worker d)" for d
    using assms(3) by (simp add: may_be_claimed_def lock_row_def)
  then have mono: "may_be_claimed t (?u d) \<Longrightarrow> may_be_claimed t d" for d
    by (auto split: if_splits)
  show "open_rows t db' \<le> open_rows t db"
    unfolding db' by (rule filter_map_le) (rule mono)
  assume keys: "delivery_keys_ok db" and "rows \<noteq> []"
  then obtain d where "d \<in> set (db_deliveries db)" "d_id d \<in> set ?ids"
    by (auto simp: rows filter_empty_conv lock_row_def split: if_splits)
  then have i: "d_id d \<in> set ?ids" by blast
  then have "d_id d \<in> d_id ` set (filter (claimable now) (db_deliveries db))"
    unfolding claim_ids_def by (auto dest!: in_set_takeD)
  then obtain e where "e \<in> set (db_deliveries db)" "claimable now e" "d_id e = d_id d" by auto
  with i have e: "e \<in> set (db_deliveries db)" "claimable now e" "d_id e \<in> set ?ids" by simp_all
  have "may_be_claimed t e"
    using e(2) assms(2) by (auto simp: claimable_def may_be_claimed_def split: option.splits)
  moreover have "\<not> may_be_claimed t (?u e)" using e(3) locked by simp
  moreover have "\<And>x. x \<in> set (db_deliveries db) \<Longrightarrow> may_be_claimed t (?u x) \<Longrightarrow> may_be_claimed t x"
    by (rule mono)
  ultimately show "open_rows t db' < open_rows t db"
    unfolding db' using filter_map_less [OF _ e(1), of "may_be_claimed t" ?u] by blast
qed

lemma delivery_keys_ok_update_sub [simp]: "delivery_keys_ok (update_sub i f db) = delivery_keys_ok db"
  by (simp add: delivery_keys_ok_def)

lemma keys_ok_process_rows:
  "delivery_keys_ok (snd (snd st)) \<Longrightarrow> delivery_keys_ok (snd (snd (process_rows tt rows st)))"
proof (induction rows arbitrary: st)
  case (Cons r rows)
  obtain due failed db where st: "st = (due, failed, db)" by (cases st)
  have "delivery_keys_ok (mark_failed_undecryptable i msg db)" for i msg
    unfolding mark_failed_undecryptable_def update_delivery_def
    by (rule keys_ok_map) (use Cons.prems st in \<open>simp_all add: d_key_def\<close>)
  then have "delivery_keys_ok (snd (snd (case process_row tt r of
      SecretFailed msg reason \<Rightarrow> (due, failed @ [(d_sub (cr_delivery r), reason)], mark_failed_undecryptable (d_id (cr_delivery r)) msg db)
    | NoPayload msg \<Rightarrow> (due, failed, mark_failed_undecryptable (d_id (cr_delivery r)) msg db)
    | Due d \<Rightarrow> (due @ [d], failed, db))))"
    using Cons.prems st by (cases "process_row tt r") simp_all
  from Cons.IH [OF this] show ?case by (simp add: st Let_def)
qed simp

lemma fold_disable_frame [simp]:
  "db_deliveries (fold (\<lambda>(sub, reason). auto_disable_subscription now sub reason) fs db) = db_deliveries db"
  "delivery_keys_ok (fold (\<lambda>(sub, reason). auto_disable_subscription now sub reason) fs db) = delivery_keys_ok db"
  by (induction fs arbitrary: db) (simp_all add: auto_disable_subscription_def case_prod_beta)

lemma fetch_due_open_rows:
  assumes "fetch_due tt joined now worker limit db = (due, db')" "delivery_keys_ok db" "now \<le> t" "t \<le> now + lock_duration"
  shows "delivery_keys_ok db'" "due \<noteq> [] \<Longrightarrow> open_rows t db' < open_rows t db"
proof -
  obtain rows db1 where c: "claim now worker limit db = (rows, db1)" by fastforce
  obtain failed db2 where p: "process_rows tt (map (joined db1) rows) ([], [], db1) = (due, failed, db2)"
    and db': "db' = fold (\<lambda>(sub, reason). auto_disable_subscription now sub reason) failed db2"
    using assms(1) c by (auto simp: fetch_due_def split: prod.splits)
  have "db1 = db\<lparr>db_deliveries := map (\<lambda>d. if d_id d \<in> set (claim_ids now limit db) then lock_row now worker d else d)
      (db_deliveries db)\<rparr>"
    using c by (simp add: claim_def Let_def)
  then have "delivery_keys_ok db1"
    using keys_ok_map [OF assms(2)] by (simp add: lock_row_def d_key_def)
  then show "delivery_keys_ok db'"
    using keys_ok_process_rows [of "([], [], db1)" tt "map (joined db1) rows"] p by (simp add: db')
  assume "due \<noteq> []"
  with p have "rows \<noteq> []" by auto
  with open_rows_claim(2) [OF c assms(3,4,2)] have "open_rows t db1 < open_rows t db" .
  moreover have "open_rows t db2 \<le> open_rows t db1"
    using open_rows_process [of t tt "map (joined db1) rows" "([], [], db1)"] p by simp
  ultimately show "open_rows t db' < open_rows t db"
    by (simp add: db')
qed

lemma claim_loop_ends:
  assumes "0 < cfg_max_concurrent cfg" "delivery_keys_ok db" "\<And>k. clock k \<le> t \<and> t \<le> clock k + lock_duration"
  shows "\<exists>due db'. claim_loop tt joined clock worker cfg k inflight db = Some (inflight @ due, db')"
  using assms(2)
proof (induction "open_rows t db" arbitrary: db k inflight rule: less_induct)
  case less
  obtain due db' where f: "fetch_due tt joined (clock k) worker (claim_size cfg) db = (due, db')" by fastforce
  show ?case
  proof (cases "due = []")
    case True
    with f assms(1) show ?thesis by (subst claim_loop.simps) simp
  next
    case False
    have "delivery_keys_ok db'" "open_rows t db' < open_rows t db"
      using fetch_due_open_rows [OF f less.prems, of t] False assms(3) [of k] by simp_all
    from less.hyps [OF this(2,1), of "Suc k" "inflight @ due"] f False assms(1) show ?thesis
      by (subst claim_loop.simps) auto
  qed
qed

lemma claim_loop_no_permits:
  assumes "cfg_max_concurrent cfg = 0"
  shows "claim_loop tt joined clock worker cfg k inflight db = None"
proof (rule ccontr)
  assume "claim_loop tt joined clock worker cfg k inflight db \<noteq> None"
  then obtain y where "claim_loop tt joined clock worker cfg k inflight db = Some y" by blast
  then have "cfg_max_concurrent cfg \<noteq> 0"
    by (rule claim_loop.raw_induct [of "\<lambda>tt joined clock worker cfg k inflight db y. cfg_max_concurrent cfg \<noteq> 0", rotated])
      (auto split: if_splits prod.splits, metis not_gr_zero)
  with assms show False by simp
qed



text \<open>
  Every send that fails with an error adds two, not one, to the subscription's count of
  consecutive failures, and disables the subscription exactly when that doubled count has reached the
  threshold and there has been no success (or, with no success ever, the first failure is at least) 24 hours
  ago. The threshold is therefore met after half as many failures as configured.
\<close>

theorem failure_counted_twice:
  assumes "finish now rng cfg mfp dd (Inl (SendError e)) db = (r, db')"
    and "s \<in> set (db_subs db)" "sub_id s = dd_subscription_id dd"
  shows "\<exists>s' \<in> set (db_subs db'). sub_id s' = sub_id s
    \<and> sub_consecutive_failures s' = sub_consecutive_failures s + 2
    \<and> (sub_active s' \<longleftrightarrow> sub_active s \<and> \<not> should_disable now (cfg_failure_threshold cfg)
         (s\<lparr>sub_consecutive_failures := sub_consecutive_failures s + 2,
            sub_first_failure_at := Some (case sub_first_failure_at s of Some t \<Rightarrow> t | None \<Rightarrow> now)\<rparr>))"
proof -
  let ?f = "\<lambda>s :: subscription. s\<lparr>sub_consecutive_failures := sub_consecutive_failures s + 1\<rparr>"
  let ?g = "check_row now (cfg_failure_threshold cfg)"
  have "db_subs db' = map (\<lambda>s. if sub_id s = dd_subscription_id dd then ?g s else s)
      (map (\<lambda>s. if sub_id s = dd_subscription_id dd then ?f s else s) (db_subs db))"
    using assms(1) by (auto simp: finish_def count_failure_def check_and_auto_disable_def update_sub_def
        mark_retry_def update_delivery_def)
  with assms(2,3) have "?g (?f s) \<in> set (db_subs db')"
    by (force simp: image_image)
  then show ?thesis
    by (rule rev_bexI) (auto simp: check_row_def Let_def should_disable_def split: option.splits)
qed

definition sample_failing_sub :: subscription where
  "sample_failing_sub = \<lparr>sub_id = 1, sub_active = True, sub_kind = ''event'', sub_contract_id = None, sub_event_name = None,
     sub_contract_ids = [], sub_event_names = [], sub_filter = None, sub_starting_seq = 0, sub_backfill_seq = None,
     sub_consecutive_failures = 8, sub_last_success_at = None, sub_first_failure_at = Some 0,
     sub_auto_disabled_at = None, sub_auto_disabled_reason = None\<rparr>"

theorem failure_counted_twice_witness:
  "\<exists>s' \<in> set (db_subs (snd (finish 90000 (\<lambda>w. w) sample_config (\<lambda>i m db. db) sample_due (Inl (SendError ''e''))
      (empty_db\<lparr>db_subs := [sample_failing_sub]\<rparr>)))). sub_consecutive_failures s' = 10 \<and> \<not> sub_active s'"
proof -
  let ?db = "empty_db\<lparr>db_subs := [sample_failing_sub]\<rparr>"
  obtain r db' where "finish 90000 (\<lambda>w. w) sample_config (\<lambda>i m db. db) sample_due (Inl (SendError ''e'')) ?db = (r, db')"
    by fastforce
  from failure_counted_twice [OF this, of sample_failing_sub] this show ?thesis
    by (auto simp: sample_failing_sub_def sample_due_def sample_config_def should_disable_def hours_since_def)
qed

end
