(* ===== verification/Store.thy ===== *)
theory Store
  imports Enrich Spec_Diff
begin

text \<open>
  The tables of the indexer and its event writer: \<^verbatim>\<open>convert.rs\<close> (an RPC event to a row), \<^verbatim>\<open>store.rs\<close>
  (inserting, upserting and projecting events) of \<^verbatim>\<open>crates/lumenqraph-indexer/src\<close>.

  A table is the list of its rows in insertion order. Times are instants of the date library, kept as
  integers; its parser, the base64 and XDR decoders, the strkey display and the cast of a text to the
  database's JSON type are arguments, bundled in \<open>decode_env\<close> and \<open>accepts\<close>.
\<close>

section \<open>Rows\<close>

record event_info =
  ei_type :: string
  ei_ledger :: int
  ei_closed_at :: string
  ei_contract_id :: string
  ei_id :: string
  ei_paging_token :: string
  ei_in_successful_call :: bool
  ei_tx_hash :: string
  ei_topic :: "string list"
  ei_value :: string

record new_event =
  ne_event_id :: string
  ne_contract_id :: string
  ne_ledger :: int
  ne_closed_at :: int
  ne_type :: string
  ne_topics :: "string list"
  ne_decoded_topics :: "json list"
  ne_event_name :: "string option"
  ne_value :: string
  ne_decoded_value :: json
  ne_enriched :: "json option"
  ne_tx_hash :: string
  ne_in_successful_call :: bool
  ne_paging_token :: string

record transfer =
  tr_event_id :: string
  tr_contract_id :: string
  tr_from :: "string option"
  tr_to :: "string option"
  tr_amount :: string
  tr_kind :: string
  tr_ledger :: int
  tr_closed_at :: int

record swap =
  sw_event_id :: string
  sw_contract_id :: string
  sw_sender :: "string option"
  sw_recipient :: "string option"
  sw_token_in :: "string option"
  sw_token_out :: "string option"
  sw_amount_in :: "string option"
  sw_amount_out :: "string option"
  sw_ledger :: int
  sw_closed_at :: int

record nft_event =
  nf_event_id :: string
  nf_contract_id :: string
  nf_kind :: string
  nf_token_id :: "string option"
  nf_from :: "string option"
  nf_to :: "string option"
  nf_ledger :: int
  nf_closed_at :: int

record liquidity_event =
  lq_event_id :: string
  lq_contract_id :: string
  lq_kind :: string
  lq_provider :: "string option"
  lq_token_a :: "string option"
  lq_token_b :: "string option"
  lq_amount_a :: "string option"
  lq_amount_b :: "string option"
  lq_ledger :: int
  lq_closed_at :: int

datatype contract_kind = FungibleToken | NonFungibleToken | Amm | LiquidityPool | OtherKind

record event_tables =
  et_events :: "new_event list"
  et_transfers :: "transfer list"
  et_swaps :: "swap list"
  et_nfts :: "nft_event list"
  et_liquidity :: "liquidity_event list"

section \<open>Conversion\<close>

record decode_env =
  de_base64 :: "string \<Rightarrow> u8 list option"
  de_read_xdr :: "u8 list \<Rightarrow> (scval \<times> u8 list) option"
  de_address :: "sc_address \<Rightarrow> string"
  de_lossy :: "u8 list \<Rightarrow> string"
  de_visit :: "(string list \<times> nat) list \<Rightarrow> (string list \<times> nat) list"
  de_rfc3339 :: "string \<Rightarrow> int option"
  de_from_secs :: "int \<Rightarrow> int option"
  de_float_text :: "u64 \<Rightarrow> string"

definition parse_ledger_closed_at :: "decode_env \<Rightarrow> string \<Rightarrow> int option" where
  "parse_ledger_closed_at env raw =
     (case de_rfc3339 env raw of
        Some t \<Rightarrow> Some t
      | None \<Rightarrow> (case parse_signed 64 (trim raw) of Some secs \<Rightarrow> de_from_secs env secs | None \<Rightarrow> None))"

definition first_topic_name :: "decode_env \<Rightarrow> event_info \<Rightarrow> string option" where
  "first_topic_name env e =
     (case ei_topic e of [] \<Rightarrow> None | t # _ \<Rightarrow> event_name_from_topic (de_base64 env) (de_read_xdr env) t)"

definition to_new_event :: "decode_env \<Rightarrow> event_info \<Rightarrow> contract_spec option \<Rightarrow> index_panic + new_event option" where
  "to_new_event env e spec =
     (case parse_ledger_closed_at env (ei_closed_at e) of
        None \<Rightarrow> Inr None
      | Some t \<Rightarrow>
          (let topics = decode_topics (de_base64 env) (de_read_xdr env) (de_address env) (ei_topic e);
               val = decode_scval_base64 (de_base64 env) (de_read_xdr env) (de_address env) (ei_value e);
               name = first_topic_name env e
           in bind_res (case (spec, name) of
                  (Some s, Some n) \<Rightarrow> enrich_event (de_lossy env) (de_visit env) s n topics val
                | _ \<Rightarrow> Inr None) (\<lambda>enriched.
              Inr (Some \<lparr>ne_event_id = ei_id e, ne_contract_id = ei_contract_id e, ne_ledger = ei_ledger e,
                ne_closed_at = t, ne_type = ei_type e, ne_topics = ei_topic e, ne_decoded_topics = topics,
                ne_event_name = name, ne_value = ei_value e, ne_decoded_value = val, ne_enriched = enriched,
                ne_tx_hash = ei_tx_hash e, ne_in_successful_call = ei_in_successful_call e,
                ne_paging_token = (if ei_paging_token e = [] then ei_id e else ei_paging_token e)\<rparr>))))"

section \<open>Projections\<close>

definition nth_opt :: "'a list \<Rightarrow> nat \<Rightarrow> 'a option" where
  "nth_opt xs i = (if i < length xs then Some (xs ! i) else None)"

definition as_addr :: "json option \<Rightarrow> string option" where
  "as_addr v = (case v of Some (Str s) \<Rightarrow> Some s | _ \<Rightarrow> None)"

fun as_i128_amount :: "json \<Rightarrow> string option" where
  "as_i128_amount (Str s) = (if parse_signed 128 s \<noteq> None then Some s else None)"
| "as_i128_amount (Number (PosInt n)) = Some (show_nat (unat n))"
| "as_i128_amount (Number (NegInt n)) = Some (show_int (sint n))"
| "as_i128_amount _ = None"

definition is_sac_contract_id :: "string \<Rightarrow> bool" where
  "is_sac_contract_id c \<longleftrightarrow> length c = 56 \<and> starts_with ''C'' c"

definition default_contract_kind :: "string \<Rightarrow> contract_kind option" where
  "default_contract_kind c = (if is_sac_contract_id c then Some FungibleToken else None)"

abbreviation topic_addr :: "new_event \<Rightarrow> nat \<Rightarrow> string option" where
  "topic_addr e i \<equiv> as_addr (nth_opt (ne_decoded_topics e) i)"

definition field_amount :: "(string \<times> json) list \<Rightarrow> string \<Rightarrow> string option" where
  "field_amount m k = Option.bind (bt_get m k) as_i128_amount"

definition transfer_amount :: "json \<Rightarrow> string option" where
  "transfer_amount v = (case v of Object m \<Rightarrow> field_amount m ''amount'' | _ \<Rightarrow> as_i128_amount v)"

definition extract_transfer :: "(string \<Rightarrow> contract_kind option) \<Rightarrow> new_event \<Rightarrow> transfer option" where
  "extract_transfer resolve e =
     (case ne_event_name e of
        None \<Rightarrow> None
      | Some name \<Rightarrow>
          if name \<notin> {''transfer'', ''mint'', ''burn'', ''clawback''} then None
          else if resolve (ne_contract_id e) \<noteq> Some FungibleToken then None
          else (case transfer_amount (ne_decoded_value e) of
                  None \<Rightarrow> None
                | Some amount \<Rightarrow>
                    (let (src, dst) =
                       (if name = ''transfer'' then (topic_addr e 1, topic_addr e 2)
                        else if name = ''mint'' then (None, topic_addr e 1)
                        else (topic_addr e 1, None))
                     in Some \<lparr>tr_event_id = ne_event_id e, tr_contract_id = ne_contract_id e, tr_from = src, tr_to = dst,
                          tr_amount = amount, tr_kind = name, tr_ledger = ne_ledger e, tr_closed_at = ne_closed_at e\<rparr>)))"

definition amount_pair :: "string \<Rightarrow> string \<Rightarrow> json \<Rightarrow> string option \<times> string option" where
  "amount_pair k1 k2 v =
     (case v of
        Object m \<Rightarrow> (field_amount m k1, field_amount m k2)
      | Array a \<Rightarrow> (Option.bind (nth_opt a 0) as_i128_amount, Option.bind (nth_opt a 1) as_i128_amount)
      | _ \<Rightarrow> (None, None))"

definition extract_swap :: "(string \<Rightarrow> contract_kind option) \<Rightarrow> new_event \<Rightarrow> swap option" where
  "extract_swap resolve e =
     (if ne_event_name e \<noteq> Some ''swap'' then None
      else if resolve (ne_contract_id e) \<noteq> Some Amm then None
      else (let (amount_in, amount_out) = amount_pair ''amount_in'' ''amount_out'' (ne_decoded_value e)
            in Some \<lparr>sw_event_id = ne_event_id e, sw_contract_id = ne_contract_id e, sw_sender = topic_addr e 1,
                 sw_recipient = topic_addr e 2, sw_token_in = topic_addr e 3, sw_token_out = topic_addr e 4,
                 sw_amount_in = amount_in, sw_amount_out = amount_out, sw_ledger = ne_ledger e,
                 sw_closed_at = ne_closed_at e\<rparr>))"

fun token_text :: "(u64 \<Rightarrow> string) \<Rightarrow> json \<Rightarrow> string option" where
  "token_text float_text (Str s) = Some s"
| "token_text float_text (Number (Float b)) = Some (float_text b)"
| "token_text float_text (Number n) = int_text (Number n)"
| "token_text float_text _ = None"

definition nft_token_id :: "(u64 \<Rightarrow> string) \<Rightarrow> json \<Rightarrow> string option" where
  "nft_token_id float_text v =
     (case v of Object m \<Rightarrow> Option.bind (bt_get m ''token_id'') (token_text float_text) | _ \<Rightarrow> token_text float_text v)"

definition extract_nft_event :: "(u64 \<Rightarrow> string) \<Rightarrow> (string \<Rightarrow> contract_kind option) \<Rightarrow> new_event \<Rightarrow> nft_event option" where
  "extract_nft_event float_text resolve e =
     (case ne_event_name e of
        None \<Rightarrow> None
      | Some name \<Rightarrow>
          if name \<notin> {''mint'', ''transfer'', ''burn''} then None
          else if resolve (ne_contract_id e) \<noteq> Some NonFungibleToken then None
          else (let (src, dst) =
                  (if name = ''transfer'' then (topic_addr e 1, topic_addr e 2)
                   else if name = ''mint'' then (None, topic_addr e 1)
                   else (topic_addr e 1, None))
                in Some \<lparr>nf_event_id = ne_event_id e, nf_contract_id = ne_contract_id e, nf_kind = name,
                     nf_token_id = nft_token_id float_text (ne_decoded_value e), nf_from = src, nf_to = dst,
                     nf_ledger = ne_ledger e, nf_closed_at = ne_closed_at e\<rparr>))"

definition extract_liquidity_event :: "(string \<Rightarrow> contract_kind option) \<Rightarrow> new_event \<Rightarrow> liquidity_event option" where
  "extract_liquidity_event resolve e =
     (case ne_event_name e of
        None \<Rightarrow> None
      | Some name \<Rightarrow>
          if name \<notin> {''deposit'', ''withdraw''} then None
          else if resolve (ne_contract_id e) \<noteq> Some LiquidityPool then None
          else (let (amount_a, amount_b) = amount_pair ''amount_a'' ''amount_b'' (ne_decoded_value e)
                in Some \<lparr>lq_event_id = ne_event_id e, lq_contract_id = ne_contract_id e, lq_kind = name,
                     lq_provider = topic_addr e 1, lq_token_a = topic_addr e 2, lq_token_b = topic_addr e 3,
                     lq_amount_a = amount_a, lq_amount_b = amount_b, lq_ledger = ne_ledger e,
                     lq_closed_at = ne_closed_at e\<rparr>))"

section \<open>Writing\<close>

text \<open>\<^verbatim>\<open>INSERT .. ON CONFLICT DO NOTHING\<close> with a unique key, row by row.\<close>

fun insert_new :: "('a \<Rightarrow> 'k) \<Rightarrow> 'a list \<Rightarrow> 'a list \<Rightarrow> 'a list" where
  "insert_new key [] t = t"
| "insert_new key (r # rs) t = insert_new key rs (if key r \<in> key ` set t then t else t @ [r])"

datatype store_error = JsonRejected string | RowTwice string

text \<open>The JSON columns of a row, each passed as text and cast by the database.\<close>

definition json_columns :: "new_event \<Rightarrow> json list" where
  "json_columns e = [Array (map Str (ne_topics e)), Array (ne_decoded_topics e), ne_decoded_value e]
     @ (case ne_enriched e of Some v \<Rightarrow> [v] | None \<Rightarrow> [])"

definition check_json :: "(json \<Rightarrow> bool) \<Rightarrow> new_event list \<Rightarrow> store_error + unit" where
  "check_json accepts es =
     (case find (\<lambda>e. \<not> list_all accepts (json_columns e)) es of
        Some e \<Rightarrow> Inl (JsonRejected (ne_event_id e))
      | None \<Rightarrow> Inr ())"

definition project_transfers :: "(string \<Rightarrow> contract_kind option) \<Rightarrow> new_event list \<Rightarrow> event_tables \<Rightarrow> event_tables" where
  "project_transfers resolve es t =
     t\<lparr>et_transfers := insert_new tr_event_id (List.map_filter (extract_transfer resolve) es) (et_transfers t)\<rparr>"

definition project_verticals ::
  "(u64 \<Rightarrow> string) \<Rightarrow> (string \<Rightarrow> contract_kind option) \<Rightarrow> new_event list \<Rightarrow> event_tables \<Rightarrow> event_tables" where
  "project_verticals float_text resolve es t =
     t\<lparr>et_swaps := insert_new sw_event_id (List.map_filter (extract_swap resolve) es) (et_swaps t),
       et_nfts := insert_new nf_event_id (List.map_filter (extract_nft_event float_text resolve) es) (et_nfts t),
       et_liquidity := insert_new lq_event_id (List.map_filter (extract_liquidity_event resolve) es) (et_liquidity t)\<rparr>"

text \<open>One transaction: the count of new events and the tables after the commit.\<close>

definition insert_events_with_resolver ::
  "(json \<Rightarrow> bool) \<Rightarrow> (u64 \<Rightarrow> string) \<Rightarrow> (string \<Rightarrow> contract_kind option) \<Rightarrow> new_event list \<Rightarrow> event_tables \<Rightarrow>
   store_error + nat \<times> event_tables" where
  "insert_events_with_resolver accepts float_text resolve es t =
     (if es = [] then Inr (0, t)
      else bind_res (check_json accepts es) (\<lambda>_.
        let rows = insert_new ne_event_id es (et_events t);
            inserted = drop (length (et_events t)) rows;
            t1 = t\<lparr>et_events := rows\<rparr>;
            new_events = filter (\<lambda>e. ne_event_id e \<in> ne_event_id ` set inserted) es
        in Inr (length inserted,
             if length inserted > 0 then project_verticals float_text resolve new_events (project_transfers resolve new_events t1)
             else t1)))"

definition insert_events :: "(json \<Rightarrow> bool) \<Rightarrow> (u64 \<Rightarrow> string) \<Rightarrow> new_event list \<Rightarrow> event_tables \<Rightarrow> store_error + nat \<times> event_tables" where
  "insert_events accepts float_text es t = insert_events_with_resolver accepts float_text default_contract_kind es t"

definition merge_row :: "new_event list \<Rightarrow> new_event \<Rightarrow> new_event" where
  "merge_row es old =
     (case find (\<lambda>e. ne_event_id e = ne_event_id old) es of
        Some e \<Rightarrow> old\<lparr>ne_decoded_topics := ne_decoded_topics e, ne_decoded_value := ne_decoded_value e,
                    ne_enriched := ne_enriched e\<rparr>
      | None \<Rightarrow> old)"

text \<open>\<^verbatim>\<open>ON CONFLICT DO UPDATE\<close> refuses to touch a row twice in one statement.\<close>

definition upsert_events :: "(json \<Rightarrow> bool) \<Rightarrow> new_event list \<Rightarrow> event_tables \<Rightarrow> store_error + (nat \<times> nat) \<times> event_tables" where
  "upsert_events accepts es t =
     (if es = [] then Inr ((0, 0), t)
      else bind_res (check_json accepts es) (\<lambda>_.
        if \<not> distinct (map ne_event_id es) then Inl (RowTwice (ne_event_id (hd es)))
        else
          (let old = ne_event_id ` set (et_events t);
               fresh = filter (\<lambda>e. ne_event_id e \<notin> old) es;
               t1 = t\<lparr>et_events := map (merge_row es) (et_events t) @ fresh\<rparr>
           in Inr ((length fresh, length es - length fresh),
                if length fresh > 0 then project_transfers default_contract_kind fresh t1 else t1))))"

section \<open>Tables with a unique key\<close>

lemma insert_new_keys [simp]: "key ` set (insert_new key rs t) = key ` set t \<union> key ` set rs"
  by (induction rs arbitrary: t) auto

lemma insert_new_distinct: "distinct (map key t) \<Longrightarrow> distinct (map key (insert_new key rs t))"
  by (induction rs arbitrary: t) auto

lemma insert_new_prefix: "\<exists>us. insert_new key rs t = t @ us \<and> set us \<subseteq> set rs"
proof (induction rs arbitrary: t)
  case (Cons r rs)
  from Cons.IH [of t] Cons.IH [of "t @ [r]"] show ?case by fastforce
qed simp

lemma insert_new_eq_filter:
  "distinct (map key rs) \<Longrightarrow> insert_new key rs t = t @ filter (\<lambda>r. key r \<notin> key ` set t) rs"
proof (induction rs arbitrary: t)
  case (Cons r rs)
  have "filter (\<lambda>x. key x \<notin> key ` set (t @ [r])) rs = filter (\<lambda>x. key x \<notin> key ` set t) rs"
    using Cons.prems by (intro filter_cong) (auto simp: image_iff)
  with Cons show ?case by simp
qed simp

lemma insert_new_absorb: "key ` set rs \<subseteq> key ` set t \<Longrightarrow> insert_new key rs t = t"
  by (induction rs arbitrary: t) auto

lemma map_filter_append: "List.map_filter f (xs @ ys) = List.map_filter f xs @ List.map_filter f ys"
  by (simp add: List.map_filter_def)

lemma set_map_filter: "set (List.map_filter f xs) = {y. \<exists>x \<in> set xs. f x = Some y}"
  by (force simp: List.map_filter_def)

text \<open>
  A projection is a partial function of the event whose rows carry the event's id. The table it feeds is
  a view of the event table, and stays one when new events are added in one batch.
\<close>

locale projection =
  fixes proj :: "new_event \<Rightarrow> 'r option"
    and row_id :: "'r \<Rightarrow> string"
  assumes row_id: "proj e = Some r \<Longrightarrow> row_id r = ne_event_id e"
begin

lemma ids_of_view: "r \<in> set (List.map_filter proj es) \<Longrightarrow> row_id r \<in> ne_event_id ` set es"
  by (auto simp: set_map_filter dest: row_id)

lemma distinct_view: "distinct (map ne_event_id es) \<Longrightarrow> distinct (map row_id (List.map_filter proj es))"
proof (induction es)
  case (Cons e es)
  then show ?case
    using ids_of_view [of _ es] by (cases "proj e") (auto simp: List.map_filter_simps dest: row_id)
qed (simp add: List.map_filter_simps)

lemma view_step:
  assumes "distinct (map ne_event_id fresh)" "ne_event_id ` set fresh \<inter> ne_event_id ` set old = {}"
  shows "insert_new row_id (List.map_filter proj fresh) (List.map_filter proj old) = List.map_filter proj (old @ fresh)"
proof -
  have "filter (\<lambda>r. row_id r \<notin> row_id ` set (List.map_filter proj old)) (List.map_filter proj fresh)
      = List.map_filter proj fresh"
    using assms(2) ids_of_view [of _ old] ids_of_view [of _ fresh] by (intro filter_True) fastforce
  with insert_new_eq_filter [OF distinct_view [OF assms(1)]] show ?thesis
    by (simp add: map_filter_append)
qed

end

interpretation transfers: projection "extract_transfer resolve" tr_event_id for resolve
  by unfold_locales (auto simp: extract_transfer_def Let_def split: option.splits if_splits)

interpretation swaps: projection "extract_swap resolve" sw_event_id for resolve
  by unfold_locales (auto simp: extract_swap_def Let_def split: if_splits prod.splits)

interpretation nfts: projection "extract_nft_event float_text resolve" nf_event_id for float_text resolve
  by unfold_locales (auto simp: extract_nft_event_def Let_def split: option.splits if_splits)

interpretation liquidity: projection "extract_liquidity_event resolve" lq_event_id for resolve
  by unfold_locales (auto simp: extract_liquidity_event_def Let_def split: option.splits if_splits prod.splits)

definition projected :: "(u64 \<Rightarrow> string) \<Rightarrow> (string \<Rightarrow> contract_kind option) \<Rightarrow> event_tables \<Rightarrow> bool" where
  "projected float_text resolve t \<longleftrightarrow> distinct (map ne_event_id (et_events t))
     \<and> et_transfers t = List.map_filter (extract_transfer resolve) (et_events t)
     \<and> et_swaps t = List.map_filter (extract_swap resolve) (et_events t)
     \<and> et_nfts t = List.map_filter (extract_nft_event float_text resolve) (et_events t)
     \<and> et_liquidity t = List.map_filter (extract_liquidity_event resolve) (et_events t)"

abbreviation new_rows :: "event_tables \<Rightarrow> new_event list \<Rightarrow> new_event list" where
  "new_rows t es \<equiv> filter (\<lambda>e. ne_event_id e \<notin> ne_event_id ` set (et_events t)) es"

lemma new_rows_ids: "ne_event_id ` set (new_rows t es) \<inter> ne_event_id ` set (et_events t) = {}"
  by auto

lemma all_ids_stored: "ne_event_id ` set es \<subseteq> ne_event_id ` set (et_events t @ new_rows t es)"
proof (rule image_subsetI)
  fix e assume "e \<in> set es"
  then show "ne_event_id e \<in> ne_event_id ` set (et_events t @ new_rows t es)"
    by (cases "ne_event_id e \<in> ne_event_id ` set (et_events t)") auto
qed

lemma project_events [simp]:
  "et_events (project_verticals ft resolve es t) = et_events t"
  "et_events (project_transfers resolve es t) = et_events t"
  by (simp_all add: project_verticals_def project_transfers_def)

lemma insert_events_Inr:
  assumes "insert_events_with_resolver accepts ft resolve es t = Inr (n, t')" "distinct (map ne_event_id es)"
  shows "t' = (if new_rows t es = [] then t
         else project_verticals ft resolve (new_rows t es) (project_transfers resolve (new_rows t es)
           (t\<lparr>et_events := et_events t @ new_rows t es\<rparr>)))"
    and "n = length (new_rows t es)"
proof -
  let ?new = "new_rows t es"
  have rows: "insert_new ne_event_id es (et_events t) = et_events t @ ?new"
    by (rule insert_new_eq_filter [OF assms(2)])
  have "filter (\<lambda>e. ne_event_id e \<in> ne_event_id ` set ?new) es = ?new"
    by (rule filter_cong [OF refl]) (auto simp: image_iff)
  with assms(1) rows show "t' = (if ?new = [] then t
         else project_verticals ft resolve ?new (project_transfers resolve ?new (t\<lparr>et_events := et_events t @ ?new\<rparr>)))"
    and "n = length ?new"
    by (auto simp: insert_events_with_resolver_def Let_def split: if_splits)
qed

lemma insert_events_rows:
  assumes "insert_events_with_resolver accepts ft resolve es t = Inr (n, t')" "distinct (map ne_event_id es)"
  shows "et_events t' = et_events t @ new_rows t es"
  by (simp add: insert_events_Inr(1) [OF assms])

lemma insert_events_projected:
  assumes "projected ft resolve t" "distinct (map ne_event_id es)"
    and "insert_events_with_resolver accepts ft resolve es t = Inr (n, t')"
  shows "projected ft resolve t'"
proof -
  define new where "new = new_rows t es"
  have d: "distinct (map ne_event_id new)" "ne_event_id ` set new \<inter> ne_event_id ` set (et_events t) = {}"
    using assms(2) new_rows_ids by (simp_all add: new_def distinct_map_filter)
  then have "distinct (map ne_event_id (et_events t @ new))"
    using assms(1) by (auto simp: projected_def)
  with insert_events_Inr(1) [OF assms(3,2), folded new_def] assms(1) show ?thesis
    using transfers.view_step [OF d] swaps.view_step [OF d] nfts.view_step [OF d] liquidity.view_step [OF d]
    by (auto simp: projected_def project_verticals_def project_transfers_def)
qed

lemma insert_events_again:
  assumes "insert_events_with_resolver accepts ft resolve es t = Inr (n, t')" "distinct (map ne_event_id es)"
  shows "insert_events_with_resolver accepts ft resolve es t' = Inr (0, t')"
proof (cases "es = []")
  case False
  have "insert_new ne_event_id es (et_events t') = et_events t'"
    unfolding insert_events_rows [OF assms] by (rule insert_new_absorb [OF all_ids_stored])
  moreover have "check_json accepts es = Inr ()"
    using assms(1) False by (cases "check_json accepts es") (auto simp: insert_events_with_resolver_def)
  ultimately show ?thesis
    using False by (simp add: insert_events_with_resolver_def Let_def)
qed (use assms in \<open>simp add: insert_events_with_resolver_def\<close>)

text \<open>
  Claim C30. Storing a batch appends exactly the events whose ids are not stored yet, in order, and counts
  them; the transfer, swap, NFT and liquidity tables stay exactly the projections of the event table; and
  storing the same batch again changes nothing.
\<close>
theorem insert_events_correct:
  assumes "projected ft resolve t" "distinct (map ne_event_id es)"
    and "insert_events_with_resolver accepts ft resolve es t = Inr (n, t')"
  shows "et_events t' = et_events t @ new_rows t es \<and> n = length (new_rows t es)
    \<and> projected ft resolve t'
    \<and> insert_events_with_resolver accepts ft resolve es t' = Inr (0, t')"
  using insert_events_rows [OF assms(3,2)] insert_events_Inr(2) [OF assms(3,2)] insert_events_projected [OF assms]
    insert_events_again [OF assms(3,2)] by blast

lemma merge_row_id [simp]: "ne_event_id (merge_row es e) = ne_event_id e"
  by (simp add: merge_row_def split: option.splits)

lemma upsert_events_Inr:
  assumes "upsert_events accepts es t = Inr ((i, u), t')"
  shows "et_events t' = (if es = [] then et_events t else map (merge_row es) (et_events t) @ new_rows t es)"
    and "i = length (new_rows t es)" "u = length es - length (new_rows t es)"
    and "et_swaps t' = et_swaps t" "et_nfts t' = et_nfts t" "et_liquidity t' = et_liquidity t"
    and "es \<noteq> [] \<Longrightarrow> distinct (map ne_event_id es) \<and> check_json accepts es = Inr ()"
  using assms
  by (auto simp: upsert_events_def Let_def project_transfers_def split: if_splits)


section \<open>A sample\<close>

definition sample_new_event :: "string \<Rightarrow> int \<Rightarrow> new_event" where
  "sample_new_event i l = \<lparr>ne_event_id = i, ne_contract_id = ''C1'', ne_ledger = l, ne_closed_at = 0, ne_type = ''contract'',
     ne_topics = [], ne_decoded_topics = [Str ''swap'', Str ''GA''], ne_event_name = Some ''swap'', ne_value = [],
     ne_decoded_value = Null, ne_enriched = None, ne_tx_hash = [], ne_in_successful_call = True, ne_paging_token = i\<rparr>"

definition empty_tables :: event_tables where
  "empty_tables = \<lparr>et_events = [], et_transfers = [], et_swaps = [], et_nfts = [], et_liquidity = []\<rparr>"

lemma check_json_ok: "check_json accepts es = Inr () \<longleftrightarrow> (\<forall>e \<in> set es. list_all accepts (json_columns e))"
  by (auto simp: check_json_def find_None_iff dest: find_SomeD split: option.splits)

lemma insert_events_defined:
  assumes "\<forall>e \<in> set es. list_all accepts (json_columns e)"
  obtains n t' where "insert_events_with_resolver accepts ft resolve es t = Inr (n, t')"
  using assms by (cases "es = []") (auto simp: insert_events_with_resolver_def Let_def simp flip: check_json_ok)

lemma empty_tables_projected: "projected ft resolve empty_tables"
  by (simp add: projected_def empty_tables_def List.map_filter_simps)

theorem insert_events_correct_witness:
  "\<exists>t. insert_events_with_resolver (\<lambda>j. True) (\<lambda>b. []) (\<lambda>c. Some Amm) [sample_new_event ''a'' 1, sample_new_event ''b'' 2]
       empty_tables = Inr (2, t)
     \<and> projected (\<lambda>b. []) (\<lambda>c. Some Amm) t \<and> length (et_swaps t) = 2"
proof -
  let ?es = "[sample_new_event ''a'' 1, sample_new_event ''b'' 2]"
  obtain n t where i: "insert_events_with_resolver (\<lambda>j. True) (\<lambda>b. []) (\<lambda>c. Some Amm) ?es empty_tables = Inr (n, t)"
    using insert_events_defined [of ?es "\<lambda>j. True" "\<lambda>b. []" "\<lambda>c. Some Amm" empty_tables] by (auto simp: list_all_iff)
  have "distinct (map ne_event_id ?es)" by (simp add: sample_new_event_def)
  from insert_events_correct [OF empty_tables_projected this i] i show ?thesis
    by (auto simp: empty_tables_def projected_def List.map_filter_def extract_swap_def sample_new_event_def
        amount_pair_def)
qed


end
