(* ===== verification/Rpc_Client.thy ===== *)
theory Rpc_Client
  imports Scval
begin

text \<open>
  The JSON-RPC client of the indexer, \<^verbatim>\<open>crates/lumenqraph-indexer/src/rpc_client.rs\<close>: the error codes, the
  retry and failover loop behind every call, and the ledger-entry readers built on it.

  HTTP is outside the sources. A call is given the answers it would receive: \<open>nw_answer i k\<close> is what the
  endpoint at position \<open>i\<close> answers to attempt \<open>k\<close>, \<open>nw_network i\<close> what it answers to \<^verbatim>\<open>getNetwork\<close>, \<open>nw_health\<close>
  the answer of the primary to the recovery probe. The XDR codec is an argument as well.
\<close>

section \<open>Error codes\<close>

datatype soroban_rpc_error_code =
    ParseError | InvalidRequest | MethodNotFound | InvalidParams | InternalError | ServerError
  | ProcessingLimitExceeded | OtherCode int

definition from_code :: "int \<Rightarrow> soroban_rpc_error_code" where
  "from_code code =
     (if code = -32700 then ParseError
      else if code = -32600 then InvalidRequest
      else if code = -32601 then MethodNotFound
      else if code = -32602 then InvalidParams
      else if code = -32603 then InternalError
      else if code = -32000 then ServerError
      else if code = -32001 then ProcessingLimitExceeded
      else OtherCode code)"

fun code_of :: "soroban_rpc_error_code \<Rightarrow> int" where
  "code_of ParseError = -32700"
| "code_of InvalidRequest = -32600"
| "code_of MethodNotFound = -32601"
| "code_of InvalidParams = -32602"
| "code_of InternalError = -32603"
| "code_of ServerError = -32000"
| "code_of ProcessingLimitExceeded = -32001"
| "code_of (OtherCode c) = c"

definition is_retryable :: "soroban_rpc_error_code \<Rightarrow> bool" where
  "is_retryable c \<longleftrightarrow> c \<in> {ProcessingLimitExceeded, InternalError, ServerError}"

definition is_permanent :: "soroban_rpc_error_code \<Rightarrow> bool" where
  "is_permanent c \<longleftrightarrow> \<not> is_retryable c"

record soroban_rpc_error =
  se_code :: int
  se_message :: string
  se_method :: string
  se_error_code :: soroban_rpc_error_code

definition soroban_rpc_error_new :: "int \<Rightarrow> string \<Rightarrow> string \<Rightarrow> soroban_rpc_error" where
  "soroban_rpc_error_new code message method =
     \<lparr>se_code = code, se_message = message, se_method = method, se_error_code = from_code code\<rparr>"

datatype rpc_failure =
    RequestFailed
  | HttpError nat
  | DecodeFailed
  | RpcError soroban_rpc_error
  | NoResult
  | NetworkMismatch
  | AllEndpointsFailed
  | TooManyContractIds nat
  | InvalidContractId string
  | KeyNotEncodable
  | EntryNotDecodable

fun is_non_retryable_rpc_error :: "rpc_failure \<Rightarrow> bool" where
  "is_non_retryable_rpc_error (RpcError e) = is_permanent (se_error_code e)"
| "is_non_retryable_rpc_error _ = False"

section \<open>The client\<close>

record rpc_client =
  urls :: "string list"
  active_idx :: nat
  last_failover_at :: "int option"
  calls_made :: u64
  calls_failed :: u64
  calls_failed_32001 :: u64
  failover_count :: u64
  active_url_idx :: nat
  network_passphrase :: "string option"

definition with_urls :: "string list \<Rightarrow> rpc_client option" where
  "with_urls us =
     (if us = [] then None
      else Some \<lparr>urls = us, active_idx = 0, last_failover_at = None, calls_made = 0, calls_failed = 0,
        calls_failed_32001 = 0, failover_count = 0, active_url_idx = 0, network_passphrase = None\<rparr>)"

text \<open>An HTTP exchange: no response, or a status and the decoded body.\<close>

record 'r rpc_response =
  rr_result :: "'r option"
  rr_error :: "(int \<times> string) option"

datatype 'r http_answer = NotAnswered | Answered nat "'r rpc_response option"

definition is_http_error :: "nat \<Rightarrow> bool" where
  "is_http_error s \<longleftrightarrow> 400 \<le> s \<and> s < 600"

definition is_server_error :: "nat \<Rightarrow> bool" where
  "is_server_error s \<longleftrightarrow> 500 \<le> s \<and> s < 600"

definition is_success :: "nat \<Rightarrow> bool" where
  "is_success s \<longleftrightarrow> 200 \<le> s \<and> s < 300"

record 'r network =
  nw_answer :: "nat \<Rightarrow> nat \<Rightarrow> 'r http_answer"
  nw_network :: "nat \<Rightarrow> string http_answer"
  nw_health :: "unit http_answer"
  nw_now :: int

fun find_sub :: "string \<Rightarrow> string \<Rightarrow> nat option" where
  "find_sub p [] = (if p = [] then Some 0 else None)"
| "find_sub p (c # s) = (if starts_with p (c # s) then Some 0 else map_option Suc (find_sub p s))"

definition host_of :: "string \<Rightarrow> string" where
  "host_of url =
     (let after_scheme = (case find_sub ''://'' url of Some i \<Rightarrow> drop (i + 3) url | None \<Rightarrow> url);
          host_and_rest = (case find_sub ''@'' after_scheme of Some i \<Rightarrow> drop (i + 1) after_scheme | None \<Rightarrow> after_scheme)
      in case find_sub ''/'' host_and_rest of Some i \<Rightarrow> take i host_and_rest | None \<Rightarrow> host_and_rest)"

definition url_at :: "rpc_client \<Rightarrow> nat \<Rightarrow> string" where
  "url_at c idx = urls c ! min idx (length (urls c) - 1)"

definition active_endpoint_host :: "rpc_client \<Rightarrow> string" where
  "active_endpoint_host c =
     host_of (if active_url_idx c < length (urls c) then urls c ! active_url_idx c else urls c ! 0)"

text \<open>The result of a \<^verbatim>\<open>getNetwork\<close> exchange; a JSON-RPC error shows as a missing result.\<close>

definition network_result :: "string http_answer \<Rightarrow> rpc_failure + string" where
  "network_result a =
     (case a of
        NotAnswered \<Rightarrow> Inl RequestFailed
      | Answered s body \<Rightarrow>
          if is_http_error s then Inl (HttpError s)
          else (case body of
             None \<Rightarrow> Inl DecodeFailed
           | Some r \<Rightarrow> (case rr_result r of None \<Rightarrow> Inl NoResult | Some p \<Rightarrow> Inr p)))"

fun validate_loop :: "(nat \<Rightarrow> string http_answer) \<Rightarrow> nat list \<Rightarrow> string option \<Rightarrow> rpc_failure + string option" where
  "validate_loop net [] expected = Inr expected"
| "validate_loop net (i # is) expected =
     bind_res (network_result (net i)) (\<lambda>p.
       case expected of
         Some prior \<Rightarrow> if prior \<noteq> p then Inl NetworkMismatch else validate_loop net is expected
       | None \<Rightarrow> validate_loop net is (Some p))"

definition validate_network_passphrases ::
  "(nat \<Rightarrow> string http_answer) \<Rightarrow> rpc_client \<Rightarrow> rpc_failure + string option \<times> rpc_client" where
  "validate_network_passphrases net c =
     bind_res (validate_loop net [0..<length (urls c)] None) (\<lambda>p. Inr (p, c\<lparr>network_passphrase := p\<rparr>))"

definition check_endpoint_network :: "(nat \<Rightarrow> string http_answer) \<Rightarrow> rpc_client \<Rightarrow> nat \<Rightarrow> rpc_failure + unit" where
  "check_endpoint_network net c idx =
     (case network_passphrase c of
        None \<Rightarrow> Inr ()
      | Some expected \<Rightarrow>
          bind_res (network_result (net idx)) (\<lambda>actual. if actual \<noteq> expected then Inl NetworkMismatch else Inr ()))"

definition try_failover :: "int \<Rightarrow> nat \<Rightarrow> rpc_client \<Rightarrow> nat \<times> rpc_client" where
  "try_failover now from_idx c =
     (if active_idx c = from_idx
      then (let next = min (from_idx + 1) (length (urls c) - 1)
            in (next, if next \<noteq> from_idx
                 then c\<lparr>active_idx := next, last_failover_at := Some now, active_url_idx := next,
                        failover_count := failover_count c + 1\<rparr>
                 else c))
      else (active_idx c, c))"

definition PRIMARY_PROBE_INTERVAL :: int where
  "PRIMARY_PROBE_INTERVAL = 60"

definition maybe_probe_primary :: "'r network \<Rightarrow> rpc_client \<Rightarrow> rpc_client" where
  "maybe_probe_primary nw c =
     (let is_on_primary = active_idx c = 0;
          should_probe = \<not> is_on_primary
            \<and> (case last_failover_at c of Some t \<Rightarrow> PRIMARY_PROBE_INTERVAL \<le> nw_now nw - t | None \<Rightarrow> False)
      in if is_on_primary \<or> \<not> should_probe then c
         else (case nw_health nw of
                 Answered s _ \<Rightarrow>
                   if is_success s then c\<lparr>active_idx := 0, last_failover_at := None, active_url_idx := 0\<rparr> else c
               | NotAnswered \<Rightarrow> c))"

section \<open>The retry loop\<close>

definition MAX_ATTEMPTS_PER_URL :: nat where
  "MAX_ATTEMPTS_PER_URL = 3"

datatype 'r round_result = Settled "rpc_failure + 'r" | Exhausted "rpc_failure option"

fun attempt_loop ::
  "string \<Rightarrow> (nat \<Rightarrow> 'r http_answer) \<Rightarrow> nat list \<Rightarrow> rpc_failure option \<Rightarrow> rpc_client \<Rightarrow> 'r round_result \<times> rpc_client" where
  "attempt_loop method ans [] last_err c = (Exhausted last_err, c)"
| "attempt_loop method ans (k # ks) last_err c =
     (let c = c\<lparr>calls_made := calls_made c + 1\<rparr>;
          count_failure = (\<lambda>c. c\<lparr>calls_failed := calls_failed c + 1\<rparr>)
      in case ans k of
           NotAnswered \<Rightarrow> attempt_loop method ans ks (Some RequestFailed) c
         | Answered s body \<Rightarrow>
             if is_http_error s then
               (if is_server_error s \<or> s = 429
                then attempt_loop method ans ks (Some (HttpError s)) c
                else (Settled (Inl (HttpError s)), count_failure c))
             else (case body of
                 None \<Rightarrow> attempt_loop method ans ks (Some DecodeFailed) c
               | Some resp \<Rightarrow>
                   (case rr_error resp of
                      Some (code, message) \<Rightarrow>
                        (let c = count_failure c; rpc_err = soroban_rpc_error_new code message method
                         in if is_retryable (se_error_code rpc_err)
                            then attempt_loop method ans ks (Some (RpcError rpc_err))
                                   (if se_code rpc_err = -32001 then c\<lparr>calls_failed_32001 := calls_failed_32001 c + 1\<rparr> else c)
                            else (Settled (Inl (RpcError rpc_err)), c))
                    | None \<Rightarrow> (Settled (ok_or NoResult (rr_result resp)), c))))"

fun url_rounds ::
  "nat \<Rightarrow> string \<Rightarrow> 'r network \<Rightarrow> rpc_failure option \<Rightarrow> rpc_client \<Rightarrow> (rpc_failure + 'r) \<times> rpc_client" where
  "url_rounds 0 method nw last_err c =
     (Inl (case last_err of Some e \<Rightarrow> e | None \<Rightarrow> AllEndpointsFailed), c\<lparr>calls_failed := calls_failed c + 1\<rparr>)"
| "url_rounds (Suc n) method nw last_err c =
     (let url_idx = active_idx c
      in case (if url_idx \<noteq> 0 then check_endpoint_network (nw_network nw) c url_idx else Inr ()) of
           Inl e \<Rightarrow> (Inl e, c)
         | Inr _ \<Rightarrow>
             (case attempt_loop method (nw_answer nw url_idx) [0..<MAX_ATTEMPTS_PER_URL] last_err c of
                (Settled r, c) \<Rightarrow> (r, c)
              | (Exhausted e, c) \<Rightarrow>
                  (case try_failover (nw_now nw) url_idx c of (next_idx, c) \<Rightarrow>
                     if next_idx = url_idx then url_rounds 0 method nw e c
                     else url_rounds n method nw e c)))"

definition call :: "string \<Rightarrow> 'r network \<Rightarrow> rpc_client \<Rightarrow> (rpc_failure + 'r) \<times> rpc_client" where
  "call method nw c =
     (let c = maybe_probe_primary nw c in url_rounds (length (urls c)) method nw None c)"

definition take_metrics :: "rpc_client \<Rightarrow> (u64 \<times> u64 \<times> u64 \<times> u64) \<times> rpc_client" where
  "take_metrics c =
     ((calls_made c, calls_failed c, calls_failed_32001 c, failover_count c),
      c\<lparr>calls_made := 0, calls_failed := 0, calls_failed_32001 := 0, failover_count := 0\<rparr>)"

section \<open>Requests\<close>

record event_filter =
  ef_contract_ids :: "string list"

record get_events_params =
  gp_start_ledger :: "int option"
  gp_filters :: "event_filter list"
  gp_limit :: nat
  gp_cursor :: "string option"

definition MAX_IDS_PER_FILTER :: nat where
  "MAX_IDS_PER_FILTER = 5"

definition MAX_FILTERS :: nat where
  "MAX_FILTERS = 5"

definition event_filters :: "string list \<Rightarrow> rpc_failure + event_filter list" where
  "event_filters contract_ids =
     (if MAX_IDS_PER_FILTER * MAX_FILTERS < length contract_ids then Inl (TooManyContractIds (length contract_ids))
      else if contract_ids = [] then Inr [\<lparr>ef_contract_ids = []\<rparr>]
      else Inr (map (\<lambda>chunk. \<lparr>ef_contract_ids = chunk\<rparr>) (chunks_of MAX_IDS_PER_FILTER contract_ids)))"

text \<open>\<open>net\<close> gives the answers to a request with the given parameters.\<close>

definition get_events ::
  "(get_events_params \<Rightarrow> 'r network) \<Rightarrow> int option \<Rightarrow> string list \<Rightarrow> string option \<Rightarrow> nat \<Rightarrow> rpc_client \<Rightarrow>
   (rpc_failure + 'r) \<times> rpc_client" where
  "get_events net start_ledger contract_ids cursor limit c =
     (case event_filters contract_ids of
        Inl e \<Rightarrow> (Inl e, c)
      | Inr filters \<Rightarrow>
          call ''getEvents'' (net \<lparr>gp_start_ledger = (if cursor \<noteq> None then None else start_ledger),
            gp_filters = filters, gp_limit = limit, gp_cursor = cursor\<rparr>) c)"

section \<open>Ledger entries\<close>

datatype durability = Persistent | Temporary

datatype ledger_key =
    KContractData sc_address scval durability
  | KContractCode "u8 list"

datatype ledger_entry_data =
    EContractData sc_address scval durability scval
  | EContractCode "u8 list" "u8 list"
  | EOther

record ledger_entry_item =
  li_xdr :: string
  li_last_modified :: int

record instance_entry =
  in_wasm_hash :: "string option"
  in_storage :: scval
  in_last_modified :: int

record data_entry =
  dn_val :: scval
  dn_last_modified :: int

record xdr_env =
  xe_address :: "string \<Rightarrow> sc_address option"
  xe_key :: "ledger_key \<Rightarrow> string option"
  xe_entry :: "string \<Rightarrow> ledger_entry_data option"

text \<open>What the \<^verbatim>\<open>getLedgerEntries\<close> call returns for a list of encoded keys.\<close>

type_synonym ledger_entries = "string list \<Rightarrow> rpc_failure + ledger_entry_item list option"

definition items_of :: "ledger_entry_item list option \<Rightarrow> ledger_entry_item list" where
  "items_of r = (case r of Some xs \<Rightarrow> xs | None \<Rightarrow> [])"

definition get_ledger_entry ::
  "xdr_env \<Rightarrow> ledger_entries \<Rightarrow> ledger_key \<Rightarrow> rpc_failure + (ledger_entry_data \<times> int) option" where
  "get_ledger_entry xe entries key =
     bind_res (ok_or KeyNotEncodable (xe_key xe key)) (\<lambda>k.
     bind_res (entries [k]) (\<lambda>result.
       case items_of result of
         [] \<Rightarrow> Inr None
       | first # _ \<Rightarrow> bind_res (ok_or EntryNotDecodable (xe_entry xe (li_xdr first))) (\<lambda>data.
           Inr (Some (data, li_last_modified first)))))"

definition address_of :: "xdr_env \<Rightarrow> string \<Rightarrow> rpc_failure + sc_address" where
  "address_of xe contract_id = ok_or (InvalidContractId contract_id) (xe_address xe contract_id)"

definition instance_key :: "sc_address \<Rightarrow> ledger_key" where
  "instance_key addr = KContractData addr LedgerKeyContractInstance Persistent"

definition get_contract_wasm :: "xdr_env \<Rightarrow> ledger_entries \<Rightarrow> string \<Rightarrow> rpc_failure + (string \<times> u8 list) option" where
  "get_contract_wasm xe entries contract_id =
     bind_res (address_of xe contract_id) (\<lambda>addr.
     bind_res (get_ledger_entry xe entries (instance_key addr)) (\<lambda>r.
       case r of
         Some (EContractData _ _ _ (ContractInstance (WasmExec wasm_hash) _), _) \<Rightarrow>
           bind_res (get_ledger_entry xe entries (KContractCode wasm_hash)) (\<lambda>r.
             case r of
               Some (EContractCode _ code, _) \<Rightarrow> Inr (Some (hex wasm_hash, code))
             | _ \<Rightarrow> Inr None)
       | _ \<Rightarrow> Inr None))"

fun executable_hash :: "contract_executable \<Rightarrow> string option" where
  "executable_hash (WasmExec h) = Some (hex h)"
| "executable_hash StellarAsset = None"

fun instance_of_val :: "int \<Rightarrow> scval \<Rightarrow> instance_entry option" where
  "instance_of_val ledger (ContractInstance ex storage) =
     Some \<lparr>in_wasm_hash = executable_hash ex, in_storage = ScMap storage, in_last_modified = ledger\<rparr>"
| "instance_of_val ledger _ = None"

definition get_contract_instance :: "xdr_env \<Rightarrow> ledger_entries \<Rightarrow> string \<Rightarrow> rpc_failure + instance_entry option" where
  "get_contract_instance xe entries contract_id =
     bind_res (address_of xe contract_id) (\<lambda>addr.
     bind_res (get_ledger_entry xe entries (instance_key addr)) (\<lambda>r.
       Inr (case r of
         Some (EContractData _ _ _ val, last_modified) \<Rightarrow> instance_of_val last_modified val
       | _ \<Rightarrow> None)))"

definition get_contract_data ::
  "xdr_env \<Rightarrow> ledger_entries \<Rightarrow> string \<Rightarrow> scval \<Rightarrow> durability \<Rightarrow> rpc_failure + data_entry option" where
  "get_contract_data xe entries contract_id key durability =
     bind_res (address_of xe contract_id) (\<lambda>addr.
     bind_res (get_ledger_entry xe entries (KContractData addr key durability)) (\<lambda>r.
       Inr (case r of
         Some (EContractData _ _ _ val, last_modified) \<Rightarrow> Some \<lparr>dn_val = val, dn_last_modified = last_modified\<rparr>
       | _ \<Rightarrow> None)))"

definition encode_key :: "xdr_env \<Rightarrow> string \<times> scval \<times> durability \<Rightarrow> rpc_failure + string" where
  "encode_key xe = (\<lambda>(contract_id, key, durability).
     bind_res (address_of xe contract_id) (\<lambda>addr. ok_or KeyNotEncodable (xe_key xe (KContractData addr key durability))))"

text \<open>The position of a returned entry, by its own key re-encoded.\<close>

definition first_index :: "string list \<Rightarrow> string \<Rightarrow> nat option" where
  "first_index ks k = find (\<lambda>i. ks ! i = k) [0..<length ks]"

definition key_to_idx :: "string list \<Rightarrow> string \<Rightarrow> nat option" where
  "key_to_idx ks k = find (\<lambda>i. ks ! i = k) (rev [0..<length ks])"

definition place_instance ::
  "xdr_env \<Rightarrow> string list \<Rightarrow> ledger_entry_item \<Rightarrow> instance_entry option list \<Rightarrow> instance_entry option list" where
  "place_instance xe ks item output =
     (case xe_entry xe (li_xdr item) of
        Some (EContractData addr key dur val) \<Rightarrow>
          (case instance_of_val (li_last_modified item) val of
             None \<Rightarrow> output
           | Some inst \<Rightarrow>
               (case xe_key xe (KContractData addr key dur) of
                  None \<Rightarrow> output
                | Some k \<Rightarrow> (case first_index ks k of Some i \<Rightarrow> output[i := Some inst] | None \<Rightarrow> output)))
      | _ \<Rightarrow> output)"

definition get_contract_instances_batch ::
  "xdr_env \<Rightarrow> ledger_entries \<Rightarrow> string list \<Rightarrow> rpc_failure + instance_entry option list" where
  "get_contract_instances_batch xe entries contract_ids =
     (if contract_ids = [] then Inr []
      else
        bind_res (map_res (\<lambda>c. encode_key xe (c, LedgerKeyContractInstance, Persistent)) contract_ids) (\<lambda>ks.
        bind_res (entries ks) (\<lambda>result.
          Inr (fold (place_instance xe ks) (items_of result) (replicate (length contract_ids) None)))))"

fun place_data ::
  "xdr_env \<Rightarrow> string list \<Rightarrow> ledger_entry_item list \<Rightarrow> data_entry option list \<Rightarrow> rpc_failure + data_entry option list" where
  "place_data xe ks [] output = Inr output"
| "place_data xe ks (item # items) output =
     (case xe_entry xe (li_xdr item) of
        None \<Rightarrow> Inl EntryNotDecodable
      | Some data \<Rightarrow>
          place_data xe ks items
            (case data of
               EContractData addr key dur val \<Rightarrow>
                 (case Option.bind (xe_key xe (KContractData addr key dur)) (key_to_idx ks) of
                    Some i \<Rightarrow> output[i := Some \<lparr>dn_val = val, dn_last_modified = li_last_modified item\<rparr>]
                  | None \<Rightarrow> output)
             | _ \<Rightarrow> output))"

definition get_contract_data_batch ::
  "xdr_env \<Rightarrow> ledger_entries \<Rightarrow> (string \<times> scval \<times> durability) list \<Rightarrow> rpc_failure + data_entry option list" where
  "get_contract_data_batch xe entries keys =
     (if keys = [] then Inr []
      else
        bind_res (map_res (encode_key xe) keys) (\<lambda>ks.
        bind_res (entries ks) (\<lambda>result.
          place_data xe ks (items_of result) (replicate (length keys) None))))"

section \<open>What a call returns\<close>

lemma code_roundtrip: "code_of (from_code c) = c"
  by (simp add: from_code_def)

lemma from_code_retryable: "is_retryable (from_code c) \<longleftrightarrow> c \<in> {-32001, -32603, -32000}"
  by (auto simp: from_code_def is_retryable_def)

text \<open>An answer either answers_settle the call or is transient, with the error it leaves behind.\<close>

definition verdict :: "string \<Rightarrow> 'r http_answer \<Rightarrow> (rpc_failure + 'r) option" where
  "verdict method a =
     (case a of
        NotAnswered \<Rightarrow> None
      | Answered s body \<Rightarrow>
          if is_http_error s then (if is_server_error s \<or> s = 429 then None else Some (Inl (HttpError s)))
          else (case body of
             None \<Rightarrow> None
           | Some r \<Rightarrow> (case rr_error r of
               Some (code, message) \<Rightarrow>
                 if code \<in> {-32001, -32603, -32000} then None
                 else Some (Inl (RpcError (soroban_rpc_error_new code message method)))
             | None \<Rightarrow> Some (ok_or NoResult (rr_result r)))))"

definition transient_error :: "string \<Rightarrow> 'r http_answer \<Rightarrow> rpc_failure" where
  "transient_error method a =
     (case a of
        NotAnswered \<Rightarrow> RequestFailed
      | Answered s body \<Rightarrow>
          if is_http_error s then HttpError s
          else (case body of
             None \<Rightarrow> DecodeFailed
           | Some r \<Rightarrow> (case rr_error r of
               Some (code, message) \<Rightarrow> RpcError (soroban_rpc_error_new code message method)
             | None \<Rightarrow> NoResult)))"

text \<open>The first settling answer of a sequence, else the error of the last one.\<close>

fun first_settled :: "string \<Rightarrow> rpc_failure \<Rightarrow> 'r http_answer list \<Rightarrow> rpc_failure + 'r" where
  "first_settled method e [] = Inl e"
| "first_settled method e (a # as) =
     (case verdict method a of Some r \<Rightarrow> r | None \<Rightarrow> first_settled method (transient_error method a) as)"

definition answers_settle :: "string \<Rightarrow> 'r http_answer list \<Rightarrow> bool" where
  "answers_settle method as \<longleftrightarrow> (\<exists>a \<in> set as. verdict method a \<noteq> None)"

lemma first_settled_append:
  "first_settled m e (as @ bs) =
     (if answers_settle m as then first_settled m e as
      else first_settled m (if as = [] then e else transient_error m (last as)) bs)"
  by (induction as arbitrary: e) (auto simp: answers_settle_def split: option.splits)

text \<open>What the loop leaves alone.\<close>

definition same_routing :: "rpc_client \<Rightarrow> rpc_client \<Rightarrow> bool" where
  "same_routing c c' \<longleftrightarrow> urls c' = urls c \<and> active_idx c' = active_idx c \<and> active_url_idx c' = active_url_idx c
     \<and> network_passphrase c' = network_passphrase c \<and> failover_count c' = failover_count c
     \<and> last_failover_at c' = last_failover_at c"

lemma same_routing_simps [simp]:
  "same_routing c c"
  "same_routing (c\<lparr>calls_made := x\<rparr>) c' = same_routing c c'"
  "same_routing (c\<lparr>calls_failed := x\<rparr>) c' = same_routing c c'"
  "same_routing (c\<lparr>calls_failed_32001 := x\<rparr>) c' = same_routing c c'"
  "same_routing c (c'\<lparr>calls_made := x\<rparr>) = same_routing c c'"
  "same_routing c (c'\<lparr>calls_failed := x\<rparr>) = same_routing c c'"
  by (simp_all add: same_routing_def)

lemma attempt_loop_result:
  "fst (attempt_loop m ans ks e c) =
     (if answers_settle m (map ans ks) then Settled (first_settled m AllEndpointsFailed (map ans ks))
      else Exhausted (if ks = [] then e else Some (transient_error m (ans (last ks)))))"
proof (induction ks arbitrary: e c)
  case (Cons k ks)
  have irrelevant: "answers_settle m as \<Longrightarrow> first_settled m e as = first_settled m e' as" for e e' and as :: "'a http_answer list"
    by (induction as arbitrary: e e') (auto simp: answers_settle_def split: option.splits)
  have answers_settle: "answers_settle m (map ans (k # ks)) \<longleftrightarrow> verdict m (ans k) \<noteq> None \<or> answers_settle m (map ans ks)"
    by (auto simp: answers_settle_def)
  show ?case
  proof (cases "verdict m (ans k)")
    case None
    then obtain c' where "attempt_loop m ans (k # ks) e c = attempt_loop m ans ks (Some (transient_error m (ans k))) c'"
      by (auto simp: verdict_def transient_error_def Let_def from_code_retryable soroban_rpc_error_new_def
          split: http_answer.splits if_splits option.splits)
    with Cons.IH None answers_settle irrelevant show ?thesis by simp
  next
    case (Some r)
    then have "fst (attempt_loop m ans (k # ks) e c) = Settled r"
      by (auto simp: verdict_def Let_def from_code_retryable soroban_rpc_error_new_def
          split: http_answer.splits if_splits option.splits)
    with Some answers_settle show ?thesis by simp
  qed
qed (simp add: answers_settle_def)

lemma attempt_loop_routing: "same_routing c (snd (attempt_loop m ans ks e c))"
proof (induction ks arbitrary: e c)
  case (Cons k ks)
  from Cons.IH [of "c\<lparr>calls_made := calls_made c + 1\<rparr>"]
    Cons.IH [of "c\<lparr>calls_made := calls_made c + 1, calls_failed := calls_failed c + 1\<rparr>"]
    Cons.IH [of "c\<lparr>calls_made := calls_made c + 1, calls_failed := calls_failed c + 1, calls_failed_32001 := calls_failed_32001 c + 1\<rparr>"]
  show ?case
    by (simp add: Let_def split: http_answer.split option.split)
qed simp

definition client_ok :: "rpc_client \<Rightarrow> bool" where
  "client_ok c \<longleftrightarrow> active_idx c < length (urls c) \<and> active_url_idx c = active_idx c"

abbreviation answers_at :: "'r network \<Rightarrow> nat \<Rightarrow> 'r http_answer list" where
  "answers_at nw i \<equiv> map (nw_answer nw i) [0..<MAX_ATTEMPTS_PER_URL]"

text \<open>The answers in the order the endpoints are asked, and the endpoint that ends the call.\<close>

definition answer_sequence :: "'r network \<Rightarrow> nat \<Rightarrow> nat \<Rightarrow> 'r http_answer list" where
  "answer_sequence nw a n = concat (map (answers_at nw) [a..<n])"

definition settling_endpoint :: "string \<Rightarrow> 'r network \<Rightarrow> nat \<Rightarrow> nat \<Rightarrow> nat" where
  "settling_endpoint method nw a n = hd (filter (\<lambda>i. answers_settle method (answers_at nw i)) [a..<n] @ [n - 1])"

lemma answers_at_not_Nil [simp]: "answers_at nw i \<noteq> []"
  by (simp add: MAX_ATTEMPTS_PER_URL_def)

lemma first_settled_irrelevant: "as \<noteq> [] \<Longrightarrow> first_settled m e as = first_settled m e' as"
  by (cases as) auto

lemma answer_sequence_Cons: "a < n \<Longrightarrow> answer_sequence nw a n = answers_at nw a @ answer_sequence nw (Suc a) n"
  by (simp add: answer_sequence_def upt_conv_Cons)

lemma settling_endpoint_Cons:
  "a < n \<Longrightarrow> settling_endpoint m nw a n = (if answers_settle m (answers_at nw a) then a else settling_endpoint m nw (Suc a) n)"
  by (simp add: settling_endpoint_def upt_conv_Cons)

lemma settling_endpoint_bounds: "a < n \<Longrightarrow> a \<le> settling_endpoint m nw a n \<and> settling_endpoint m nw a n < n"
proof -
  assume "a < n"
  then have "settling_endpoint m nw a n \<in> set (filter (\<lambda>i. answers_settle m (answers_at nw i)) [a..<n] @ [n - 1])"
    unfolding settling_endpoint_def by (intro hd_in_set) simp
  with \<open>a < n\<close> show ?thesis by auto
qed

lemma attempts_at:
  assumes "attempt_loop m (nw_answer nw i) [0..<MAX_ATTEMPTS_PER_URL] e c = (r, c1)"
  shows "same_routing c c1"
    and "r = (if answers_settle m (answers_at nw i) then Settled (first_settled m AllEndpointsFailed (answers_at nw i))
         else Exhausted (Some (transient_error m (last (answers_at nw i)))))"
  using attempt_loop_routing [of c m "nw_answer nw i" "[0..<MAX_ATTEMPTS_PER_URL]" e]
    attempt_loop_result [of m "nw_answer nw i" "[0..<MAX_ATTEMPTS_PER_URL]" e c] assms
  by (simp_all add: last_map MAX_ATTEMPTS_PER_URL_def)

lemma MAX_ATTEMPTS_pos [simp]: "MAX_ATTEMPTS_PER_URL \<noteq> 0"
  by (simp add: MAX_ATTEMPTS_PER_URL_def)

text \<open>The client after stepping to the next endpoint.\<close>

definition advanced :: "int \<Rightarrow> rpc_client \<Rightarrow> rpc_client" where
  "advanced now c = c\<lparr>active_idx := Suc (active_idx c), last_failover_at := Some now,
     active_url_idx := Suc (active_idx c), failover_count := failover_count c + 1\<rparr>"

lemma url_round:
  assumes "client_ok c" and "active_idx c \<noteq> 0 \<Longrightarrow> check_endpoint_network (nw_network nw) c (active_idx c) = Inr ()"
  obtains c1 where "same_routing c c1"
    "url_rounds (Suc n) m nw e c =
      (if answers_settle m (answers_at nw (active_idx c))
       then (first_settled m AllEndpointsFailed (answers_at nw (active_idx c)), c1)
       else if Suc (active_idx c) = length (urls c)
       then (Inl (transient_error m (last (answers_at nw (active_idx c)))), c1\<lparr>calls_failed := calls_failed c1 + 1\<rparr>)
       else url_rounds n m nw (Some (transient_error m (last (answers_at nw (active_idx c))))) (advanced (nw_now nw) c1))"
proof -
  obtain r1 c1 where l: "attempt_loop m (nw_answer nw (active_idx c)) [0..<MAX_ATTEMPTS_PER_URL] e c = (r1, c1)" by fastforce
  note at = attempts_at [OF l]
  have c1: "urls c1 = urls c" "active_idx c1 = active_idx c" "active_idx c < length (urls c)"
    using at(1) assms(1) by (simp_all add: same_routing_def client_ok_def)
  have "try_failover (nw_now nw) (active_idx c) c1 =
      (if Suc (active_idx c) = length (urls c) then (active_idx c, c1) else (Suc (active_idx c), advanced (nw_now nw) c1))"
    using c1 by (auto simp: try_failover_def Let_def advanced_def)
  note failover = this
  have check: "(if active_idx c \<noteq> 0 then check_endpoint_network (nw_network nw) c (active_idx c) else Inr ()) = Inr ()"
    using assms(2) by simp
  show ?thesis
    by (rule that [OF at(1)]) (unfold url_rounds.simps Let_def check sum.case l prod.case at(2) failover, simp)
qed

lemma settled_head:
  assumes "a < n"
  shows "answers_settle m (answers_at nw a) \<Longrightarrow>
      first_settled m e (answer_sequence nw a n) = first_settled m e (answers_at nw a)"
    and "\<not> answers_settle m (answers_at nw a) \<Longrightarrow>
      first_settled m e (answer_sequence nw a n) =
        first_settled m (transient_error m (last (answers_at nw a))) (answer_sequence nw (Suc a) n)"
  using assms by (simp_all add: answer_sequence_Cons first_settled_append)

lemma url_rounds_result:
  assumes "client_ok c" "length (urls c) \<le> active_idx c + n"
    and "\<And>i. 0 < i \<Longrightarrow> check_endpoint_network (nw_network nw) c i = Inr ()"
    and "url_rounds n m nw e c = (r, c')"
  shows "r = first_settled m AllEndpointsFailed (answer_sequence nw (active_idx c) (length (urls c)))
    \<and> client_ok c' \<and> active_idx c' = settling_endpoint m nw (active_idx c) (length (urls c))
    \<and> failover_count c' = failover_count c + of_nat (active_idx c' - active_idx c)"
  using assms
proof (induction n arbitrary: e c)
  case 0
  then show ?case by (simp add: client_ok_def)
next
  case (Suc n)
  let ?a = "active_idx c" and ?n = "length (urls c)"
  have a: "?a < ?n" using Suc.prems(1) by (simp add: client_ok_def)
  obtain c1 where same: "same_routing c c1" and step: "url_rounds (Suc n) m nw e c =
      (if answers_settle m (answers_at nw ?a) then (first_settled m AllEndpointsFailed (answers_at nw ?a), c1)
       else if Suc ?a = ?n then (Inl (transient_error m (last (answers_at nw ?a))), c1\<lparr>calls_failed := calls_failed c1 + 1\<rparr>)
       else url_rounds n m nw (Some (transient_error m (last (answers_at nw ?a)))) (advanced (nw_now nw) c1))"
    by (rule url_round [OF Suc.prems(1), of nw n m e]) (use Suc.prems(3) in simp)
  note c1 = same [unfolded same_routing_def]
  consider "answers_settle m (answers_at nw ?a)" | "\<not> answers_settle m (answers_at nw ?a)" "Suc ?a = ?n"
    | "\<not> answers_settle m (answers_at nw ?a)" "Suc ?a < ?n" using a by linarith
  then show ?case
  proof cases
    case 1
    with Suc.prems(1,4) step c1 show ?thesis
      by (simp add: settled_head [OF a] settling_endpoint_Cons [OF a] client_ok_def)
  next
    case 2
    with Suc.prems(1,4) step c1 settled_head(2) [OF a 2(1)] show ?thesis
      by (simp add: settling_endpoint_Cons [OF a] client_ok_def) (simp add: answer_sequence_def settling_endpoint_def)
  next
    case 3
    let ?c2 = "advanced (nw_now nw) c1"
    have c2: "client_ok ?c2" "length (urls ?c2) \<le> active_idx ?c2 + n"
      and "\<And>i. 0 < i \<Longrightarrow> check_endpoint_network (nw_network nw) ?c2 i = Inr ()"
      and step2: "url_rounds n m nw (Some (transient_error m (last (answers_at nw ?a)))) ?c2 = (r, c')"
      using 3 c1 Suc.prems step by (simp_all add: advanced_def client_ok_def check_endpoint_network_def)
    note IH = Suc.IH [OF c2 this(3) step2]
    have "Suc ?a \<le> active_idx c'" "answer_sequence nw (Suc ?a) ?n \<noteq> []"
      using IH settling_endpoint_bounds [OF 3(2), of m nw] 3 c1 by (simp_all add: advanced_def answer_sequence_Cons)
    moreover from this(1) have "of_nat (active_idx c' - Suc ?a) + 1 = (of_nat (active_idx c' - ?a) :: u64)"
      by (metis Suc_diff_le diff_Suc_Suc of_nat_Suc add.commute)
    ultimately show ?thesis
      using IH c1 3(1) first_settled_irrelevant [of "answer_sequence nw (Suc ?a) ?n" m "transient_error m (last (answers_at nw ?a))" AllEndpointsFailed]
      by (simp add: settled_head(2) [OF a 3(1)] settling_endpoint_Cons [OF a] advanced_def algebra_simps)
  qed
qed

lemma probe_keeps:
  "urls (maybe_probe_primary nw c) = urls c" "network_passphrase (maybe_probe_primary nw c) = network_passphrase c"
  "client_ok c \<Longrightarrow> client_ok (maybe_probe_primary nw c)" "failover_count (maybe_probe_primary nw c) = failover_count c"
  "active_idx (maybe_probe_primary nw c) \<in> {0, active_idx c}"
  by (auto simp: maybe_probe_primary_def client_ok_def Let_def split: http_answer.splits)

text \<open>
  Claim C28. A call asks the active endpoint three times, then each later endpoint three times, and returns the first
  answer that answers_settle it: a result, a permanent error or a client-side HTTP status; when every answer is transient
  it returns the last error. The endpoint that settled the call stays active (the last one when none did), and
  each step to another endpoint is counted. This is under the condition that the network check of the failover
  endpoints succeeds.
\<close>
theorem call_first_answer:
  assumes "client_ok c" "\<And>i. 0 < i \<Longrightarrow> check_endpoint_network (nw_network nw) c i = Inr ()"
    and "call m nw c = (r, c')"
  shows "let a = active_idx (maybe_probe_primary nw c); n = length (urls c) in
      r = first_settled m AllEndpointsFailed (answer_sequence nw a n)
      \<and> client_ok c' \<and> active_idx c' = settling_endpoint m nw a n
      \<and> failover_count c' = failover_count c + of_nat (active_idx c' - a)"
proof -
  let ?c = "maybe_probe_primary nw c"
  have u: "url_rounds (length (urls c)) m nw None ?c = (r, c')"
    using assms(3) by (simp add: call_def Let_def probe_keeps)
  have "check_endpoint_network (nw_network nw) ?c i = Inr ()" if "0 < i" for i
    using assms(2) [OF that] by (simp add: check_endpoint_network_def probe_keeps)
  moreover have "length (urls ?c) \<le> active_idx ?c + length (urls c)" by (simp add: probe_keeps)
  ultimately have "r = first_settled m AllEndpointsFailed (answer_sequence nw (active_idx ?c) (length (urls ?c)))
    \<and> client_ok c' \<and> active_idx c' = settling_endpoint m nw (active_idx ?c) (length (urls ?c))
    \<and> failover_count c' = failover_count ?c + of_nat (active_idx c' - active_idx ?c)"
    by (intro url_rounds_result [OF probe_keeps(3) [OF assms(1)] _ _ u])
  then show ?thesis by (simp add: Let_def probe_keeps)
qed

text \<open>
  A failover endpoint that does not answer the network check, or answers for another network, ends the call at
  once: no later endpoint is asked, whatever it would answer. The endpoint stays active, so until the next
  recovery probe further calls fail the same way without a single request being counted.
\<close>
theorem unreachable_candidate_blocks:
  assumes "client_ok c" "Suc (active_idx c) < length (urls c)"
    and "active_idx c \<noteq> 0 \<Longrightarrow> check_endpoint_network (nw_network nw) c (active_idx c) = Inr ()"
    and "maybe_probe_primary nw c = c"
    and transient: "\<not> answers_settle m (answers_at nw (active_idx c))"
    and check: "check_endpoint_network (nw_network nw) c (Suc (active_idx c)) = Inl e"
    and "call m nw c = (r, c')"
    and later: "nw_now nw' - nw_now nw < PRIMARY_PROBE_INTERVAL" "nw_network nw' = nw_network nw"
  shows "r = Inl e \<and> active_idx c' = Suc (active_idx c) \<and> call m' nw' c' = (Inl e, c')"
proof -
  let ?a = "active_idx c" and ?n = "length (urls c)"
  obtain c1 where same: "same_routing c c1" and step: "url_rounds (Suc (?n - 1)) m nw None c =
      (if answers_settle m (answers_at nw ?a) then (first_settled m AllEndpointsFailed (answers_at nw ?a), c1)
       else if Suc ?a = ?n then (Inl (transient_error m (last (answers_at nw ?a))), c1\<lparr>calls_failed := calls_failed c1 + 1\<rparr>)
       else url_rounds (?n - 1) m nw (Some (transient_error m (last (answers_at nw ?a)))) (advanced (nw_now nw) c1))"
    by (rule url_round [OF assms(1), of nw "?n - 1" m None]) (use assms(3) in simp)
  note c1 = same [unfolded same_routing_def]
  let ?c2 = "advanced (nw_now nw) c1"
  have c2: "active_idx ?c2 = Suc ?a" "urls ?c2 = urls c" "last_failover_at ?c2 = Some (nw_now nw)"
    "check_endpoint_network (nw_network nw) ?c2 (Suc ?a) = Inl e"
    using c1 check by (simp_all add: advanced_def check_endpoint_network_def)
  have blocked: "url_rounds (Suc k) m2 nw2 e2 ?c2 = (Inl e, ?c2)" if "nw_network nw2 = nw_network nw" for k m2 e2 and nw2 :: "'x network"
    using c2 that by simp
  have "Suc (?n - 2) = ?n - 1" "Suc (?n - 1) = ?n" using assms(2) by simp_all
  then have c': "r = Inl e" "c' = ?c2"
    using assms(2,4,7) transient step blocked [of nw "?n - 2"] by (simp_all add: call_def Let_def)
  have "maybe_probe_primary nw' ?c2 = ?c2" using c2 later by (simp add: maybe_probe_primary_def)
  moreover have "url_rounds (length (urls ?c2)) m' nw' None ?c2 = (Inl e, ?c2)"
    using blocked [OF later(2), of "?n - 1" m' None] c2(2) \<open>Suc (?n - 1) = ?n\<close> by metis
  ultimately have "call m' nw' ?c2 = (Inl e, ?c2)" by (simp only: call_def Let_def)
  then show ?thesis using c' c2(1) by simp
qed

section \<open>Batched reads\<close>

text \<open>
  What the documentation of \<^verbatim>\<open>getLedgerEntries\<close> promises: the entries stored under the requested keys, absent
  ones left out; each decodes, and its own key encodes to the key it is stored under.
\<close>

definition entry_key :: "ledger_entry_data \<Rightarrow> ledger_key option" where
  "entry_key d = (case d of EContractData a k u v \<Rightarrow> Some (KContractData a k u) | EContractCode h c \<Rightarrow> Some (KContractCode h) | EOther \<Rightarrow> None)"

definition serves :: "xdr_env \<Rightarrow> (string \<Rightarrow> ledger_entry_item option) \<Rightarrow> ledger_entries \<Rightarrow> bool" where
  "serves xe ledger entries \<longleftrightarrow> (\<forall>ks. entries ks = Inr (Some (List.map_filter ledger ks)))
     \<and> (\<forall>key k item. xe_key xe key = Some k \<longrightarrow> ledger k = Some item \<longrightarrow>
          (\<exists>d. xe_entry xe (li_xdr item) = Some d \<and> entry_key d = Some key))"

lemma find_upt_nth:
  assumes "distinct ks" "i < length ks" "set is = {..<length ks}"
  shows "find (\<lambda>j. ks ! j = ks ! i) is = Some i"
proof -
  have "\<exists>j \<in> set is. ks ! j = ks ! i" using assms(2,3) by auto
  then obtain j where j: "find (\<lambda>j. ks ! j = ks ! i) is = Some j"
    by (cases "find (\<lambda>j. ks ! j = ks ! i) is") (auto simp: find_None_iff)
  from find_SomeD [OF this] have "j \<in> set is" "ks ! j = ks ! i" by simp_all
  then have "j = i" using assms by (metis lessThan_iff nth_eq_iff_index_eq)
  with j show ?thesis by simp
qed

lemma index_nth:
  assumes "distinct ks" "i < length ks"
  shows "first_index ks (ks ! i) = Some i" "key_to_idx ks (ks ! i) = Some i"
  unfolding first_index_def key_to_idx_def by (rule find_upt_nth [OF assms]; simp add: atLeast0LessThan)+

text \<open>A loop that puts each present item at the position of its key builds the aligned list.\<close>

lemma fill_aligned:
  assumes "\<And>i item out. i < length ks \<Longrightarrow> ledger (ks ! i) = Some item \<Longrightarrow>
      step item out = (case w item of Some x \<Rightarrow> out[i := Some x] | None \<Rightarrow> out)"
  shows "fold step (List.map_filter ledger ks) (replicate (length ks) None) = map (\<lambda>k. Option.bind (ledger k) w) ks"
proof -
  have "fold step (List.map_filter ledger (take j ks)) (replicate (length ks) None)
      = map (\<lambda>k. Option.bind (ledger k) w) (take j ks) @ replicate (length ks - j) None" if "j \<le> length ks" for j
    using that
  proof (induction j)
    case (Suc j)
    let ?done = "map (\<lambda>k. Option.bind (ledger k) w) (take j ks)"
    have tail: "replicate (length ks - j) None = None # replicate (length ks - Suc j) None"
      using Suc.prems by (metis Suc_diff_Suc Suc_le_lessD replicate_Suc)
    have "take (Suc j) ks = take j ks @ [ks ! j]" using Suc.prems by (simp add: take_Suc_conv_app_nth)
    moreover have "(?done @ None # rest)[j := x] = ?done @ x # rest" for x rest
      using Suc.prems by (simp add: list_update_append)
    ultimately show ?case
      using Suc assms [of j] tail
      by (cases "ledger (ks ! j)") (auto simp: List.map_filter_def split: option.splits)
  qed simp
  from this [of "length ks"] show ?thesis by simp
qed

definition place_datum ::
  "xdr_env \<Rightarrow> string list \<Rightarrow> ledger_entry_item \<Rightarrow> data_entry option list \<Rightarrow> data_entry option list" where
  "place_datum xe ks item out =
     (case xe_entry xe (li_xdr item) of
        Some (EContractData addr key dur val) \<Rightarrow>
          (case Option.bind (xe_key xe (KContractData addr key dur)) (key_to_idx ks) of
             Some i \<Rightarrow> out[i := Some \<lparr>dn_val = val, dn_last_modified = li_last_modified item\<rparr>]
           | None \<Rightarrow> out)
      | _ \<Rightarrow> out)"

lemma place_data_fold:
  "(\<And>item. item \<in> set items \<Longrightarrow> xe_entry xe (li_xdr item) \<noteq> None) \<Longrightarrow>
   place_data xe ks items out = Inr (fold (place_datum xe ks) items out)"
  by (induction items arbitrary: out) (auto simp: place_datum_def split: option.splits ledger_entry_data.splits)

definition data_of_item :: "xdr_env \<Rightarrow> ledger_entry_item \<Rightarrow> data_entry option" where
  "data_of_item xe item = (case xe_entry xe (li_xdr item) of
     Some (EContractData _ _ _ val) \<Rightarrow> Some \<lparr>dn_val = val, dn_last_modified = li_last_modified item\<rparr> | _ \<Rightarrow> None)"

definition instance_of_item :: "xdr_env \<Rightarrow> ledger_entry_item \<Rightarrow> instance_entry option" where
  "instance_of_item xe item = (case xe_entry xe (li_xdr item) of
     Some (EContractData _ _ _ val) \<Rightarrow> instance_of_val (li_last_modified item) val | _ \<Rightarrow> None)"

lemma encode_key_Inr:
  "encode_key xe (c, key, dur) = Inr k \<longleftrightarrow> (\<exists>addr. xe_address xe c = Some addr \<and> xe_key xe (KContractData addr key dur) = Some k)"
  by (auto simp: encode_key_def address_of_def ok_or_def split: option.splits)

lemma served_key:
  assumes "serves xe ledger entries" "xe_key xe (KContractData addr key dur) = Some k" "ledger k = Some item"
  shows "\<exists>val. xe_entry xe (li_xdr item) = Some (EContractData addr key dur val)"
proof -
  obtain d where "xe_entry xe (li_xdr item) = Some d" "entry_key d = Some (KContractData addr key dur)"
    using assms unfolding serves_def by blast
  then show ?thesis by (cases d) (simp_all add: entry_key_def)
qed

lemma get_ledger_entry_served:
  assumes "serves xe ledger entries" "xe_key xe (KContractData addr key dur) = Some k"
  shows "get_ledger_entry xe entries (KContractData addr key dur) = Inr (case ledger k of None \<Rightarrow> None
    | Some item \<Rightarrow> Some (the (xe_entry xe (li_xdr item)), li_last_modified item))"
proof -
  have "entries [k] = Inr (Some (List.map_filter ledger [k]))" using assms(1) by (simp add: serves_def)
  then show ?thesis
    using served_key [OF assms]
    by (cases "ledger k") (auto simp: get_ledger_entry_def items_of_def assms(2) List.map_filter_simps)
qed

lemma single_data:
  assumes "serves xe ledger entries" "encode_key xe (c, key, dur) = Inr k"
  shows "get_contract_data xe entries c key dur = Inr (Option.bind (ledger k) (data_of_item xe))"
proof -
  obtain addr where addr: "xe_address xe c = Some addr" "xe_key xe (KContractData addr key dur) = Some k"
    using assms(2) by (auto simp: encode_key_Inr)
  show ?thesis
    using served_key [OF assms(1) addr(2)]
    by (cases "ledger k")
      (auto simp: get_contract_data_def address_of_def get_ledger_entry_served [OF assms(1) addr(2)] data_of_item_def addr(1))
qed

lemma single_instance:
  assumes "serves xe ledger entries" "encode_key xe (c, LedgerKeyContractInstance, Persistent) = Inr k"
  shows "get_contract_instance xe entries c = Inr (Option.bind (ledger k) (instance_of_item xe))"
proof -
  obtain addr where addr: "xe_address xe c = Some addr" "xe_key xe (KContractData addr LedgerKeyContractInstance Persistent) = Some k"
    using assms(2) by (auto simp: encode_key_Inr)
  show ?thesis
    using served_key [OF assms(1) addr(2)]
    by (cases "ledger k")
      (auto simp: get_contract_instance_def instance_key_def address_of_def get_ledger_entry_served [OF assms(1) addr(2)]
        instance_of_item_def addr(1))
qed

lemma batch_keys:
  assumes "serves xe ledger entries" "map_res (encode_key xe) keys = Inr ks" "i < length ks" "ledger (ks ! i) = Some item"
  shows "\<exists>addr key dur val. xe_entry xe (li_xdr item) = Some (EContractData addr key dur val)
      \<and> xe_key xe (KContractData addr key dur) = Some (ks ! i)"
proof -
  have "encode_key xe (keys ! i) = Inr (ks ! i)"
    using assms(2,3) map_res_length [OF assms(2)] by (simp add: map_res_Inr_iff list_all2_conv_all_nth)
  moreover obtain c key dur where "keys ! i = (c, key, dur)" by (metis prod_cases3)
  ultimately obtain addr where k: "xe_key xe (KContractData addr key dur) = Some (ks ! i)" by (auto simp: encode_key_Inr)
  from served_key [OF assms(1) k assms(4)] k show ?thesis by blast
qed

lemma map_res_map: "(\<And>x y. x \<in> set xs \<Longrightarrow> f x = Inr y \<Longrightarrow> g x = Inr (h y)) \<Longrightarrow> map_res f xs = Inr ys \<Longrightarrow> map_res g xs = Inr (map h ys)"
  by (induction xs arbitrary: ys) auto

lemma data_batch:
  assumes sv: "serves xe ledger entries" and ks: "map_res (encode_key xe) keys = Inr ks" "distinct ks" and "keys \<noteq> []"
  shows "get_contract_data_batch xe entries keys = Inr (map (\<lambda>k. Option.bind (ledger k) (data_of_item xe)) ks)"
proof -
  note enc = batch_keys [OF sv ks(1)]
  have step: "place_datum xe ks item out = (case data_of_item xe item of Some x \<Rightarrow> out[i := Some x] | None \<Rightarrow> out)"
    if "i < length ks" "ledger (ks ! i) = Some item" for i item out
    using enc [OF that] index_nth(2) [OF ks(2) that(1)] by (auto simp: place_datum_def data_of_item_def)
  have "xe_entry xe (li_xdr item) \<noteq> None" if "item \<in> set (List.map_filter ledger ks)" for item
    using enc that by (fastforce simp: List.map_filter_def in_set_conv_nth)
  then have "place_data xe ks (List.map_filter ledger ks) (replicate (length ks) None)
      = Inr (fold (place_datum xe ks) (List.map_filter ledger ks) (replicate (length ks) None))"
    by (rule place_data_fold)
  also have "\<dots> = Inr (map (\<lambda>k. Option.bind (ledger k) (data_of_item xe)) ks)"
    by (simp only: fill_aligned [of ks ledger "place_datum xe ks" "data_of_item xe", OF step])
  finally show ?thesis
    using sv ks(1) map_res_length [OF ks(1)] assms(4) by (simp add: get_contract_data_batch_def serves_def items_of_def)
qed

lemma instance_batch:
  assumes sv: "serves xe ledger entries"
    and ks: "map_res (\<lambda>c. encode_key xe (c, LedgerKeyContractInstance, Persistent)) cs = Inr ks" "distinct ks" and "cs \<noteq> []"
  shows "get_contract_instances_batch xe entries cs = Inr (map (\<lambda>k. Option.bind (ledger k) (instance_of_item xe)) ks)"
proof -
  have "map_res (encode_key xe) (map (\<lambda>c. (c, LedgerKeyContractInstance, Persistent)) cs) = Inr ks"
    using ks(1) by (simp add: map_res_Inr_iff list_all2_map1)
  note enc = batch_keys [OF sv this]
  have step: "place_instance xe ks item out = (case instance_of_item xe item of Some x \<Rightarrow> out[i := Some x] | None \<Rightarrow> out)"
    if "i < length ks" "ledger (ks ! i) = Some item" for i item out
    using enc [OF that] index_nth(1) [OF ks(2) that(1)]
    by (auto simp: place_instance_def instance_of_item_def split: option.splits)
  have "fold (place_instance xe ks) (List.map_filter ledger ks) (replicate (length ks) None)
      = map (\<lambda>k. Option.bind (ledger k) (instance_of_item xe)) ks"
    by (rule fill_aligned [of ks ledger "place_instance xe ks" "instance_of_item xe", OF step])
  then show ?thesis
    using sv ks(1) map_res_length [OF ks(1)] assms(4) by (simp add: get_contract_instances_batch_def serves_def items_of_def)
qed

lemma batch_reads:
  assumes "serves xe ledger entries" "map_res (encode_key xe) keys = Inr ks" "distinct ks"
  shows "get_contract_data_batch xe entries keys = map_res (\<lambda>(c, key, dur). get_contract_data xe entries c key dur) keys"
proof -
  have "map_res (\<lambda>(c, key, dur). get_contract_data xe entries c key dur) keys
      = Inr (map (\<lambda>k. Option.bind (ledger k) (data_of_item xe)) ks)"
    using single_data [OF assms(1)] by (intro map_res_map [OF _ assms(2)]) auto
  then show ?thesis
    using data_batch [OF assms(1-3)] by (cases "keys = []") (simp_all add: get_contract_data_batch_def)
qed

lemma batch_instances:
  assumes "serves xe ledger entries"
    and "map_res (\<lambda>c. encode_key xe (c, LedgerKeyContractInstance, Persistent)) cs = Inr js" "distinct js"
  shows "get_contract_instances_batch xe entries cs = map_res (get_contract_instance xe entries) cs"
proof -
  have "map_res (get_contract_instance xe entries) cs = Inr (map (\<lambda>k. Option.bind (ledger k) (instance_of_item xe)) js)"
    using single_instance [OF assms(1)] by (intro map_res_map [OF _ assms(2)]) auto
  then show ?thesis
    using instance_batch [OF assms(1-3)] by (cases "cs = []") (simp_all add: get_contract_instances_batch_def)
qed


text \<open>
  The watch list is spread over the filters without loss: together they name exactly the watched contracts in
  order, none is empty, none exceeds five ids and there are at most five; a longer list is refused.
\<close>
theorem event_filters_cover:
  "case event_filters ids of
     Inl e \<Rightarrow> 25 < length ids
   | Inr fs \<Rightarrow> length ids \<le> 25 \<and> concat (map ef_contract_ids fs) = ids \<and> 0 < length fs \<and> length fs \<le> 5
       \<and> list_all (\<lambda>f. length (ef_contract_ids f) \<le> 5 \<and> (ids \<noteq> [] \<longrightarrow> ef_contract_ids f \<noteq> [])) fs"
proof (cases "ids = [] \<or> 25 < length ids")
  case False
  have "chunks_of 5 ids \<noteq> []" using False by (subst chunks_of.simps) simp
  moreover have "length (chunks_of 5 ids) \<le> 5" using length_chunks [of 5 ids 5] False by simp
  ultimately show ?thesis
    using False concat_chunks [of 5 ids] chunks_bounds [of 5 _ ids]
    by (auto simp: event_filters_def MAX_IDS_PER_FILTER_def MAX_FILTERS_def list_all_iff comp_def)
qed (auto simp: event_filters_def MAX_IDS_PER_FILTER_def MAX_FILTERS_def)

section \<open>Samples\<close>

definition sample_client :: "nat \<Rightarrow> string option \<Rightarrow> rpc_client" where
  "sample_client n p = \<lparr>urls = replicate n ''http://a'', active_idx = 0, last_failover_at = None, calls_made = 0,
     calls_failed = 0, calls_failed_32001 = 0, failover_count = 0, active_url_idx = 0, network_passphrase = p\<rparr>"

definition result_answer :: "'r \<Rightarrow> 'r http_answer" where
  "result_answer x = Answered 200 (Some \<lparr>rr_result = Some x, rr_error = None\<rparr>)"

text \<open>Only the endpoint at position \<open>i\<close> answers.\<close>

definition only_endpoint :: "nat \<Rightarrow> nat network" where
  "only_endpoint i = \<lparr>nw_answer = (\<lambda>j k. if j = i then result_answer 7 else NotAnswered),
     nw_network = (\<lambda>j. if j = i then result_answer ''P'' else NotAnswered), nw_health = NotAnswered, nw_now = 0\<rparr>"

lemma upt_attempts: "[0..<MAX_ATTEMPTS_PER_URL] = [0, 1, 2]"
  by (simp add: MAX_ATTEMPTS_PER_URL_def upt_rec)

theorem call_first_answer_witness:
  "fst (call ''getEvents'' (only_endpoint 1) (sample_client 2 None)) = Inr 7
   \<and> active_idx (snd (call ''getEvents'' (only_endpoint 1) (sample_client 2 None))) = 1"
proof -
  let ?c = "sample_client 2 None" and ?nw = "only_endpoint 1"
  obtain r c' where call: "call ''getEvents'' ?nw ?c = (r, c')" by fastforce
  have ok: "client_ok ?c" by (simp add: client_ok_def sample_client_def)
  have chk: "check_endpoint_network (nw_network ?nw) ?c i = Inr ()" if "0 < i" for i
    by (simp add: check_endpoint_network_def sample_client_def)
  have "maybe_probe_primary ?nw ?c = ?c" by (simp add: maybe_probe_primary_def sample_client_def)
  moreover have "active_idx ?c = 0" "length (urls ?c) = 2" by (simp_all add: sample_client_def)
  moreover have "[0..<2] = [0, 1::nat]" by (simp add: upt_rec)
  ultimately show ?thesis
    using call_first_answer [OF ok chk call] call
    by (simp add: answer_sequence_def settling_endpoint_def upt_attempts only_endpoint_def result_answer_def
        answers_settle_def verdict_def is_http_error_def)
qed

theorem unreachable_candidate_blocks_witness:
  "\<exists>c'. call ''getEvents'' (only_endpoint 2) (sample_client 3 (Some ''P'')) = (Inl RequestFailed, c')
     \<and> call ''getEvents'' (only_endpoint 2) c' = (Inl RequestFailed, c')"
proof -
  let ?c = "sample_client 3 (Some ''P'')" and ?nw = "only_endpoint 2"
  obtain r c' where call: "call ''getEvents'' ?nw ?c = (r, c')" by fastforce
  have c: "client_ok ?c" "Suc (active_idx ?c) < length (urls ?c)" "active_idx ?c = 0"
    by (simp_all add: client_ok_def sample_client_def)
  have p: "maybe_probe_primary ?nw ?c = ?c" by (simp add: maybe_probe_primary_def sample_client_def)
  have s: "\<not> answers_settle ''getEvents'' (answers_at ?nw (active_idx ?c))"
    by (simp add: answers_settle_def upt_attempts only_endpoint_def verdict_def c(3))
  have e: "check_endpoint_network (nw_network ?nw) ?c (Suc (active_idx ?c)) = Inl RequestFailed"
    by (simp add: check_endpoint_network_def sample_client_def only_endpoint_def network_result_def)
  have l: "nw_now ?nw - nw_now ?nw < PRIMARY_PROBE_INTERVAL" by (simp add: PRIMARY_PROBE_INTERVAL_def)
  show ?thesis
    using unreachable_candidate_blocks [OF c(1,2) _ p s e call l refl, of "''getEvents''"] c(3) call by auto
qed

definition sample_key :: ledger_key where
  "sample_key = KContractData (ContractAddr []) (ScU32 1) Temporary"

definition sample_xdr :: xdr_env where
  "sample_xdr = \<lparr>xe_address = (\<lambda>s. Some (ContractAddr [])),
     xe_key = (\<lambda>k. if k = sample_key then Some ''k'' else if k = instance_key (ContractAddr []) then Some ''i'' else None),
     xe_entry = (\<lambda>x. if x = ''k'' then Some (EContractData (ContractAddr []) (ScU32 1) Temporary (ScU32 9)) else None)\<rparr>"

definition sample_ledger :: "string \<Rightarrow> ledger_entry_item option" where
  "sample_ledger k = (if k = ''k'' then Some \<lparr>li_xdr = ''k'', li_last_modified = 5\<rparr> else None)"


theorem event_filters_cover_witness:
  "\<exists>fs. event_filters (replicate 7 ''C'') = Inr fs \<and> concat (map ef_contract_ids fs) = replicate 7 ''C'' \<and> length fs \<le> 5"
  using event_filters_cover [of "replicate 7 ''C''"]
  by (cases "event_filters (replicate 7 ''C'')") (auto simp: event_filters_def MAX_IDS_PER_FILTER_def MAX_FILTERS_def)

end
