(* ===== verification/Spec_Cache.thy ===== *)
theory Spec_Cache
  imports Spec_Diff Rpc_Client
begin

text \<open>
  The interface cache and the interface history of the indexer,
  \<^verbatim>\<open>crates/lumenqraph-indexer/src/specs.rs\<close>: looking a contract's interface up with a fetch on a miss,
  noticing upgrades, and appending each new executable with its diff to \<^verbatim>\<open>contract_spec_versions\<close>.

  The LRU map comes from a library: its operations are the argument \<open>ops\<close>, its laws the locale
  \<open>lru_cache\<close>, met by a list kept in order of use. The RPC, the hex decoder and the XDR stream reader are
  arguments too.
\<close>

section \<open>LRU maps\<close>

record ('v, 'c) lru_ops =
  lru_get :: "string \<Rightarrow> 'c \<Rightarrow> 'v option \<times> 'c"
  lru_put :: "string \<Rightarrow> 'v \<Rightarrow> 'c \<Rightarrow> 'c"
  lru_pop :: "string \<Rightarrow> 'c \<Rightarrow> 'c"
  lru_len :: "'c \<Rightarrow> nat"

text \<open>Reading promotes the entry but changes no value; writing may evict other entries.\<close>

locale lru_cache =
  fixes ops :: "('v, 'c) lru_ops"
    and valid :: "'c \<Rightarrow> bool"
    and look :: "'c \<Rightarrow> string \<Rightarrow> 'v option"
    and cap :: nat
  assumes get: "valid c \<Longrightarrow> lru_get ops k c = (r, c') \<Longrightarrow> r = look c k \<and> look c' = look c \<and> valid c'"
    and put_same: "valid c \<Longrightarrow> look (lru_put ops k v c) k = Some v"
    and put_other: "valid c \<Longrightarrow> k' \<noteq> k \<Longrightarrow> look (lru_put ops k v c) k' \<in> {look c k', None}"
    and put_valid: "valid c \<Longrightarrow> valid (lru_put ops k v c)"
    and pop: "valid c \<Longrightarrow> look (lru_pop ops k c) = (look c)(k := None) \<and> valid (lru_pop ops k c)"
    and len: "valid c \<Longrightarrow> lru_len ops c \<le> cap"
begin

lemma get_cases: "valid c \<Longrightarrow> \<exists>c'. lru_get ops k c = (look c k, c') \<and> look c' = look c \<and> valid c'"
  using get [of c k] by (metis prod.exhaust)

lemma put_entry:
  assumes "valid c" "look (lru_put ops k v c) k' = Some w"
  shows "k' = k \<and> w = v \<or> k' \<noteq> k \<and> look c k' = Some w"
  using put_same [OF assms(1)] put_other [OF assms(1), of k' k v] assms(2) by (cases "k' = k") auto

end

text \<open>The order-of-use list: most recent first, cut to the capacity.\<close>

definition lru_list :: "nat \<Rightarrow> ('v, (string \<times> 'v) list) lru_ops" where
  "lru_list cap = \<lparr>
     lru_get = (\<lambda>k c. case map_of c k of
        None \<Rightarrow> (None, c)
      | Some v \<Rightarrow> (Some v, (k, v) # filter (\<lambda>p. fst p \<noteq> k) c)),
     lru_put = (\<lambda>k v c. take cap ((k, v) # filter (\<lambda>p. fst p \<noteq> k) c)),
     lru_pop = (\<lambda>k c. filter (\<lambda>p. fst p \<noteq> k) c),
     lru_len = length\<rparr>"

definition lru_list_valid :: "nat \<Rightarrow> (string \<times> 'v) list \<Rightarrow> bool" where
  "lru_list_valid cap c \<longleftrightarrow> distinct (map fst c) \<and> length c \<le> cap"

lemma map_of_filter_fst: "map_of (filter (\<lambda>p. fst p \<noteq> k) c) k' = (if k' = k then None else map_of c k')"
  by (induction c) auto

lemma map_of_take: "map_of (take n c) k = Some v \<Longrightarrow> distinct (map fst c) \<Longrightarrow> map_of c k = Some v"
  by (metis in_set_takeD map_of_SomeD map_of_is_SomeI)

lemma length_filter_fst: "map_of c k = Some v \<Longrightarrow> length (filter (\<lambda>p. fst p \<noteq> k) c) < length c"
  by (induction c) (auto split: if_splits simp: le_imp_less_Suc)

interpretation lru_list: lru_cache "lru_list (Suc n)" "lru_list_valid (Suc n)" map_of "Suc n" for n
proof (unfold_locales, goal_cases)
  case (1 c k r c')
  have "distinct (map fst (filter (\<lambda>p. fst p \<noteq> k) c))"
    using 1 by (simp add: lru_list_valid_def distinct_map_filter)
  moreover have "map_of ((k, w) # filter (\<lambda>p. fst p \<noteq> k) c) = map_of c" if "map_of c k = Some w" for w
    using that by (auto simp: map_of_filter_fst fun_eq_iff)
  moreover have "map_of c k = Some w \<Longrightarrow> Suc (length (filter (\<lambda>p. fst p \<noteq> k) c)) \<le> length c" for w
    using length_filter_fst by (metis Suc_leI)
  ultimately show ?case
    using 1 by (fastforce simp: lru_list_def lru_list_valid_def split: option.splits)
next
  case (2 c k v)
  then show ?case by (simp add: lru_list_def)
next
  case (3 c k' k v)
  have d: "distinct (map fst ((k, v) # filter (\<lambda>p. fst p \<noteq> k) c))"
    using 3 by (auto simp: lru_list_valid_def distinct_map_filter)
  show ?case
    using map_of_take [OF _ d, of "Suc n" k'] 3
    by (cases "map_of (lru_put (lru_list (Suc n)) k v c) k'") (auto simp: lru_list_def map_of_filter_fst)
next
  case (4 c k v)
  have "distinct (map fst (take n (filter (\<lambda>p. fst p \<noteq> k) c)))"
    using 4 by (simp add: lru_list_valid_def distinct_map_filter take_map [symmetric])
  then show ?case by (auto simp: lru_list_def lru_list_valid_def dest: in_set_takeD)
next
  case (5 c k)
  then show ?case
    by (auto simp: lru_list_def lru_list_valid_def map_of_filter_fst distinct_map_filter fun_eq_iff
        intro: order_trans [OF length_filter_le])
next
  case (6 c)
  then show ?case by (simp add: lru_list_def lru_list_valid_def)
qed

section \<open>The tables\<close>

record spec_row =
  sr_contract_id :: string
  sr_wasm_hash :: string
  sr_interface :: contract_spec
  sr_section :: string
  sr_has_events :: bool
  sr_complete :: bool

record spec_version =
  sv_id :: nat
  sv_contract_id :: string
  sv_version :: int
  sv_wasm_hash :: string
  sv_previous :: "string option"
  sv_interface :: contract_spec
  sv_section :: string
  sv_diff :: "spec_diff option"
  sv_breaking :: bool
  sv_ledger :: int
  sv_complete :: bool

record spec_tables =
  st_specs :: "spec_row list"
  st_versions :: "spec_version list"
  st_next_id :: nat

text \<open>
  \<open>pe_accepts\<close> says whether the database takes the interface as JSON; \<open>pe_unhex\<close> decodes a stored section.
\<close>

record parse_env =
  pe_lossy :: "u8 list \<Rightarrow> string"
  pe_read_iter :: "u8 list \<Rightarrow> (string + sc_spec_entry) list"
  pe_unhex :: "string \<Rightarrow> u8 list option"
  pe_accepts :: "contract_spec \<Rightarrow> bool"

datatype spec_store_error = InterfaceRejected

definition persist ::
  "parse_env \<Rightarrow> string \<Rightarrow> string \<Rightarrow> string \<Rightarrow> contract_spec \<Rightarrow> bool \<Rightarrow> spec_tables \<Rightarrow> spec_store_error + spec_tables" where
  "persist env c wasm_hash section spec complete t =
     (if \<not> pe_accepts env spec then Inl InterfaceRejected
      else
        (let row = \<lparr>sr_contract_id = c, sr_wasm_hash = wasm_hash, sr_interface = spec, sr_section = section,
                    sr_has_events = has_events spec, sr_complete = complete\<rparr>
         in Inr (t\<lparr>st_specs := (if c \<in> sr_contract_id ` set (st_specs t)
               then map (\<lambda>r. if sr_contract_id r = c then row else r) (st_specs t)
               else st_specs t @ [row])\<rparr>)))"

definition diff_against :: "parse_env \<Rightarrow> string \<Rightarrow> contract_spec \<Rightarrow> spec_diff option" where
  "diff_against env previous_section new_spec =
     (case pe_unhex env previous_section of
        None \<Rightarrow> None
      | Some bytes \<Rightarrow>
          (case from_spec_xdr (pe_lossy env) (pe_read_iter env) bytes of
             None \<Rightarrow> None
           | Some p \<Rightarrow> Some (between (ps_spec p) new_spec)))"

text \<open>\<^verbatim>\<open>ORDER BY version DESC LIMIT 1\<close>.\<close>

definition newest :: "string \<Rightarrow> spec_version list \<Rightarrow> spec_version option" where
  "newest c vs =
     foldl (\<lambda>a r. case a of None \<Rightarrow> Some r | Some b \<Rightarrow> if sv_version b < sv_version r then Some r else Some b) None
       (filter (\<lambda>r. sv_contract_id r = c) vs)"

definition add_version :: "parse_env \<Rightarrow> spec_version \<Rightarrow> spec_tables \<Rightarrow> spec_store_error + spec_tables" where
  "add_version env row t =
     (if \<not> pe_accepts env (sv_interface row) then Inl InterfaceRejected
      else if \<exists>r \<in> set (st_versions t). sv_contract_id r = sv_contract_id row \<and> sv_version r = sv_version row then Inr t
      else Inr (t\<lparr>st_versions := st_versions t @ [row\<lparr>sv_id := st_next_id t\<rparr>], st_next_id := st_next_id t + 1\<rparr>))"

definition record_version ::
  "parse_env \<Rightarrow> string \<Rightarrow> string \<Rightarrow> string \<Rightarrow> contract_spec \<Rightarrow> bool \<Rightarrow> int \<Rightarrow> spec_tables \<Rightarrow> spec_store_error + spec_tables" where
  "record_version env c wasm_hash section spec complete ledger t =
     (let insert_row = (\<lambda>version previous_hash diff.
            add_version env \<lparr>sv_id = 0, sv_contract_id = c, sv_version = version, sv_wasm_hash = wasm_hash,
              sv_previous = previous_hash, sv_interface = spec, sv_section = section, sv_diff = diff,
              sv_breaking = (case diff of Some d \<Rightarrow> df_breaking d | None \<Rightarrow> False), sv_ledger = ledger,
              sv_complete = complete\<rparr> t)
      in case newest c (st_versions t) of
           None \<Rightarrow> insert_row 1 None None
         | Some p \<Rightarrow>
             if sv_wasm_hash p = wasm_hash then Inr t
             else insert_row (sv_version p + 1) (Some (sv_wasm_hash p))
                    (if complete then diff_against env (sv_section p) spec else None))"

section \<open>Loading\<close>

text \<open>\<open>wasm_of\<close> is the answer of the RPC for a contract's code: its hash and bytes, none for an asset contract.\<close>

type_synonym wasm_source = "string \<Rightarrow> rpc_failure + (string \<times> u8 list) option"

definition or_keep :: "spec_tables \<Rightarrow> spec_store_error + spec_tables \<Rightarrow> spec_tables" where
  "or_keep t r = (case r of Inr t' \<Rightarrow> t' | Inl _ \<Rightarrow> t)"

definition load ::
  "parse_env \<Rightarrow> wasm_source \<Rightarrow> string \<Rightarrow> int \<Rightarrow> spec_tables \<Rightarrow>
   (contract_spec option \<times> string option \<times> bool) \<times> spec_tables" where
  "load env wasm_of c ledger t =
     (case wasm_of c of
        Inl e \<Rightarrow> ((None, None, False), t)
      | Inr None \<Rightarrow> ((None, None, True), t)
      | Inr (Some (wasm_hash, wasm)) \<Rightarrow>
          (case from_wasm (pe_lossy env) (pe_read_iter env) wasm of
             None \<Rightarrow> ((None, Some wasm_hash, True), t)
           | Some parsed \<Rightarrow>
               (let section = (case spec_section_of wasm of Some b \<Rightarrow> hex b | None \<Rightarrow> []);
                    t1 = or_keep t (persist env c wasm_hash section (ps_spec parsed) (ps_complete parsed) t);
                    t2 = or_keep t1 (record_version env c wasm_hash section (ps_spec parsed) (ps_complete parsed) ledger t1)
                in ((Some (ps_spec parsed), Some wasm_hash, True), t2))))"

section \<open>The cache\<close>

datatype cached_spec = CSpec contract_spec | NoSpec | FetchError int

record cached =
  ca_spec :: cached_spec
  ca_hash :: "string option"

definition FETCH_ERROR_TTL :: int where
  "FETCH_ERROR_TTL = 60"

type_synonym 'c spec_cache = "(cached, 'c) lru_ops"

definition get_cached :: "'c spec_cache \<Rightarrow> string \<Rightarrow> 'c \<Rightarrow> contract_spec option \<times> 'c" where
  "get_cached ops c cache =
     (case lru_get ops c cache of
        (Some e, cache') \<Rightarrow> ((case ca_spec e of CSpec s \<Rightarrow> Some s | _ \<Rightarrow> None), cache')
      | (None, cache') \<Rightarrow> (None, cache'))"

text \<open>What a cached entry answers: a result, or nothing when it has to be fetched.\<close>

definition cached_answer :: "int \<Rightarrow> cached option \<Rightarrow> contract_spec option option" where
  "cached_answer now e =
     (case e of
        None \<Rightarrow> None
      | Some e \<Rightarrow> (case ca_spec e of
          CSpec s \<Rightarrow> Some (Some s)
        | NoSpec \<Rightarrow> Some None
        | FetchError t \<Rightarrow> if now - t < FETCH_ERROR_TTL then Some None else None))"

definition spec_get ::
  "'c spec_cache \<Rightarrow> parse_env \<Rightarrow> wasm_source \<Rightarrow> int \<Rightarrow> string \<Rightarrow> int \<Rightarrow> 'c \<Rightarrow> spec_tables \<Rightarrow>
   contract_spec option \<times> 'c \<times> spec_tables" where
  "spec_get ops env wasm_of now c ledger cache t =
     (case lru_get ops c cache of (e, cache1) \<Rightarrow>
        (case cached_answer now e of
           Some r \<Rightarrow> (r, cache1, t)
         | None \<Rightarrow>
             (case load env wasm_of c ledger t of ((spec, wasm_hash, permanent), t') \<Rightarrow>
                (let entry = (case spec of
                       Some s \<Rightarrow> CSpec s
                     | None \<Rightarrow> if permanent then NoSpec else FetchError now)
                 in (spec, lru_put ops c \<lparr>ca_spec = entry, ca_hash = wasm_hash\<rparr> cache1, t')))))"

definition note_wasm_hash ::
  "'c spec_cache \<Rightarrow> parse_env \<Rightarrow> wasm_source \<Rightarrow> int \<Rightarrow> string \<Rightarrow> string \<Rightarrow> int \<Rightarrow> 'c \<Rightarrow> spec_tables \<Rightarrow> 'c \<times> spec_tables" where
  "note_wasm_hash ops env wasm_of now c current_hash ledger cache t =
     (case lru_get ops c cache of
        (Some e, cache1) \<Rightarrow>
          if ca_hash e \<noteq> Some current_hash
          then snd (spec_get ops env wasm_of now c ledger (lru_pop ops c cache1) t)
          else (cache1, t)
      | (None, cache1) \<Rightarrow> (cache1, t))"

definition check_for_upgrade ::
  "'c spec_cache \<Rightarrow> parse_env \<Rightarrow> wasm_source \<Rightarrow> int \<Rightarrow> (string \<Rightarrow> rpc_failure + instance_entry option) \<Rightarrow> string \<Rightarrow> 'c \<Rightarrow>
   spec_tables \<Rightarrow> 'c \<times> spec_tables" where
  "check_for_upgrade ops env wasm_of now instance_of c cache t =
     (case instance_of c of
        Inr (Some i) \<Rightarrow>
          (case in_wasm_hash i of
             Some h \<Rightarrow> note_wasm_hash ops env wasm_of now c h (in_last_modified i) cache t
           | None \<Rightarrow> (cache, t))
      | _ \<Rightarrow> (cache, t))"

section \<open>The history of an interface\<close>

definition row_parses :: "parse_env \<Rightarrow> spec_version \<Rightarrow> bool" where
  "row_parses env r \<longleftrightarrow> (\<exists>b p. pe_unhex env (sv_section r) = Some b
     \<and> from_spec_xdr (pe_lossy env) (pe_read_iter env) b = Some p \<and> ps_spec p = sv_interface r)"

text \<open>What the row after \<open>prev\<close> has to say: number, predecessor, and the diff of the two interfaces.\<close>

definition follows :: "int \<Rightarrow> spec_version option \<Rightarrow> spec_version \<Rightarrow> bool" where
  "follows v prev r \<longleftrightarrow> sv_version r = v \<and> sv_previous r = map_option sv_wasm_hash prev
     \<and> sv_previous r \<noteq> Some (sv_wasm_hash r)
     \<and> sv_diff r = (case prev of
         Some p \<Rightarrow> if sv_complete r then Some (between (sv_interface p) (sv_interface r)) else None
       | None \<Rightarrow> None)
     \<and> sv_breaking r = (case sv_diff r of Some d \<Rightarrow> df_breaking d | None \<Rightarrow> False)"

fun version_chain :: "int \<Rightarrow> spec_version option \<Rightarrow> spec_version list \<Rightarrow> bool" where
  "version_chain v prev [] = True"
| "version_chain v prev (r # rs) \<longleftrightarrow> follows v prev r \<and> version_chain (v + 1) (Some r) rs"

abbreviation versions_of :: "string \<Rightarrow> spec_tables \<Rightarrow> spec_version list" where
  "versions_of c t \<equiv> filter (\<lambda>r. sv_contract_id r = c) (st_versions t)"

definition history_ok :: "parse_env \<Rightarrow> spec_tables \<Rightarrow> bool" where
  "history_ok env t \<longleftrightarrow> (\<forall>c. version_chain 1 None (versions_of c t)) \<and> list_all (row_parses env) (st_versions t)"

definition last_opt :: "'a option \<Rightarrow> 'a list \<Rightarrow> 'a option" where
  "last_opt d xs = (if xs = [] then d else Some (last xs))"

lemma last_opt_simps [simp]: "last_opt d [] = d" "last_opt d (xs @ [x]) = Some x" "last_opt d (x # xs) = last_opt (Some x) xs"
  by (simp_all add: last_opt_def)

lemma chain_snoc: "version_chain v prev (rs @ [r]) \<longleftrightarrow> version_chain v prev rs \<and> follows (v + int (length rs)) (last_opt prev rs) r"
  by (induction rs arbitrary: v prev) (auto simp: algebra_simps)

lemma chain_versions: "version_chain v prev rs \<Longrightarrow> r \<in> set rs \<Longrightarrow> sv_version r < v + int (length rs)"
  by (induction rs arbitrary: v prev) (fastforce simp: follows_def)+

lemma newest_of_chain:
  "version_chain v prev rs \<Longrightarrow>
   foldl (\<lambda>a r. case a of None \<Rightarrow> Some r | Some b \<Rightarrow> if sv_version b < sv_version r then Some r else Some b) None rs
     = last_opt None rs"
proof (induction rs rule: rev_induct)
  case (snoc r rs)
  then have rs: "version_chain v prev rs" "sv_version r = v + int (length rs)"
    by (simp_all add: chain_snoc follows_def)
  have "rs \<noteq> [] \<Longrightarrow> sv_version (last rs) < sv_version r"
    using chain_versions [OF rs(1)] rs(2) by simp
  with snoc.IH [OF rs(1)] show ?case by (simp add: last_opt_def)
qed simp

lemma follows_id [simp]: "follows v prev (r\<lparr>sv_id := i\<rparr>) = follows v prev r"
  by (cases prev) (simp_all add: follows_def)

lemma row_parses_id [simp]: "row_parses env (r\<lparr>sv_id := i\<rparr>) = row_parses env r"
  by (simp add: row_parses_def)

lemma history_newest: "history_ok env t \<Longrightarrow> newest c (st_versions t) = last_opt None (versions_of c t)"
  unfolding newest_def by (rule newest_of_chain [of 1 None]) (simp add: history_ok_def)

lemma history_add:
  assumes "history_ok env t" "row_parses env row"
    and "follows (1 + int (length (versions_of (sv_contract_id row) t))) (last_opt None (versions_of (sv_contract_id row) t)) row"
    and "add_version env row t = Inr t'"
  shows "history_ok env t' \<and> st_versions t' = st_versions t @ [row\<lparr>sv_id := st_next_id t\<rparr>]"
proof -
  let ?c = "sv_contract_id row" and ?row = "row\<lparr>sv_id := st_next_id t\<rparr>"
  have v: "sv_version row = 1 + int (length (versions_of ?c t))" using assms(3) by (simp add: follows_def)
  have "version_chain 1 None (versions_of ?c t)" using assms(1) by (simp add: history_ok_def)
  from chain_versions [OF this] v have "\<not> (\<exists>r \<in> set (st_versions t). sv_contract_id r = ?c \<and> sv_version r = sv_version row)"
    by fastforce
  with assms(4) have t': "t' = t\<lparr>st_versions := st_versions t @ [?row], st_next_id := st_next_id t + 1\<rparr>"
    by (auto simp: add_version_def split: if_splits)
  have "follows (1 + int (length (versions_of ?c t))) (last_opt None (versions_of ?c t)) ?row" "row_parses env ?row"
    using assms(2,3) by simp_all
  with assms(1) show ?thesis
    by (simp add: t' history_ok_def chain_snoc)
qed

lemma diff_against_parses: "row_parses env p \<Longrightarrow> diff_against env (sv_section p) s = Some (between (sv_interface p) s)"
  by (auto simp: row_parses_def diff_against_def)

lemma history_record:
  assumes ok: "history_ok env t"
    and parses: "\<exists>b p. pe_unhex env section = Some b \<and> from_spec_xdr (pe_lossy env) (pe_read_iter env) b = Some p \<and> ps_spec p = spec"
    and rec: "record_version env c h section spec complete ledger t = Inr t'"
  shows "history_ok env t' \<and> (\<exists>us. st_versions t' = st_versions t @ us) \<and> map_option sv_wasm_hash (newest c (st_versions t')) = Some h"
proof (cases "newest c (st_versions t)")
  case (Some p)
  then have p: "last_opt None (versions_of c t) = Some p" using history_newest [OF ok] by simp
  then have mem: "p \<in> set (versions_of c t)" by (metis last_in_set last_opt_def option.discI option.inject)
  have ver: "sv_version p + 1 = 1 + int (length (versions_of c t))"
  proof -
    obtain rs where rs: "versions_of c t = rs @ [p]"
      using p by (metis append_butlast_last_id last_opt_def option.discI option.inject)
    with ok have "version_chain 1 None (rs @ [p])" by (metis history_ok_def)
    then show ?thesis by (simp add: rs chain_snoc follows_def)
  qed
  show ?thesis
  proof (cases "sv_wasm_hash p = h")
    case True
    with Some rec ok show ?thesis by (simp add: record_version_def)
  next
    case False
    define row where "row = \<lparr>sv_id = 0, sv_contract_id = c, sv_version = sv_version p + 1, sv_wasm_hash = h,
      sv_previous = Some (sv_wasm_hash p), sv_interface = spec, sv_section = section,
      sv_diff = (if complete then diff_against env (sv_section p) spec else None),
      sv_breaking = (case if complete then diff_against env (sv_section p) spec else None of Some d \<Rightarrow> df_breaking d | None \<Rightarrow> False),
      sv_ledger = ledger, sv_complete = complete\<rparr>"
    have add: "add_version env row t = Inr t'"
      using rec Some False by (simp add: record_version_def row_def)
    have "row_parses env p" using ok mem by (auto simp: history_ok_def list_all_iff)
    then have fol: "follows (1 + int (length (versions_of (sv_contract_id row) t)))
        (last_opt None (versions_of (sv_contract_id row) t)) row"
      using p ver False by (simp add: row_def follows_def diff_against_parses)
    have par: "row_parses env row" using parses by (simp add: row_parses_def row_def)
    from history_add [OF ok par fol add] have t': "history_ok env t'" "st_versions t' = st_versions t @ [row\<lparr>sv_id := st_next_id t\<rparr>]"
      by simp_all
    then show ?thesis using history_newest [OF t'(1), of c] by (simp add: row_def)
  qed
next
  case None
  define row where "row = \<lparr>sv_id = 0, sv_contract_id = c, sv_version = 1, sv_wasm_hash = h,
      sv_previous = None, sv_interface = spec, sv_section = section, sv_diff = None, sv_breaking = False,
      sv_ledger = ledger, sv_complete = complete\<rparr>"
  have e: "versions_of c t = []" using None history_newest [OF ok, of c] by (simp add: last_opt_def split: if_splits)
  have add: "add_version env row t = Inr t'"
    using rec None by (simp add: record_version_def row_def)
  have fol: "follows (1 + int (length (versions_of (sv_contract_id row) t)))
        (last_opt None (versions_of (sv_contract_id row) t)) row"
    using e by (simp add: row_def follows_def)
  have par: "row_parses env row" using parses by (simp add: row_parses_def row_def)
  from history_add [OF ok par fol add] have t': "history_ok env t'" "st_versions t' = st_versions t @ [row\<lparr>sv_id := st_next_id t\<rparr>]"
    by simp_all
  then show ?thesis using history_newest [OF t'(1), of c] e by (simp add: row_def)
qed

lemma persist_versions [simp]: "persist env c h section spec complete t = Inr t' \<Longrightarrow> st_versions t' = st_versions t"
  by (auto simp: persist_def Let_def split: if_splits)

lemma history_cong: "st_versions t' = st_versions t \<Longrightarrow> history_ok env t' = history_ok env t"
  by (simp add: history_ok_def)

lemma or_keep_persist [simp]: "st_versions (or_keep t (persist env c h section spec complete t)) = st_versions t"
  by (cases "persist env c h section spec complete t") (simp_all add: or_keep_def)

lemma load_Some:
  assumes "wasm_of c = Inr (Some (h, w))" "from_wasm (pe_lossy env) (pe_read_iter env) w = Some p"
  obtains b t1 where "spec_section_of w = Some b" "from_spec_xdr (pe_lossy env) (pe_read_iter env) b = Some p"
    "st_versions t1 = st_versions t"
    "load env wasm_of c ledger t = ((Some (ps_spec p), Some h, True),
       or_keep t1 (record_version env c h (hex b) (ps_spec p) (ps_complete p) ledger t1))"
proof -
  obtain b where b: "spec_section_of w = Some b" "from_spec_xdr (pe_lossy env) (pe_read_iter env) b = Some p"
    using assms(2) by (auto simp: from_wasm_def split: option.splits)
  with assms show ?thesis
    by (intro that [OF b, of "or_keep t (persist env c h (hex b) (ps_spec p) (ps_complete p) t)"])
      (simp_all add: load_def Let_def)
qed

lemma load_history:
  assumes unhex: "\<And>b. pe_unhex env (hex b) = Some b" and ok: "history_ok env t" and l: "load env wasm_of c ledger t = (r, t')"
  shows "history_ok env t' \<and> (\<exists>us. st_versions t' = st_versions t @ us)"
proof (cases "\<exists>h w p. wasm_of c = Inr (Some (h, w)) \<and> from_wasm (pe_lossy env) (pe_read_iter env) w = Some p")
  case True
  then obtain h w p where w: "wasm_of c = Inr (Some (h, w))" "from_wasm (pe_lossy env) (pe_read_iter env) w = Some p" by blast
  obtain b t1 where b: "from_spec_xdr (pe_lossy env) (pe_read_iter env) b = Some p" and t1: "st_versions t1 = st_versions t"
    and l': "load env wasm_of c ledger t = ((Some (ps_spec p), Some h, True),
       or_keep t1 (record_version env c h (hex b) (ps_spec p) (ps_complete p) ledger t1))"
    by (rule load_Some [of wasm_of c h w env p t ledger]) (use w in blast)+
  have parses: "\<exists>b' p'. pe_unhex env (hex b) = Some b' \<and> from_spec_xdr (pe_lossy env) (pe_read_iter env) b' = Some p' \<and> ps_spec p' = ps_spec p"
    using unhex b by blast
  have ok1: "history_ok env t1" using ok history_cong [OF t1] by simp
  show ?thesis
  proof (cases "record_version env c h (hex b) (ps_spec p) (ps_complete p) ledger t1")
    case (Inl e)
    with l l' ok1 t1 show ?thesis by (simp add: or_keep_def)
  next
    case (Inr t2)
    from history_record [OF ok1 parses this] l l' Inr t1 show ?thesis by (simp add: or_keep_def)
  qed
next
  case False
  with l have "t' = t" by (auto simp: load_def split: sum.splits option.splits)
  with ok show ?thesis by simp
qed

lemma load_records:
  assumes unhex: "\<And>b. pe_unhex env (hex b) = Some b" and ok: "history_ok env t"
    and w: "wasm_of c = Inr (Some (h, w))" "from_wasm (pe_lossy env) (pe_read_iter env) w = Some p"
    and acc: "pe_accepts env (ps_spec p)" and l: "load env wasm_of c ledger t = (r, t')"
  shows "r = (Some (ps_spec p), Some h, True) \<and> history_ok env t' \<and> map_option sv_wasm_hash (newest c (st_versions t')) = Some h"
proof -
  obtain b t1 where b: "from_spec_xdr (pe_lossy env) (pe_read_iter env) b = Some p" and t1: "st_versions t1 = st_versions t"
    and l': "load env wasm_of c ledger t = ((Some (ps_spec p), Some h, True),
       or_keep t1 (record_version env c h (hex b) (ps_spec p) (ps_complete p) ledger t1))"
    by (rule load_Some [of wasm_of c h w env p t ledger]) (use w in blast)+
  have parses: "\<exists>b' p'. pe_unhex env (hex b) = Some b' \<and> from_spec_xdr (pe_lossy env) (pe_read_iter env) b' = Some p' \<and> ps_spec p' = ps_spec p"
    using unhex b by blast
  have ok1: "history_ok env t1" using ok history_cong [OF t1] by simp
  have "record_version env c h (hex b) (ps_spec p) (ps_complete p) ledger t1 \<noteq> Inl e" for e
    using acc by (auto simp: record_version_def add_version_def Let_def split: option.splits if_splits)
  then obtain t2 where r: "record_version env c h (hex b) (ps_spec p) (ps_complete p) ledger t1 = Inr t2"
    by (cases "record_version env c h (hex b) (ps_spec p) (ps_complete p) ledger t1") auto
  from history_record [OF ok1 parses this] l l' r show ?thesis by (simp add: or_keep_def)
qed

lemma spec_get_history:
  assumes "\<And>b. pe_unhex env (hex b) = Some b" "history_ok env t"
    and "spec_get ops env wasm_of now c ledger cache t = (s, cache', t')"
  shows "history_ok env t' \<and> (\<exists>us. st_versions t' = st_versions t @ us)"
proof -
  have "t' = t \<or> (\<exists>r. load env wasm_of c ledger t = (r, t'))"
    using assms(3) by (auto simp: spec_get_def Let_def split: prod.splits option.splits)
  moreover have "history_ok env t' \<and> (\<exists>us. st_versions t' = st_versions t @ us)" if "load env wasm_of c ledger t = (r, t')" for r
    by (rule load_history [of env t wasm_of c ledger r t']) (use assms(1,2) that in blast)+
  ultimately show ?thesis using assms(2) by auto
qed

section \<open>Properties of the interface history\<close>

text \<open>A lower-case hex decoder, to instantiate the one of the library.\<close>

definition nibble :: "char \<Rightarrow> nat option" where
  "nibble c = (let n = of_char c in
     if 48 \<le> n \<and> n \<le> 57 then Some (n - 48) else if 97 \<le> n \<and> n \<le> 102 then Some (n - 87) else None)"

fun unhex :: "string \<Rightarrow> u8 list option" where
  "unhex [] = Some []"
| "unhex [c] = None"
| "unhex (c # d # cs) = (case (nibble c, nibble d, unhex cs) of
     (Some x, Some y, Some bs) \<Rightarrow> Some (of_nat (16 * x + y) # bs) | _ \<Rightarrow> None)"

lemma nibble_hex_digit: "d < 16 \<Longrightarrow> nibble (hex_digit d) = Some d"
  by (simp add: nibble_def hex_digit_def of_char_of Let_def)

lemma unhex_hex: "unhex (hex bs) = Some bs"
proof (induction bs)
  case (Cons b bs)
  have "unat b div 16 < 16" using unsigned_less [where 'a = nat, of b] by auto
  then have "nibble (hex_digit (unat b div 16)) = Some (unat b div 16)" "nibble (hex_digit (unat b mod 16)) = Some (unat b mod 16)"
    by (simp_all add: nibble_hex_digit)
  moreover have "(of_nat (16 * (unat b div 16) + unat b mod 16) :: u8) = b" by (simp only: mult_div_mod_eq) simp
  ultimately show ?case using Cons by simp
qed simp

definition demo_env :: parse_env where
  "demo_env = \<lparr>pe_lossy = text_of_bytes, pe_read_iter = (\<lambda>b. [Inr (UdtStructV0 b [])]), pe_unhex = unhex, pe_accepts = (\<lambda>s. True)\<rparr>"

definition demo_wasm :: "u8 list" where
  "demo_wasm = wasm_module [1,0,0,0] [Custom (bytes_of_text ''contractspecv0'') [65]]"

lemma demo_section: "spec_section_of demo_wasm = Some [65]"
  by code_simp

lemma demo_parses: "\<exists>p. from_wasm (pe_lossy demo_env) (pe_read_iter demo_env) demo_wasm = Some p"
  by (simp add: from_wasm_def demo_section demo_env_def from_spec_xdr_eq is_limit_error_def Let_def)

definition no_tables :: spec_tables where
  "no_tables = \<lparr>st_specs = [], st_versions = [], st_next_id = 1\<rparr>"

text \<open>
  Claim C31. Looking up any contract only ever appends to the version table and keeps every contract's history well
  formed: versions count up from one without gaps, each names the executable before it, no version repeats
  its predecessor's executable, and a complete version carries exactly the diff of the two interfaces, with
  the breaking flag of that diff.
\<close>
theorem interface_history:
  assumes "\<And>b. pe_unhex env (hex b) = Some b" and "history_ok env t"
    and "spec_get ops env wasm_of now c ledger cache t = (s, cache', t')"
  shows "history_ok env t' \<and> (\<exists>us. st_versions t' = st_versions t @ us)"
  using spec_get_history [of env t ops wasm_of now c ledger cache s cache' t'] assms by blast

theorem interface_history_witness:
  "history_ok demo_env (snd (snd (spec_get (lru_list 4) demo_env (\<lambda>c. Inr (Some (''h1'', demo_wasm))) 0 ''C'' 7 [] no_tables)))"
proof -
  have "history_ok demo_env no_tables" by (simp add: history_ok_def no_tables_def)
  moreover have "pe_unhex demo_env (hex b) = Some b" for b by (simp add: demo_env_def unhex_hex)
  ultimately show ?thesis
    using interface_history [of demo_env no_tables "lru_list 4" "\<lambda>c. Inr (Some (''h1'', demo_wasm))" 0 "''C''" 7 "[]"]
    by (metis prod.collapse)
qed



end
