(* ===== verification/Snapshots.thy ===== *)
theory Snapshots
  imports Store Spec_Cache
begin

text \<open>
  State indexing: which storage keys to watch (\<^verbatim>\<open>keys.rs\<close>) and the change-detected snapshots of instances and
  data entries (\<^verbatim>\<open>state.rs\<close>), both of \<^verbatim>\<open>crates/lumenqraph-indexer/src\<close>.

  The strkey parser, the XDR writer and SHA-256 are arguments. A hash map is visited in some order: the loops
  take its entries in that order.
\<close>

section \<open>Keys named by events\<close>

record key_template =
  kt_symbol :: string
  kt_event_names :: "string list"
  kt_param_indices :: "nat list"
  kt_durability :: durability
  kt_label :: "string option"

definition HOLDER_EVENTS :: "string list" where
  "HOLDER_EVENTS = [''transfer'', ''mint'', ''burn'', ''clawback'']"

definition is_address :: "(string \<Rightarrow> sc_address option) \<Rightarrow> string \<Rightarrow> bool" where
  "is_address addr s \<longleftrightarrow> (starts_with ''G'' s \<or> starts_with ''C'' s) \<and> addr s \<noteq> None"

fun extract_addresses :: "(string \<Rightarrow> sc_address option) \<Rightarrow> json \<Rightarrow> string list" where
  "extract_addresses addr (Str s) = (if is_address addr s then [s] else [])"
| "extract_addresses addr (Array vs) = concat (map (extract_addresses addr) vs)"
| "extract_addresses addr _ = []"

fun param_loop :: "(string \<Rightarrow> sc_address option) \<Rightarrow> json list \<Rightarrow> nat list \<Rightarrow> string list list \<Rightarrow> string list list" where
  "param_loop addr topics [] params = params"
| "param_loop addr topics (idx # rest) params =
     (if length topics \<le> idx then []
      else
        (let addresses = extract_addresses addr (topics ! idx)
         in if addresses = [] then []
            else param_loop addr topics rest (concat (map (\<lambda>base. map (\<lambda>a. base @ [a]) addresses) params))))"

definition keys_from_event :: "(string \<Rightarrow> sc_address option) \<Rightarrow> key_template \<Rightarrow> new_event \<Rightarrow> string list list" where
  "keys_from_event addr t e =
     (case ne_event_name e of
        None \<Rightarrow> []
      | Some name \<Rightarrow>
          if name \<notin> set (kt_event_names t) then []
          else param_loop addr (ne_decoded_topics e) (kt_param_indices t) [[]])"

datatype key_error = ParamCountMismatch | SymbolTooLong | InvalidAddress string

text \<open>A symbol holds at most 32 bytes.\<close>

definition key_symbol :: "string \<Rightarrow> key_error + scval" where
  "key_symbol s = (if length s \<le> 32 then Inr (ScSymbol (bytes_of_text s)) else Inl SymbolTooLong)"

definition address_val :: "(string \<Rightarrow> sc_address option) \<Rightarrow> string \<Rightarrow> key_error + scval" where
  "address_val addr s = (case addr s of Some a \<Rightarrow> Inr (ScAddress a) | None \<Rightarrow> Inl (InvalidAddress s))"

definition build_key :: "(string \<Rightarrow> sc_address option) \<Rightarrow> key_template \<Rightarrow> string list \<Rightarrow> key_error + scval" where
  "build_key addr t params =
     (if length params \<noteq> length (kt_param_indices t) then Inl ParamCountMismatch
      else bind_res (key_symbol (kt_symbol t)) (\<lambda>sym.
           bind_res (map_res (address_val addr) params) (\<lambda>as. Inr (ScVec (Some (sym # as))))))"

definition balance_key :: "(string \<Rightarrow> sc_address option) \<Rightarrow> string \<Rightarrow> string \<Rightarrow> key_error + scval" where
  "balance_key addr symbol address =
     bind_res (address_val addr address) (\<lambda>a. bind_res (key_symbol symbol) (\<lambda>sym. Inr (ScVec (Some [sym, a]))))"

definition holders_in_event :: "(string \<Rightarrow> sc_address option) \<Rightarrow> new_event \<Rightarrow> string list" where
  "holders_in_event addr e =
     (if \<not> (case ne_event_name e of Some n \<Rightarrow> n \<in> set HOLDER_EVENTS | None \<Rightarrow> False) then []
      else filter (is_address addr) (List.map_filter (\<lambda>t. as_addr (Some t)) (ne_decoded_topics e)))"

definition parse_durability :: "string \<Rightarrow> durability option" where
  "parse_durability s =
     (let s = to_ascii_lowercase (trim s)
      in if s = ''persistent'' then Some Persistent else if s = ''temporary'' then Some Temporary else None)"

section \<open>Tables\<close>

record state_row =
  sw_contract :: string
  sw_ledger :: int
  sw_storage :: json

record data_row =
  dw_contract :: string
  dw_key_hash :: string
  dw_key :: json
  dw_key_xdr :: string
  dw_durability :: string
  dw_ledger :: int
  dw_value :: json
  dw_label :: "string option"

record snap_env =
  sn_accepts :: "json \<Rightarrow> bool"
  sn_addr_str :: "sc_address \<Rightarrow> string"
  sn_xdr64 :: "scval \<Rightarrow> string option"
  sn_sha256 :: "string \<Rightarrow> string"

datatype snapshot_error = SnapRpc rpc_failure | SnapJson | SnapKey

text \<open>\<^verbatim>\<open>SELECT max(ledger) .. WHERE\<close>.\<close>

definition max_where :: "('r \<Rightarrow> int) \<Rightarrow> ('r \<Rightarrow> bool) \<Rightarrow> 'r list \<Rightarrow> int option" where
  "max_where ledger p rows = (case map ledger (filter p rows) of [] \<Rightarrow> None | l # ls \<Rightarrow> Some (fold max ls l))"

definition state_key :: "state_row \<Rightarrow> string \<times> int" where
  "state_key r = (sw_contract r, sw_ledger r)"

definition data_key :: "data_row \<Rightarrow> string \<times> string \<times> int" where
  "data_key r = (dw_contract r, dw_key_hash r, dw_ledger r)"

definition write_state :: "snap_env \<Rightarrow> string \<Rightarrow> instance_entry \<Rightarrow> state_row list \<Rightarrow> snapshot_error + state_row list" where
  "write_state env c inst rows =
     (if max_where sw_ledger (\<lambda>r. sw_contract r = c) rows = Some (in_last_modified inst) then Inr rows
      else
        (let storage = decode_scval (sn_addr_str env) (in_storage inst)
         in if \<not> sn_accepts env storage then Inl SnapJson
            else Inr (insert_new state_key [\<lparr>sw_contract = c, sw_ledger = in_last_modified inst, sw_storage = storage\<rparr>] rows)))"

fun durability_text :: "durability \<Rightarrow> string" where
  "durability_text Persistent = ''persistent''"
| "durability_text Temporary = ''temporary''"

definition try_write_snapshot_data ::
  "snap_env \<Rightarrow> string \<Rightarrow> scval \<Rightarrow> durability \<Rightarrow> string option \<Rightarrow> data_entry \<Rightarrow> data_row list \<Rightarrow> snapshot_error + data_row list" where
  "try_write_snapshot_data env c key dur label entry rows =
     (case sn_xdr64 env key of
        None \<Rightarrow> Inl SnapKey
      | Some key_xdr \<Rightarrow>
          (let key_hash = sn_sha256 env key_xdr
           in if max_where dw_ledger (\<lambda>r. dw_contract r = c \<and> dw_key_hash r = key_hash) rows = Some (dn_last_modified entry)
              then Inr rows
              else
                (let k = decode_scval (sn_addr_str env) key; v = decode_scval (sn_addr_str env) (dn_val entry)
                 in if \<not> (sn_accepts env k \<and> sn_accepts env v) then Inl SnapJson
                    else Inr (insert_new data_key
                      [\<lparr>dw_contract = c, dw_key_hash = key_hash, dw_key = k, dw_key_xdr = key_xdr,
                        dw_durability = durability_text dur, dw_ledger = dn_last_modified entry, dw_value = v, dw_label = label\<rparr>] rows))))"

section \<open>Snapshots of data entries\<close>

type_synonym snapshot_key = "string \<times> scval \<times> durability \<times> string option"

text \<open>\<open>data_of\<close> and \<open>batch_of\<close> are the single and the batched read of the RPC client.\<close>

type_synonym data_source = "string \<Rightarrow> scval \<Rightarrow> durability \<Rightarrow> rpc_failure + data_entry option"
type_synonym batch_source = "(string \<times> scval \<times> durability) list \<Rightarrow> rpc_failure + data_entry option list"

definition try_snapshot_data ::
  "snap_env \<Rightarrow> data_source \<Rightarrow> snapshot_key \<Rightarrow> data_row list \<Rightarrow> snapshot_error + data_row list" where
  "try_snapshot_data env data_of = (\<lambda>(c, key, dur, label) rows.
     case data_of c key dur of
       Inl e \<Rightarrow> Inl (SnapRpc e)
     | Inr None \<Rightarrow> Inr rows
     | Inr (Some entry) \<Rightarrow> try_write_snapshot_data env c key dur label entry rows)"

definition keep_rows :: "'r list \<Rightarrow> snapshot_error + 'r list \<Rightarrow> 'r list" where
  "keep_rows rows r = (case r of Inr rows' \<Rightarrow> rows' | Inl _ \<Rightarrow> rows)"

definition snapshot_data :: "snap_env \<Rightarrow> data_source \<Rightarrow> snapshot_key \<Rightarrow> data_row list \<Rightarrow> data_row list" where
  "snapshot_data env data_of k rows = keep_rows rows (try_snapshot_data env data_of k rows)"

definition MAX_BATCH_KEYS :: nat where
  "MAX_BATCH_KEYS = 100"

definition write_result :: "snap_env \<Rightarrow> snapshot_key \<times> data_entry option \<Rightarrow> data_row list \<Rightarrow> data_row list" where
  "write_result env = (\<lambda>((c, key, dur, label), entry) rows.
     case entry of
       None \<Rightarrow> rows
     | Some entry \<Rightarrow> keep_rows rows (try_write_snapshot_data env c key dur label entry rows))"

definition snapshot_chunk :: "snap_env \<Rightarrow> batch_source \<Rightarrow> snapshot_key list \<Rightarrow> data_row list \<Rightarrow> data_row list" where
  "snapshot_chunk env batch_of chunk rows =
     (case batch_of (map (\<lambda>(c, key, dur, _). (c, key, dur)) chunk) of
        Inl _ \<Rightarrow> rows
      | Inr results \<Rightarrow> fold (write_result env) (zip chunk results) rows)"

definition snapshot_keys :: "snap_env \<Rightarrow> batch_source \<Rightarrow> snapshot_key list \<Rightarrow> data_row list \<Rightarrow> data_row list" where
  "snapshot_keys env batch_of batch rows =
     (if batch = [] then rows else fold (snapshot_chunk env batch_of) (chunks_of MAX_BATCH_KEYS batch) rows)"

definition watched :: "string list \<Rightarrow> string \<Rightarrow> bool" where
  "watched contract_ids c \<longleftrightarrow> contract_ids = [] \<or> c \<in> set contract_ids"

definition ok_opt :: "'e + 'a \<Rightarrow> 'a option" where
  "ok_opt r = (case r of Inr x \<Rightarrow> Some x | Inl _ \<Rightarrow> None)"

definition balance_keys ::
  "(string \<Rightarrow> sc_address option) \<Rightarrow> (string \<times> string list) list \<Rightarrow> string list \<Rightarrow> string \<Rightarrow> durability \<Rightarrow> snapshot_key list" where
  "balance_keys addr holders contract_ids symbol dur =
     concat (map (\<lambda>(c, hs). if \<not> watched contract_ids c then []
       else List.map_filter (\<lambda>h. map_option (\<lambda>k. (c, k, dur, Some ''balance'')) (ok_opt (balance_key addr symbol h))) hs) holders)"

definition snapshot_balances_batch ::
  "snap_env \<Rightarrow> batch_source \<Rightarrow> (string \<Rightarrow> sc_address option) \<Rightarrow> (string \<times> string list) list \<Rightarrow> string list \<Rightarrow> string \<Rightarrow>
   durability \<Rightarrow> data_row list \<Rightarrow> data_row list" where
  "snapshot_balances_batch env batch_of addr holders contract_ids symbol dur rows =
     snapshot_keys env batch_of (balance_keys addr holders contract_ids symbol dur) rows"

definition template_keys ::
  "(string \<Rightarrow> sc_address option) \<Rightarrow> (string \<times> (nat \<times> string list) list) list \<Rightarrow> string list \<Rightarrow> key_template list \<Rightarrow> snapshot_key list" where
  "template_keys addr by_contract contract_ids templates =
     concat (map (\<lambda>(c, entries). if \<not> watched contract_ids c then []
       else List.map_filter (\<lambda>(idx, params). case nth_opt templates idx of
              None \<Rightarrow> None
            | Some t \<Rightarrow> map_option (\<lambda>k. (c, k, kt_durability t, kt_label t)) (ok_opt (build_key addr t params))) entries) by_contract)"

definition snapshot_template_keys_batch ::
  "snap_env \<Rightarrow> batch_source \<Rightarrow> (string \<Rightarrow> sc_address option) \<Rightarrow> (string \<times> (nat \<times> string list) list) list \<Rightarrow> string list \<Rightarrow>
   key_template list \<Rightarrow> data_row list \<Rightarrow> data_row list" where
  "snapshot_template_keys_batch env batch_of addr by_contract contract_ids templates rows =
     snapshot_keys env batch_of (template_keys addr by_contract contract_ids templates) rows"

section \<open>Snapshots of instances\<close>

record 'c snap_state =
  ss_cache :: 'c
  ss_specs :: spec_tables
  ss_states :: "state_row list"

text \<open>The arguments of the interface cache, in one record.\<close>

record 'c spec_env =
  sp_ops :: "(cached, 'c) lru_ops"
  sp_parse :: parse_env
  sp_wasm_of :: wasm_source
  sp_now :: int

definition note_instance :: "'c spec_env \<Rightarrow> string \<Rightarrow> instance_entry \<Rightarrow> 'c snap_state \<Rightarrow> 'c snap_state" where
  "note_instance sp c inst st =
     (case in_wasm_hash inst of
        None \<Rightarrow> st
      | Some h \<Rightarrow>
          (case note_wasm_hash (sp_ops sp) (sp_parse sp) (sp_wasm_of sp) (sp_now sp) c h (in_last_modified inst) (ss_cache st) (ss_specs st) of
             (cache, specs) \<Rightarrow> st\<lparr>ss_cache := cache, ss_specs := specs\<rparr>))"

definition snapshot_found ::
  "'c spec_env \<Rightarrow> snap_env \<Rightarrow> string \<Rightarrow> instance_entry \<Rightarrow> 'c snap_state \<Rightarrow> (snapshot_error + unit) \<times> 'c snap_state" where
  "snapshot_found sp env c inst st =
     (let st = note_instance sp c inst st
      in case write_state env c inst (ss_states st) of
           Inl e \<Rightarrow> (Inl e, st)
         | Inr rows \<Rightarrow> (Inr (), st\<lparr>ss_states := rows\<rparr>))"

definition try_snapshot ::
  "'c spec_env \<Rightarrow> snap_env \<Rightarrow> (string \<Rightarrow> rpc_failure + instance_entry option) \<Rightarrow> string \<Rightarrow> 'c snap_state \<Rightarrow>
   (snapshot_error + unit) \<times> 'c snap_state" where
  "try_snapshot sp env instance_of c st =
     (case instance_of c of
        Inl e \<Rightarrow> (Inl (SnapRpc e), st)
      | Inr None \<Rightarrow> (Inr (), st)
      | Inr (Some inst) \<Rightarrow> snapshot_found sp env c inst st)"

definition snapshot ::
  "'c spec_env \<Rightarrow> snap_env \<Rightarrow> (string \<Rightarrow> rpc_failure + instance_entry option) \<Rightarrow> string \<Rightarrow> 'c snap_state \<Rightarrow> 'c snap_state" where
  "snapshot sp env instance_of c st = snd (try_snapshot sp env instance_of c st)"

fun instance_loop ::
  "'c spec_env \<Rightarrow> snap_env \<Rightarrow> (string \<times> instance_entry option) list \<Rightarrow> 'c snap_state \<Rightarrow> (snapshot_error + unit) \<times> 'c snap_state" where
  "instance_loop sp env [] st = (Inr (), st)"
| "instance_loop sp env ((c, None) # rest) st = instance_loop sp env rest st"
| "instance_loop sp env ((c, Some inst) # rest) st =
     (case snapshot_found sp env c inst st of
        (Inl e, st) \<Rightarrow> (Inl e, st)
      | (Inr _, st) \<Rightarrow> instance_loop sp env rest st)"

type_synonym instances_source = "string list \<Rightarrow> rpc_failure + instance_entry option list"

definition try_snapshot_instances_batch ::
  "'c spec_env \<Rightarrow> snap_env \<Rightarrow> instances_source \<Rightarrow> string list \<Rightarrow> 'c snap_state \<Rightarrow> (snapshot_error + unit) \<times> 'c snap_state" where
  "try_snapshot_instances_batch sp env instances_of cs st =
     (case instances_of cs of
        Inl e \<Rightarrow> (Inl (SnapRpc e), st)
      | Inr instances \<Rightarrow> instance_loop sp env (zip cs instances) st)"

definition MAX_BATCH_INSTANCES :: nat where
  "MAX_BATCH_INSTANCES = 50"

definition snapshot_instances_batch ::
  "'c spec_env \<Rightarrow> snap_env \<Rightarrow> instances_source \<Rightarrow> string list \<Rightarrow> 'c snap_state \<Rightarrow> 'c snap_state" where
  "snapshot_instances_batch sp env instances_of cs st =
     fold (\<lambda>chunk st. snd (try_snapshot_instances_batch sp env instances_of chunk st)) (chunks_of MAX_BATCH_INSTANCES cs) st"

section \<open>Change detection\<close>

lemma fold_max_mem: "fold max ls (l :: int) \<in> set (l # ls)"
proof (induction ls arbitrary: l)
  case (Cons a ls)
  from Cons [of "max a l"] show ?case by (auto simp: max_def split: if_splits)
qed simp

lemma max_where_hit:
  assumes "max_where ledger p rows = Some l"
  shows "\<exists>r \<in> set rows. p r \<and> ledger r = l"
proof -
  obtain x xs where "map ledger (filter p rows) = x # xs" "l = fold max xs x"
    using assms by (auto simp: max_where_def split: list.splits)
  with fold_max_mem [of xs x] have "l \<in> set (map ledger (filter p rows))" by metis
  then show ?thesis by auto
qed

text \<open>
  Change detection does not change what is stored: asking for the newest ledger first and skipping the write
  when it is the entry's gives exactly the insert-unless-present on the row's key, and a value the database
  refuses is an error only when it would have been written.
\<close>
theorem change_detection_transparent:
  "write_state env c inst rows =
     (let row = \<lparr>sw_contract = c, sw_ledger = in_last_modified inst, sw_storage = decode_scval (sn_addr_str env) (in_storage inst)\<rparr>
      in if sn_accepts env (sw_storage row) then Inr (insert_new state_key [row] rows)
         else if max_where sw_ledger (\<lambda>r. sw_contract r = c) rows = Some (in_last_modified inst) then Inr rows
         else Inl SnapJson)
   \<and> try_write_snapshot_data env c key dur label entry rows' =
     (case sn_xdr64 env key of
        None \<Rightarrow> Inl SnapKey
      | Some x \<Rightarrow>
          (let row = \<lparr>dw_contract = c, dw_key_hash = sn_sha256 env x, dw_key = decode_scval (sn_addr_str env) key, dw_key_xdr = x,
                 dw_durability = durability_text dur, dw_ledger = dn_last_modified entry,
                 dw_value = decode_scval (sn_addr_str env) (dn_val entry), dw_label = label\<rparr>
           in if sn_accepts env (dw_key row) \<and> sn_accepts env (dw_value row) then Inr (insert_new data_key [row] rows')
              else if max_where dw_ledger (\<lambda>r. dw_contract r = c \<and> dw_key_hash r = sn_sha256 env x) rows' = Some (dn_last_modified entry)
              then Inr rows' else Inl SnapJson))"
proof -
  have "max_where sw_ledger (\<lambda>r. sw_contract r = c) rows = Some l \<Longrightarrow> (c, l) \<in> state_key ` set rows" for l
    by (drule max_where_hit) (force simp: state_key_def)
  moreover have "max_where dw_ledger (\<lambda>r. dw_contract r = c \<and> dw_key_hash r = h) rows' = Some l \<Longrightarrow> (c, h, l) \<in> data_key ` set rows'" for h l
    by (drule max_where_hit) (force simp: data_key_def)
  ultimately show ?thesis
    by (auto simp: write_state_def try_write_snapshot_data_def Let_def state_key_def data_key_def split: option.splits)
qed

section \<open>Batches\<close>

lemma chunks_split: "0 < n \<Longrightarrow> ch \<in> set (chunks_of n xs) \<Longrightarrow> \<exists>pre post. xs = pre @ ch @ post"
  by (metis concat_chunks concat_append concat.simps(2) split_list)

lemma map_res_append: "map_res f (xs @ ys) = Inr zs \<longleftrightarrow> (\<exists>us vs. map_res f xs = Inr us \<and> map_res f ys = Inr vs \<and> zs = us @ vs)"
  by (induction xs arbitrary: zs) auto

abbreviation plain_key :: "snapshot_key \<Rightarrow> string \<times> scval \<times> durability" where
  "plain_key \<equiv> \<lambda>(c, key, dur, _). (c, key, dur)"

lemma snapshot_chunk_single:
  assumes sv: "serves xe ledger entries" and ks: "map_res (encode_key xe) (map plain_key chunk) = Inr ks" "distinct ks"
  shows "snapshot_chunk env (get_contract_data_batch xe entries) chunk rows
    = fold (snapshot_data env (get_contract_data xe entries)) chunk rows"
proof -
  let ?single = "\<lambda>(c, key, dur). get_contract_data xe entries c key dur"
  have "map_res ?single (map plain_key chunk) = Inr (map (\<lambda>k. Option.bind (ledger k) (data_of_item xe)) ks)"
    using single_data [OF sv] by (intro map_res_map [OF _ ks(1)]) auto
  moreover from this have batch: "get_contract_data_batch xe entries (map plain_key chunk) = Inr (map (\<lambda>k. Option.bind (ledger k) (data_of_item xe)) ks)"
    using batch_reads [OF sv ks] by simp
  moreover have "fold (write_result env) (zip ch rs) rows = fold (snapshot_data env (get_contract_data xe entries)) ch rows"
    if "map_res ?single (map plain_key ch) = Inr rs" for ch rs
    using that
  proof (induction ch arbitrary: rs rows)
    case (Cons k ch)
    then show ?case
      by (cases k) (auto simp: write_result_def snapshot_data_def try_snapshot_data_def keep_rows_def split: option.splits)
  qed simp
  ultimately show ?thesis by (simp add: snapshot_chunk_def)
qed

text \<open>
  Batching does not change what is stored: snapshotting any list of keys in chunks of a hundred leaves the
  same rows as snapshotting them one by one, for the balance keys and the template keys alike, when the keys encode,
  are pairwise different and the server answers as documented.
\<close>
theorem batching_transparent:
  assumes sv: "serves xe ledger entries" and ks: "map_res (encode_key xe) (map plain_key batch) = Inr ks" "distinct ks"
  shows "snapshot_keys env (get_contract_data_batch xe entries) batch rows
    = fold (snapshot_data env (get_contract_data xe entries)) batch rows"
proof -
  let ?single = "snapshot_data env (get_contract_data xe entries)"
  have "snapshot_chunk env (get_contract_data_batch xe entries) ch = fold ?single ch"
    if ch: "ch \<in> set (chunks_of MAX_BATCH_KEYS batch)" for ch
  proof -
    obtain pre post where "batch = pre @ ch @ post"
      using ch chunks_split [of MAX_BATCH_KEYS ch batch] by (auto simp: MAX_BATCH_KEYS_def)
    with ks obtain js where "map_res (encode_key xe) (map plain_key ch) = Inr js" "distinct js"
      by (auto simp: map_res_append)
    from snapshot_chunk_single [OF sv this] show ?thesis by blast
  qed
  then have "fold (snapshot_chunk env (get_contract_data_batch xe entries)) (chunks_of MAX_BATCH_KEYS batch) rows
      = fold (fold ?single) (chunks_of MAX_BATCH_KEYS batch) rows"
    by (intro fold_cong) simp_all
  then show ?thesis
    by (simp add: snapshot_keys_def fold_chunks MAX_BATCH_KEYS_def)
qed

section \<open>Template keys\<close>

lemma append_fun_simps: "(@) (a @ [x]) = (\<lambda>xs. a @ x # xs)" "(@) [] = (\<lambda>xs. xs)"
  by (simp_all add: fun_eq_iff)

lemma param_loop_product:
  "list_all (\<lambda>i. i < length topics) is \<Longrightarrow>
   param_loop addr topics is params =
     concat (map (\<lambda>base. map (\<lambda>p. base @ p) (product_lists (map (\<lambda>i. extract_addresses addr (topics ! i)) is))) params)"
proof (induction "is" arbitrary: params)
  case (Cons i "is")
  have "concat (map (\<lambda>base. map ((@) base) (product_lists (xs # xss))) ps)
      = concat (map (\<lambda>base. map ((@) base) (product_lists xss)) (concat (map (\<lambda>base. map (\<lambda>a. base @ [a]) xs) ps)))"
    for xs :: "string list" and xss ps
    by (induction ps) (simp_all add: map_concat comp_def append_fun_simps)
  with Cons show ?case by (simp add: Let_def concat_eq_Nil_conv)
qed (simp add: concat_map_singleton)

lemma extract_addresses_valid: "a \<in> set (extract_addresses addr v) \<Longrightarrow> addr a \<noteq> None"
  by (induction addr v rule: extract_addresses.induct) (auto simp: is_address_def split: if_splits)

lemma in_product_lists: "xs \<in> set (product_lists xss) \<longleftrightarrow> list_all2 (\<lambda>x ys. x \<in> set ys) xs xss"
  by (simp add: product_lists_set)

text \<open>
  A template's keys are all combinations of the addresses its topics hold, in order, and none when the event has
  another name or too few topics. Every key builds when the template's symbol fits.
\<close>
theorem template_keys_complete:
  "keys_from_event addr t e =
     (case ne_event_name e of
        Some n \<Rightarrow>
          if n \<in> set (kt_event_names t) \<and> list_all (\<lambda>i. i < length (ne_decoded_topics e)) (kt_param_indices t)
          then product_lists (map (\<lambda>i. extract_addresses addr (ne_decoded_topics e ! i)) (kt_param_indices t))
          else []
      | None \<Rightarrow> [])
   \<and> (length (kt_symbol t) \<le> 32 \<longrightarrow> (\<forall>ps \<in> set (keys_from_event addr t e). \<exists>key. build_key addr t ps = Inr key))"
proof -
  have out: "param_loop addr topics is params = []" if "\<not> list_all (\<lambda>i. i < length topics) is" for topics "is" params
    using that by (induction "is" arbitrary: params) (auto simp: Let_def)
  have keys: "keys_from_event addr t e =
     (case ne_event_name e of
        Some n \<Rightarrow>
          if n \<in> set (kt_event_names t) \<and> list_all (\<lambda>i. i < length (ne_decoded_topics e)) (kt_param_indices t)
          then product_lists (map (\<lambda>i. extract_addresses addr (ne_decoded_topics e ! i)) (kt_param_indices t))
          else []
      | None \<Rightarrow> [])"
    by (auto simp: keys_from_event_def param_loop_product out append_fun_simps split: option.split)
  have "\<exists>key. build_key addr t ps = Inr key" if "length (kt_symbol t) \<le> 32" "ps \<in> set (keys_from_event addr t e)" for ps
  proof -
    have ps: "list_all2 (\<lambda>p i. p \<in> set (extract_addresses addr (ne_decoded_topics e ! i))) ps (kt_param_indices t)"
      using that(2) unfolding keys by (auto simp: in_product_lists list_all2_map2 split: option.splits if_splits)
    then have "list_all2 (\<lambda>p i. addr p \<noteq> None) ps (kt_param_indices t)"
      by (rule list_all2_mono) (rule extract_addresses_valid)
    then have "length ps = length (kt_param_indices t)" "\<forall>p \<in> set ps. addr p \<noteq> None"
      by (auto simp: list_all2_conv_all_nth in_set_conv_nth)
    moreover have "\<forall>p \<in> set qs. addr p \<noteq> None \<Longrightarrow> \<exists>vs. map_res (address_val addr) qs = Inr vs" for qs
      by (induction qs) (auto simp: address_val_def)
    ultimately show ?thesis using that(1) by (auto simp: build_key_def key_symbol_def)
  qed
  with keys show ?thesis by blast
qed

section \<open>Samples\<close>

definition sample_snap :: snap_env where
  "sample_snap = \<lparr>sn_accepts = (\<lambda>j. True), sn_addr_str = (\<lambda>a. ''C''), sn_xdr64 = (\<lambda>v. Some ''AA''), sn_sha256 = id\<rparr>"

theorem batching_transparent_witness:
  "map dw_value (snapshot_keys sample_snap (get_contract_data_batch sample_xdr (\<lambda>ks. Inr (Some (List.map_filter sample_ledger ks))))
     [(''C'', ScU32 1, Temporary, None)] []) = [json_u32 9]"
proof -
  let ?entries = "\<lambda>ks. Inr (Some (List.map_filter sample_ledger ks))"
  have sv: "serves sample_xdr sample_ledger ?entries"
    by (auto simp: serves_def sample_xdr_def sample_ledger_def entry_key_def sample_key_def instance_key_def split: if_splits)
  have k: "map_res (encode_key sample_xdr) (map plain_key [(''C'', ScU32 1, Temporary, None)]) = Inr [''k'']"
    by (simp add: encode_key_def address_of_def sample_xdr_def sample_key_def)
  then have "encode_key sample_xdr (''C'', ScU32 1, Temporary) = Inr ''k''" by simp
  from single_data [OF sv this]
  have "get_contract_data sample_xdr ?entries ''C'' (ScU32 1) Temporary = Inr (Some \<lparr>dn_val = ScU32 9, dn_last_modified = 5\<rparr>)"
    by (simp add: data_of_item_def sample_ledger_def sample_xdr_def)
  with batching_transparent [OF sv k, of sample_snap "[]"] show ?thesis
    by (simp add: snapshot_data_def try_snapshot_data_def try_write_snapshot_data_def keep_rows_def sample_snap_def
        max_where_def Let_def)
qed

definition sample_template :: key_template where
  "sample_template = \<lparr>kt_symbol = ''Balance'', kt_event_names = [''swap''], kt_param_indices = [1], kt_durability = Persistent, kt_label = None\<rparr>"

theorem template_keys_complete_witness:
  "keys_from_event (\<lambda>s. Some (ContractAddr [])) sample_template (sample_new_event ''a'' 1) = [[''GA'']]
   \<and> (\<exists>key. build_key (\<lambda>s. Some (ContractAddr [])) sample_template [''GA''] = Inr key)"
proof -
  have "keys_from_event (\<lambda>s. Some (ContractAddr [])) sample_template (sample_new_event ''a'' 1) = [[''GA'']]"
    by (simp add: keys_from_event_def sample_template_def sample_new_event_def is_address_def starts_with_def)
  then show ?thesis
    using template_keys_complete [of "\<lambda>s. Some (ContractAddr [])" sample_template "sample_new_event ''a'' 1"]
    by (simp add: sample_template_def)
qed

end
