(* ===== verification/Ledger_Cursor.thy ===== *)
theory Ledger_Cursor
  imports Prelude
begin

text \<open>
  The status row of the indexer, \<^verbatim>\<open>crates/lumenqraph-indexer/src/cursor.rs\<close>: the ledger cursor, written under an
  optimistic lock, and the counters. The table holds at most one row; each function is one statement, except the
  progress write, which reads the version first.
\<close>

record cursor_row =
  cu_last_processed :: int
  cu_chain_tip :: int
  cu_ingested :: int
  cu_errors :: int
  cu_enriched :: int
  cu_not_enriched :: int
  cu_spec_failures :: int
  cu_rpc_calls :: int
  cu_rpc_errors :: int
  cu_rpc_errors_32001 :: int
  cu_rpc_failovers :: int
  cu_consecutive_errors :: int
  cu_ts_errors :: int
  cu_version :: int

type_synonym cursor_table = "cursor_row option"

datatype cursor_error = RowNotFound | ConcurrentWriter

definition read_last_processed :: "cursor_table \<Rightarrow> int option" where
  "read_last_processed t = map_option cu_last_processed t"

definition read_version :: "cursor_table \<Rightarrow> cursor_error + int" where
  "read_version t = (case t of None \<Rightarrow> Inl RowNotFound | Some r \<Rightarrow> Inr (cu_version r))"

text \<open>The \<^verbatim>\<open>UPDATE\<close> of a progress write, with the version read before it.\<close>

definition update_progress :: "int \<Rightarrow> int \<Rightarrow> int \<Rightarrow> int \<Rightarrow> cursor_table \<Rightarrow> cursor_error + cursor_table" where
  "update_progress current_version last_processed chain_tip ingested_delta t =
     (case t of
        Some r \<Rightarrow>
          if cu_version r = current_version
          then Inr (Some (r\<lparr>cu_last_processed := last_processed, cu_chain_tip := chain_tip,
                 cu_ingested := cu_ingested r + ingested_delta, cu_version := current_version + 1\<rparr>))
          else Inl ConcurrentWriter
      | None \<Rightarrow> Inl ConcurrentWriter)"

definition write_progress :: "int \<Rightarrow> int \<Rightarrow> int \<Rightarrow> cursor_table \<Rightarrow> cursor_error + cursor_table" where
  "write_progress last_processed chain_tip ingested_delta t =
     bind_res (read_version t) (\<lambda>current_version. update_progress current_version last_processed chain_tip ingested_delta t)"

text \<open>The row an \<^verbatim>\<open>INSERT\<close> of a counter creates: ledger 0, every other column at its default.\<close>

definition fresh_row :: cursor_row where
  "fresh_row = \<lparr>cu_last_processed = 0, cu_chain_tip = 0, cu_ingested = 0, cu_errors = 0, cu_enriched = 0, cu_not_enriched = 0,
     cu_spec_failures = 0, cu_rpc_calls = 0, cu_rpc_errors = 0, cu_rpc_errors_32001 = 0, cu_rpc_failovers = 0,
     cu_consecutive_errors = 0, cu_ts_errors = 0, cu_version = 0\<rparr>"

definition upsert_row :: "(cursor_row \<Rightarrow> cursor_row) \<Rightarrow> cursor_table \<Rightarrow> cursor_table" where
  "upsert_row f t = Some (f (case t of Some r \<Rightarrow> r | None \<Rightarrow> fresh_row))"

definition incr_errors :: "cursor_table \<Rightarrow> cursor_table" where
  "incr_errors t = upsert_row (\<lambda>r. r\<lparr>cu_errors := cu_errors r + 1\<rparr>) t"

definition track_enrichment :: "int \<Rightarrow> int \<Rightarrow> cursor_table \<Rightarrow> cursor_table" where
  "track_enrichment enriched not_enriched t =
     upsert_row (\<lambda>r. r\<lparr>cu_enriched := cu_enriched r + enriched, cu_not_enriched := cu_not_enriched r + not_enriched\<rparr>) t"

definition track_spec_fetch_failure :: "int \<Rightarrow> cursor_table \<Rightarrow> cursor_table" where
  "track_spec_fetch_failure count t = upsert_row (\<lambda>r. r\<lparr>cu_spec_failures := cu_spec_failures r + count\<rparr>) t"

definition track_rpc_call :: "int \<Rightarrow> int \<Rightarrow> int \<Rightarrow> int \<Rightarrow> cursor_table \<Rightarrow> cursor_table" where
  "track_rpc_call calls errors errors_32001 failovers t =
     upsert_row (\<lambda>r. r\<lparr>cu_rpc_calls := cu_rpc_calls r + calls, cu_rpc_errors := cu_rpc_errors r + errors,
       cu_rpc_errors_32001 := cu_rpc_errors_32001 r + errors_32001, cu_rpc_failovers := cu_rpc_failovers r + failovers\<rparr>) t"

definition set_consecutive_errors :: "int \<Rightarrow> cursor_table \<Rightarrow> cursor_table" where
  "set_consecutive_errors count t = upsert_row (\<lambda>r. r\<lparr>cu_consecutive_errors := count\<rparr>) t"

definition track_timestamp_parse_error :: "int \<Rightarrow> cursor_table \<Rightarrow> cursor_table" where
  "track_timestamp_parse_error count t = upsert_row (\<lambda>r. r\<lparr>cu_ts_errors := cu_ts_errors r + count\<rparr>) t"

lemmas counter_defs = incr_errors_def track_enrichment_def track_spec_fetch_failure_def track_rpc_call_def
  set_consecutive_errors_def track_timestamp_parse_error_def upsert_row_def

section \<open>Several writers\<close>

text \<open>
  The statements of any number of writers, interleaved: a writer reads the version, and updates later with the
  version it read. A step that fails leaves the table alone and only ends that writer's attempt.
\<close>

datatype cursor_op = ReadVersion nat | Update nat int int int | Count nat

text \<open>The state: the table, and the version each writer holds.\<close>

fun cursor_step :: "cursor_op \<Rightarrow> cursor_table \<times> (nat \<Rightarrow> int option) \<Rightarrow> (cursor_table \<times> (nat \<Rightarrow> int option)) \<times> bool" where
  "cursor_step (ReadVersion w) (t, held) =
     (case read_version t of Inl _ \<Rightarrow> ((t, held), False) | Inr v \<Rightarrow> ((t, held(w := Some v)), False))"
| "cursor_step (Update w l tip d) (t, held) =
     (case held w of
        None \<Rightarrow> ((t, held), False)
      | Some v \<Rightarrow>
          (case update_progress v l tip d t of
             Inl _ \<Rightarrow> ((t, held(w := None)), False)
           | Inr t' \<Rightarrow> ((t', held(w := None)), True)))"
| "cursor_step (Count n) (t, held) = ((incr_errors t, held), False)"

text \<open>The progress writes that took effect, in order.\<close>

fun cursor_run :: "cursor_op list \<Rightarrow> cursor_table \<times> (nat \<Rightarrow> int option) \<Rightarrow> (cursor_table \<times> (nat \<Rightarrow> int option)) \<times> cursor_op list" where
  "cursor_run [] s = (s, [])"
| "cursor_run (op # ops) s =
     (case cursor_step op s of (s1, done) \<Rightarrow>
        (case cursor_run ops s1 of (s2, log) \<Rightarrow> (s2, if done then op # log else log)))"

definition version_of :: "cursor_table \<Rightarrow> int" where
  "version_of t = (case t of Some r \<Rightarrow> cu_version r | None \<Rightarrow> 0)"

lemma version_counters [simp]: "version_of (incr_errors t) = version_of t"
  by (simp add: version_of_def counter_defs fresh_row_def split: option.splits)

lemma update_progress_version: "update_progress v l tip d t = Inr t' \<Longrightarrow> version_of t' = version_of t + 1 \<and> v = version_of t"
  by (auto simp: update_progress_def version_of_def split: option.splits if_splits)

lemma cursor_run_version: "cursor_run ops (t, held) = ((t', held'), log) \<Longrightarrow> version_of t' = version_of t + int (length log)"
proof (induction ops arbitrary: t held log)
  case (Cons op ops)
  obtain t1 held1 ok where s: "cursor_step op (t, held) = ((t1, held1), ok)" by (metis prod.exhaust)
  then have "version_of t1 = version_of t + (if ok then 1 else 0)"
    by (cases op) (auto dest: update_progress_version split: sum.splits option.splits)
  with Cons s show ?case by (fastforce split: prod.splits if_splits)
qed simp

lemma cursor_run_append:
  "cursor_run (xs @ ys) s = (case cursor_run xs s of (s1, l1) \<Rightarrow> case cursor_run ys s1 of (s2, l2) \<Rightarrow> (s2, l1 @ l2))"
  by (induction xs arbitrary: s) (auto split: prod.splits)

fun by_writer :: "nat \<Rightarrow> cursor_op \<Rightarrow> bool" where
  "by_writer w (ReadVersion v) \<longleftrightarrow> v = w"
| "by_writer w (Update v _ _ _) \<longleftrightarrow> v = w"
| "by_writer w (Count _) \<longleftrightarrow> False"

fun delta_of :: "cursor_op \<Rightarrow> int" where
  "delta_of (Update _ _ _ d) = d"
| "delta_of _ = 0"

definition ingested_of :: "cursor_table \<Rightarrow> int" where
  "ingested_of t = (case t of Some r \<Rightarrow> cu_ingested r | None \<Rightarrow> 0)"

lemma cursor_step_frame:
  assumes "cursor_step op (t, held) = ((t1, held1), ok)"
  shows "\<not> by_writer w op \<Longrightarrow> held1 w = held w" and "t \<noteq> None \<Longrightarrow> t1 \<noteq> None"
    and "ingested_of t1 = ingested_of t + (if ok then delta_of op else 0)"
  using assms
  by (cases op; force simp: counter_defs update_progress_def ingested_of_def fresh_row_def split: sum.splits option.splits if_splits)+

lemma cursor_run_frame:
  assumes "cursor_run ops (t, held) = ((t', held'), log)"
  shows "list_all (\<lambda>op. \<not> by_writer w op) ops \<Longrightarrow> held' w = held w" and "t \<noteq> None \<Longrightarrow> t' \<noteq> None"
    and "ingested_of t' = ingested_of t + sum_list (map delta_of log)"
proof -
  have "(list_all (\<lambda>op. \<not> by_writer w op) ops \<longrightarrow> held' w = held w) \<and> (t \<noteq> None \<longrightarrow> t' \<noteq> None)
     \<and> ingested_of t' = ingested_of t + sum_list (map delta_of log)"
    using assms
  proof (induction ops arbitrary: t held log)
    case (Cons op ops)
    obtain t1 held1 ok where s: "cursor_step op (t, held) = ((t1, held1), ok)" by (metis prod.exhaust)
    obtain log1 where r: "cursor_run ops (t1, held1) = ((t', held'), log1)" and log: "log = (if ok then op # log1 else log1)"
      using Cons.prems s by (auto split: prod.splits)
    show ?case using Cons.IH [OF r] cursor_step_frame [OF s] log by auto
  qed simp
  then show "list_all (\<lambda>op. \<not> by_writer w op) ops \<Longrightarrow> held' w = held w" "t \<noteq> None \<Longrightarrow> t' \<noteq> None"
    "ingested_of t' = ingested_of t + sum_list (map delta_of log)" by blast+
qed

text \<open>
  Claim C9. Whatever other writers and counters do between a writer's read and its write, the write takes effect exactly
  when no other progress write took effect in between. So no update is lost: the ingested total is the sum over the
  writes that took effect, and the version counts them.
\<close>
theorem lock_admits_one:
  assumes mid: "list_all (\<lambda>op. \<not> by_writer w op) mid"
    and run: "cursor_run mid (Some r, held(w := Some (cu_version r))) = (s, others)"
    and all: "cursor_run (ReadVersion w # mid @ [Update w l tip d]) (Some r, held) = ((t', held'), log)"
  shows "log = (if others = [] then [Update w l tip d] else others)
    \<and> ingested_of t' = cu_ingested r + sum_list (map delta_of log)
    \<and> version_of t' = cu_version r + int (length log)"
proof -
  obtain t1 held1 where s: "s = (t1, held1)" by (cases s)
  note run = run [unfolded s]
  have h: "held1 w = Some (cu_version r)" using cursor_run_frame(1) [OF run mid] by simp
  obtain r1 where r1: "t1 = Some r1" using cursor_run_frame(2) [OF run] by blast
  have v: "cu_version r1 = cu_version r + int (length others)"
    using cursor_run_version [OF run] by (simp add: r1 version_of_def)
  have tail: "cursor_run (mid @ [Update w l tip d]) (Some r, held(w := Some (cu_version r))) = ((t', held'), log)"
    using all by (auto simp: read_version_def split: prod.splits)
  then have "log = (if others = [] then [Update w l tip d] else others)"
    using h v r1 by (auto simp: cursor_run_append run update_progress_def split: sum.splits)
  with cursor_run_frame(3) [OF tail] cursor_run_version [OF tail] show ?thesis
    by (simp add: ingested_of_def version_of_def)
qed

theorem lock_admits_one_witness:
  "snd (cursor_run [ReadVersion 0, ReadVersion 1, Update 1 8 9 5, Update 0 7 9 4] (Some fresh_row, \<lambda>w. None)) = [Update 1 8 9 5]"
proof -
  let ?mid = "[ReadVersion 1, Update 1 8 9 5]"
  obtain t' held' log where all: "cursor_run (ReadVersion 0 # ?mid @ [Update 0 7 9 4]) (Some fresh_row, \<lambda>w. None) = ((t', held'), log)"
    by (metis prod.exhaust)
  have run: "cursor_run ?mid (Some fresh_row, (\<lambda>w. None)(0 := Some (cu_version fresh_row)))
      = (fst (cursor_run ?mid (Some fresh_row, (\<lambda>w. None)(0 := Some (cu_version fresh_row)))), [Update 1 8 9 5])"
    by (simp add: read_version_def update_progress_def fresh_row_def)
  show ?thesis
    using lock_admits_one [OF _ run all] all by simp
qed

end
