(* ===== verification/Poller.thy ===== *)
theory Poller
  imports Snapshots Ledger_Cursor
begin

text \<open>
  The ingestion loop of the indexer, \<^verbatim>\<open>crates/lumenqraph-indexer/src/poller.rs\<close>: one poll cycle with its paging
  loop, the re-scan for reorganisations and the replay of missed ranges, over the tables of \<open>Store\<close>, \<open>Snapshots\<close>
  and \<open>Ledger_Cursor\<close>.

  The RPC's answers are arguments: \<open>src k start token\<close> answers the \<open>k\<close>-th page request of a loop. So is the
  cancellation token: \<open>cancelled k\<close> is what its \<open>k\<close>-th test sees. Statements that cannot violate a
  constraint are taken to succeed.
\<close>

section \<open>State and environment\<close>

record missed_range =
  mr_id :: nat
  mr_from :: int
  mr_to :: int
  mr_reason :: string
  mr_recoverable :: bool
  mr_recovered :: bool

record 'c indexer =
  ix_cursor :: cursor_table
  ix_tables :: event_tables
  ix_missed :: "missed_range list"
  ix_next_id :: nat
  ix_snap :: "'c snap_state"
  ix_data :: "data_row list"
  ix_rpc_oldest :: int

record poll_config =
  cf_contract_ids :: "string list"
  cf_page_size :: nat
  cf_start_ledger :: int
  cf_max_catchup_ledgers :: int
  cf_reorg_overlap_ledgers :: int
  cf_state_indexing :: bool
  cf_upgrade_watch :: bool
  cf_key_indexing :: bool
  cf_key_templates :: "key_template list"
  cf_balance_key_symbol :: string
  cf_balance_key_durability :: string

record 'c poll_env =
  pv_decode :: decode_env
  pv_accepts :: "json \<Rightarrow> bool"
  pv_spec :: "'c spec_env"
  pv_snap :: snap_env
  pv_addr :: "string \<Rightarrow> sc_address option"
  pv_instance_of :: "string \<Rightarrow> rpc_failure + instance_entry option"
  pv_instances_of :: instances_source
  pv_data_batch :: batch_source
  pv_visit_set :: "string list \<Rightarrow> string list"
  pv_visit_holders :: "(string \<times> string list) list \<Rightarrow> (string \<times> string list) list"
  pv_visit_templates :: "(string \<times> (nat \<times> string list) list) list \<Rightarrow> (string \<times> (nat \<times> string list) list) list"

record events_page =
  pg_events :: "event_info list"
  pg_cursor :: "string option"

type_synonym page_source = "nat \<Rightarrow> int \<Rightarrow> string option \<Rightarrow> rpc_failure + events_page"

datatype poll_error = PollRpc rpc_failure | PollStore store_error | PollCursor cursor_error | PollPanic index_panic

definition record_missed_range_classified :: "int \<Rightarrow> int \<Rightarrow> string \<Rightarrow> bool \<Rightarrow> 'c indexer \<Rightarrow> 'c indexer" where
  "record_missed_range_classified from_ledger to_ledger reason recoverable ix =
     ix\<lparr>ix_missed := ix_missed ix @ [\<lparr>mr_id = ix_next_id ix, mr_from = from_ledger, mr_to = to_ledger, mr_reason = reason,
          mr_recoverable = recoverable, mr_recovered = False\<rparr>], ix_next_id := ix_next_id ix + 1\<rparr>"

definition record_missed_range :: "int \<Rightarrow> int \<Rightarrow> string \<Rightarrow> 'c indexer \<Rightarrow> 'c indexer" where
  "record_missed_range from_ledger to_ledger reason ix = record_missed_range_classified from_ledger to_ledger reason True ix"

definition with_cursor :: "(cursor_table \<Rightarrow> cursor_table) \<Rightarrow> 'c indexer \<Rightarrow> 'c indexer" where
  "with_cursor f ix = ix\<lparr>ix_cursor := f (ix_cursor ix)\<rparr>"

definition specs_get :: "'c poll_env \<Rightarrow> string \<Rightarrow> int \<Rightarrow> 'c indexer \<Rightarrow> contract_spec option \<times> 'c indexer" where
  "specs_get env c ledger ix =
     (let sp = pv_spec env; sn = ix_snap ix
      in case spec_get (sp_ops sp) (sp_parse sp) (sp_wasm_of sp) (sp_now sp) c ledger (ss_cache sn) (ss_specs sn) of
           (s, cache, specs) \<Rightarrow> (s, ix\<lparr>ix_snap := sn\<lparr>ss_cache := cache, ss_specs := specs\<rparr>\<rparr>))"

section \<open>Paging loops\<close>

datatype ('s, 'r) page_step = Stop 'r | Continue 's

partial_function (option) page_loop :: "(nat \<Rightarrow> 's \<Rightarrow> ('s, 'r) page_step) \<Rightarrow> nat \<Rightarrow> 's \<Rightarrow> 'r option" where
  "page_loop step k s = (case step k s of Stop r \<Rightarrow> Some r | Continue s' \<Rightarrow> page_loop step (Suc k) s')"

section \<open>Fetching and storing\<close>

record 'c fetch_state =
  fs_ix :: "'c indexer"
  fs_token :: "string option"
  fs_inserted :: nat
  fs_enriched :: nat
  fs_not_enriched :: nat
  fs_ts_errors :: nat
  fs_page_count :: nat
  fs_last_seen :: int
  fs_active :: "string list"
  fs_holders :: "(string \<times> string list) list"
  fs_templates :: "(string \<times> (nat \<times> string list) list) list"

definition fetch_init :: "int \<Rightarrow> 'c indexer \<Rightarrow> 'c fetch_state" where
  "fetch_init start ix = \<lparr>fs_ix = ix, fs_token = None, fs_inserted = 0, fs_enriched = 0, fs_not_enriched = 0, fs_ts_errors = 0,
     fs_page_count = 0, fs_last_seen = start, fs_active = [], fs_holders = [], fs_templates = []\<rparr>"

text \<open>\<^verbatim>\<open>map.entry(k).or_default()\<close>, then a change of the value; and a set insertion.\<close>

definition upd_entry :: "'k \<Rightarrow> ('v list \<Rightarrow> 'v list) \<Rightarrow> ('k \<times> 'v list) list \<Rightarrow> ('k \<times> 'v list) list" where
  "upd_entry k f m =
     (if k \<in> fst ` set m then map (\<lambda>(a, b). if a = k then (a, f b) else (a, b)) m else m @ [(k, f [])])"

definition set_add :: "'a \<Rightarrow> 'a list \<Rightarrow> 'a list" where
  "set_add x xs = (if x \<in> set xs then xs else xs @ [x])"

text \<open>What the loop does with one event before it is converted, and after.\<close>

definition before_convert :: "'c poll_env \<Rightarrow> poll_config \<Rightarrow> event_info \<Rightarrow> 'c fetch_state \<Rightarrow> contract_spec option \<times> 'c fetch_state" where
  "before_convert env cfg ev fs =
     (case specs_get env (ei_contract_id ev) (ei_ledger ev) (fs_ix fs) of (spec, ix) \<Rightarrow>
        (spec, fs\<lparr>fs_ix := ix, fs_last_seen := max (fs_last_seen fs) (ei_ledger ev),
           fs_active := (if (cf_state_indexing cfg \<or> cf_upgrade_watch cfg) \<and> cf_contract_ids cfg = []
                         then set_add (ei_contract_id ev) (fs_active fs) else fs_active fs)\<rparr>))"

definition note_event :: "'c poll_env \<Rightarrow> poll_config \<Rightarrow> new_event \<Rightarrow> 'c fetch_state \<Rightarrow> 'c fetch_state" where
  "note_event env cfg ne fs =
     (let c = ne_contract_id ne
      in fs\<lparr>fs_enriched := fs_enriched fs + (if ne_enriched ne \<noteq> None then 1 else 0),
            fs_not_enriched := fs_not_enriched fs + (if ne_enriched ne \<noteq> None then 0 else 1),
            fs_holders := (if cf_key_indexing cfg
               then fold (\<lambda>h. upd_entry c (set_add h)) (holders_in_event (pv_addr env) ne) (fs_holders fs)
               else fs_holders fs),
            fs_templates := fold (\<lambda>(idx, t) m. fold (\<lambda>params. upd_entry c (\<lambda>xs. xs @ [(idx, params)])) (keys_from_event (pv_addr env) t ne) m)
               (enumerate 0 (cf_key_templates cfg)) (fs_templates fs)\<rparr>)"

fun page_events ::
  "'c poll_env \<Rightarrow> poll_config \<Rightarrow> event_info list \<Rightarrow> 'c fetch_state \<Rightarrow> new_event list \<Rightarrow> index_panic option \<times> 'c fetch_state \<times> new_event list" where
  "page_events env cfg [] fs batch = (None, fs, batch)"
| "page_events env cfg (ev # evs) fs batch =
     (case before_convert env cfg ev fs of (spec, fs) \<Rightarrow>
        (case to_new_event (pv_decode env) ev spec of
           Inl p \<Rightarrow> (Some p, fs, batch)
         | Inr None \<Rightarrow> page_events env cfg evs (fs\<lparr>fs_ts_errors := fs_ts_errors fs + 1\<rparr>) batch
         | Inr (Some ne) \<Rightarrow> page_events env cfg evs (note_event env cfg ne fs) (batch @ [ne])))"

datatype fetch_end = Broke | Cancelled | Failed poll_error

definition store_page ::
  "'c poll_env \<Rightarrow> poll_config \<Rightarrow> events_page \<Rightarrow> 'c fetch_state \<Rightarrow> ('c fetch_state, fetch_end \<times> 'c fetch_state) page_step" where
  "store_page env cfg page fs =
     (case page_events env cfg (pg_events page) (fs\<lparr>fs_page_count := fs_page_count fs + 1\<rparr>) [] of
        (Some p, fs, _) \<Rightarrow> Stop (Failed (PollPanic p), fs)
      | (None, fs, batch) \<Rightarrow>
          (case insert_events (pv_accepts env) (de_float_text (pv_decode env)) batch (ix_tables (fs_ix fs)) of
             Inl e \<Rightarrow> Stop (Failed (PollStore e), fs)
           | Inr (inserted, tables) \<Rightarrow>
               (let fs = fs\<lparr>fs_ix := (fs_ix fs)\<lparr>ix_tables := tables\<rparr>, fs_inserted := fs_inserted fs + inserted,
                            fs_token := pg_cursor page\<rparr>
                in if length batch < cf_page_size cfg \<or> pg_cursor page = None then Stop (Broke, fs) else Continue fs)))"

definition fetch_step ::
  "'c poll_env \<Rightarrow> poll_config \<Rightarrow> page_source \<Rightarrow> (nat \<Rightarrow> bool) \<Rightarrow> (rpc_failure \<Rightarrow> string) \<Rightarrow> int \<Rightarrow> int \<Rightarrow> nat \<Rightarrow> 'c fetch_state \<Rightarrow>
   ('c fetch_state, fetch_end \<times> 'c fetch_state) page_step" where
  "fetch_step env cfg src cancelled show_err start tip k fs =
     (if cancelled k then Stop (Cancelled, fs)
      else case src k start (fs_token fs) of
        Inl e \<Rightarrow>
          if fs_page_count fs > 0
          then Stop (Broke, fs\<lparr>fs_ix := record_missed_range (fs_last_seen fs) tip (show_err e) (with_cursor incr_errors (fs_ix fs))\<rparr>)
          else Stop (Failed (PollRpc e), fs)
      | Inr page \<Rightarrow> store_page env cfg page fs)"

text \<open>What follows the loop: metrics, then the snapshots, which never fail the cycle.\<close>

definition track_cycle :: "'c fetch_state \<Rightarrow> 'c indexer \<Rightarrow> 'c indexer" where
  "track_cycle fs ix =
     (if fs_enriched fs > 0 \<or> fs_not_enriched fs > 0
      then with_cursor (\<lambda>t. (if fs_ts_errors fs > 0 then track_timestamp_parse_error (int (fs_ts_errors fs)) else id)
             (track_enrichment (int (fs_enriched fs)) (int (fs_not_enriched fs)) t)) ix
      else ix)"

definition instance_targets :: "'c poll_env \<Rightarrow> poll_config \<Rightarrow> 'c fetch_state \<Rightarrow> string list" where
  "instance_targets env cfg fs =
     (if cf_contract_ids cfg = [] then pv_visit_set env (fs_active fs) else cf_contract_ids cfg)"

definition watch_upgrades :: "'c poll_env \<Rightarrow> string list \<Rightarrow> 'c snap_state \<Rightarrow> 'c snap_state" where
  "watch_upgrades env targets sn =
     fold (\<lambda>c sn. case check_for_upgrade (sp_ops (pv_spec env)) (sp_parse (pv_spec env)) (sp_wasm_of (pv_spec env)) (sp_now (pv_spec env))
             (pv_instance_of env) c (ss_cache sn) (ss_specs sn) of
           (cache, specs) \<Rightarrow> sn\<lparr>ss_cache := cache, ss_specs := specs\<rparr>) targets sn"

definition snapshot_cycle :: "'c poll_env \<Rightarrow> poll_config \<Rightarrow> 'c fetch_state \<Rightarrow> 'c indexer \<Rightarrow> 'c indexer" where
  "snapshot_cycle env cfg fs ix =
     (let ix = (if cf_state_indexing cfg
            then ix\<lparr>ix_snap := snapshot_instances_batch (pv_spec env) (pv_snap env) (pv_instances_of env) (instance_targets env cfg fs) (ix_snap ix)\<rparr>
            else if cf_upgrade_watch cfg
            then ix\<lparr>ix_snap := watch_upgrades env (instance_targets env cfg fs) (ix_snap ix)\<rparr>
            else ix);
          ix = (if cf_key_indexing cfg \<and> fs_holders fs \<noteq> []
            then (case parse_durability (cf_balance_key_durability cfg) of
                    None \<Rightarrow> ix
                  | Some dur \<Rightarrow> ix\<lparr>ix_data := snapshot_balances_batch (pv_snap env) (pv_data_batch env) (pv_addr env)
                      (pv_visit_holders env (fs_holders fs)) (cf_contract_ids cfg) (cf_balance_key_symbol cfg) dur (ix_data ix)\<rparr>)
            else ix)
      in if fs_templates fs \<noteq> []
         then ix\<lparr>ix_data := snapshot_template_keys_batch (pv_snap env) (pv_data_batch env) (pv_addr env)
                (pv_visit_templates env (fs_templates fs)) (cf_contract_ids cfg) (cf_key_templates cfg) (ix_data ix)\<rparr>
         else ix)"

type_synonym enrichment_metrics = "nat \<times> nat"

definition fetch_and_store_with_shutdown ::
  "'c poll_env \<Rightarrow> poll_config \<Rightarrow> page_source \<Rightarrow> (nat \<Rightarrow> bool) \<Rightarrow> (rpc_failure \<Rightarrow> string) \<Rightarrow> int \<Rightarrow> int \<Rightarrow> 'c indexer \<Rightarrow>
   ((poll_error + nat \<times> enrichment_metrics) \<times> 'c indexer) option" where
  "fetch_and_store_with_shutdown env cfg src cancelled show_err start tip ix =
     map_option (\<lambda>(r, fs). case r of
         Failed e \<Rightarrow> (Inl e, fs_ix fs)
       | Cancelled \<Rightarrow> (Inr (fs_inserted fs, fs_enriched fs, fs_not_enriched fs), fs_ix fs)
       | Broke \<Rightarrow> (Inr (fs_inserted fs, fs_enriched fs, fs_not_enriched fs), snapshot_cycle env cfg fs (track_cycle fs (fs_ix fs))))
       (page_loop (fetch_step env cfg src cancelled show_err start tip) 0 (fetch_init start ix))"

definition fetch_and_store ::
  "'c poll_env \<Rightarrow> poll_config \<Rightarrow> page_source \<Rightarrow> (rpc_failure \<Rightarrow> string) \<Rightarrow> int \<Rightarrow> int \<Rightarrow> 'c indexer \<Rightarrow>
   ((poll_error + nat \<times> enrichment_metrics) \<times> 'c indexer) option" where
  "fetch_and_store env cfg src show_err start tip ix =
     fetch_and_store_with_shutdown env cfg src (\<lambda>k. False) show_err start tip ix"

section \<open>The re-scan\<close>

record 'c rescan_state =
  rs_ix :: "'c indexer"
  rs_token :: "string option"
  rs_updated :: nat
  rs_enriched :: nat
  rs_not_enriched :: nat
  rs_ts_errors :: nat

definition rescan_init :: "'c indexer \<Rightarrow> 'c rescan_state" where
  "rescan_init ix = \<lparr>rs_ix = ix, rs_token = None, rs_updated = 0, rs_enriched = 0, rs_not_enriched = 0, rs_ts_errors = 0\<rparr>"

text \<open>One page: the panic, whether an event past the end was met, and the batch so far.\<close>

fun rescan_events ::
  "'c poll_env \<Rightarrow> int \<Rightarrow> event_info list \<Rightarrow> 'c rescan_state \<Rightarrow> new_event list \<Rightarrow>
   (index_panic option \<times> bool) \<times> 'c rescan_state \<times> new_event list" where
  "rescan_events env fin [] rs batch = ((None, False), rs, batch)"
| "rescan_events env fin (ev # evs) rs batch =
     (if ei_ledger ev > fin then ((None, True), rs, batch)
      else (case specs_get env (ei_contract_id ev) (ei_ledger ev) (rs_ix rs) of (spec, ix) \<Rightarrow>
        (let rs = rs\<lparr>rs_ix := ix\<rparr>
         in case to_new_event (pv_decode env) ev spec of
              Inl p \<Rightarrow> ((Some p, False), rs, batch)
            | Inr None \<Rightarrow> rescan_events env fin evs (rs\<lparr>rs_ts_errors := rs_ts_errors rs + 1\<rparr>) batch
            | Inr (Some ne) \<Rightarrow>
                rescan_events env fin evs
                  (if ne_enriched ne \<noteq> None then rs\<lparr>rs_enriched := rs_enriched rs + 1\<rparr> else rs\<lparr>rs_not_enriched := rs_not_enriched rs + 1\<rparr>)
                  (batch @ [ne]))))"

definition track_rescan :: "bool \<Rightarrow> 'c rescan_state \<Rightarrow> 'c rescan_state" where
  "track_rescan with_ts rs =
     (if rs_enriched rs > 0 \<or> rs_not_enriched rs > 0
      then rs\<lparr>rs_ix := with_cursor (\<lambda>t. (if with_ts \<and> rs_ts_errors rs > 0 then track_timestamp_parse_error (int (rs_ts_errors rs)) else id)
             (track_enrichment (int (rs_enriched rs)) (int (rs_not_enriched rs)) t)) (rs_ix rs)\<rparr>
      else rs)"

definition rescan_step ::
  "'c poll_env \<Rightarrow> poll_config \<Rightarrow> page_source \<Rightarrow> (nat \<Rightarrow> bool) \<Rightarrow> int \<Rightarrow> int \<Rightarrow> nat \<Rightarrow> 'c rescan_state \<Rightarrow>
   ('c rescan_state, (poll_error + nat) \<times> 'c indexer) page_step" where
  "rescan_step env cfg src cancelled start fin k rs =
     (if cancelled k then Stop (Inr (rs_updated rs), rs_ix rs)
      else case src k start (rs_token rs) of
        Inl e \<Rightarrow> Stop (Inl (PollRpc e), rs_ix rs)
      | Inr page \<Rightarrow>
          (case rescan_events env fin (pg_events page) rs [] of
             ((Some p, _), rs, _) \<Rightarrow> Stop (Inl (PollPanic p), rs_ix rs)
           | ((None, True), rs, _) \<Rightarrow> Stop (Inr (rs_updated rs), rs_ix (track_rescan True rs))
           | ((None, False), rs, batch) \<Rightarrow>
               (let stored = (if batch = [] then Inr ((0, 0), ix_tables (rs_ix rs))
                              else upsert_events (pv_accepts env) batch (ix_tables (rs_ix rs)))
                in case stored of
                     Inl e \<Rightarrow> Stop (Inl (PollStore e), rs_ix rs)
                   | Inr ((_, updated), tables) \<Rightarrow>
                       (let rs = rs\<lparr>rs_ix := (rs_ix rs)\<lparr>ix_tables := tables\<rparr>, rs_updated := rs_updated rs + updated,
                                    rs_token := pg_cursor page\<rparr>
                        in if length batch < cf_page_size cfg \<or> pg_cursor page = None
                           then Stop (Inr (rs_updated rs), rs_ix (track_rescan False rs))
                           else Continue rs))))"

definition fetch_and_upsert ::
  "'c poll_env \<Rightarrow> poll_config \<Rightarrow> page_source \<Rightarrow> (nat \<Rightarrow> bool) \<Rightarrow> int \<Rightarrow> int \<Rightarrow> 'c indexer \<Rightarrow> ((poll_error + nat) \<times> 'c indexer) option" where
  "fetch_and_upsert env cfg src cancelled start fin ix =
     page_loop (rescan_step env cfg src cancelled start fin) 0 (rescan_init ix)"

section \<open>A poll cycle\<close>

definition MAX_LOOKBACK_LEDGERS :: int where
  "MAX_LOOKBACK_LEDGERS = 120000"

text \<open>The outside of one cycle.\<close>

record cycle_input =
  cy_latest :: "rpc_failure + int"
  cy_health :: "rpc_failure + int"
  cy_pages :: page_source
  cy_rescan :: page_source
  cy_cancelled :: "nat \<Rightarrow> bool"
  cy_cancelled_after :: bool
  cy_cancelled_rescan :: "nat \<Rightarrow> bool"
  cy_metrics :: "int \<times> int \<times> int \<times> int"
  cy_show_err :: "rpc_failure \<Rightarrow> string"

definition oldest_available :: "int \<Rightarrow> rpc_failure + int \<Rightarrow> 'c indexer \<Rightarrow> int \<times> 'c indexer" where
  "oldest_available latest health ix =
     (let fallback = max (latest - MAX_LOOKBACK_LEDGERS) 1
      in case health of
           Inr oldest \<Rightarrow> if oldest > 0 then (max oldest 1, ix\<lparr>ix_rpc_oldest := oldest\<rparr>) else (fallback, ix\<lparr>ix_rpc_oldest := fallback\<rparr>)
         | Inl _ \<Rightarrow> (fallback, ix\<lparr>ix_rpc_oldest := fallback\<rparr>))"

definition start_of :: "poll_config \<Rightarrow> int \<Rightarrow> 'c indexer \<Rightarrow> int" where
  "start_of cfg latest ix =
     (case read_last_processed (ix_cursor ix) of
        Some c \<Rightarrow> c + 1
      | None \<Rightarrow> if cf_start_ledger cfg > 0 then cf_start_ledger cfg else latest)"

definition clamp_retention :: "int \<Rightarrow> int \<times> 'c indexer \<Rightarrow> int \<times> 'c indexer" where
  "clamp_retention oldest = (\<lambda>(start, ix).
     if start < oldest
     then (oldest, record_missed_range_classified start (oldest - 1) ''retention-window skip'' False ix)
     else (start, ix))"

definition clamp_catchup :: "poll_config \<Rightarrow> int \<Rightarrow> int \<times> 'c indexer \<Rightarrow> int \<times> 'c indexer" where
  "clamp_catchup cfg latest = (\<lambda>(start, ix).
     if latest - start > cf_max_catchup_ledgers cfg
     then (let clamped = latest - cf_max_catchup_ledgers cfg
           in (clamped, if clamped > start then record_missed_range_classified start (clamped - 1) ''catch-up skip'' True ix else ix))
     else (start, ix))"

definition advance :: "int \<Rightarrow> int \<Rightarrow> int \<Rightarrow> int option \<Rightarrow> 'c indexer \<Rightarrow> (poll_error + int option) \<times> 'c indexer" where
  "advance last_processed tip delta r ix =
     (case write_progress last_processed tip delta (ix_cursor ix) of
        Inl e \<Rightarrow> (Inl (PollCursor e), ix)
      | Inr t \<Rightarrow> (Inr r, ix\<lparr>ix_cursor := t\<rparr>))"

definition track_metrics :: "int \<times> int \<times> int \<times> int \<Rightarrow> 'c indexer \<Rightarrow> 'c indexer" where
  "track_metrics m ix =
     (case m of (calls, errors, errors_32001, failovers) \<Rightarrow>
        if calls > 0 \<or> errors > 0 \<or> failovers > 0
        then with_cursor (track_rpc_call calls errors errors_32001 failovers) ix else ix)"

definition finish_cycle ::
  "'c poll_env \<Rightarrow> poll_config \<Rightarrow> cycle_input \<Rightarrow> int \<Rightarrow> nat \<Rightarrow> 'c indexer \<Rightarrow> ((poll_error + int option) \<times> 'c indexer) option" where
  "finish_cycle env cfg cy latest inserted ix =
     (let overlap = cf_reorg_overlap_ledgers cfg;
          rescan = (if overlap > 0 \<and> latest > overlap
                    then fetch_and_upsert env cfg (cy_rescan cy) (cy_cancelled_rescan cy) (latest - overlap) latest ix
                    else Some (Inr 0, ix))
      in map_option (\<lambda>(r, ix). case r of
             Inl e \<Rightarrow> (Inl e, ix)
           | Inr _ \<Rightarrow> advance latest latest (int inserted) (Some latest) (track_metrics (cy_metrics cy) ix)) rescan)"

definition poll_once ::
  "'c poll_env \<Rightarrow> poll_config \<Rightarrow> cycle_input \<Rightarrow> 'c indexer \<Rightarrow> ((poll_error + int option) \<times> 'c indexer) option" where
  "poll_once env cfg cy ix =
     (case cy_latest cy of
        Inl e \<Rightarrow> Some (Inl (PollRpc e), ix)
      | Inr latest \<Rightarrow>
          (case oldest_available latest (cy_health cy) ix of (oldest, ix) \<Rightarrow>
             (let start = start_of cfg latest ix
              in if start > latest then Some (advance (start - 1) latest 0 None ix)
                 else (case clamp_catchup cfg latest (clamp_retention oldest (start, ix)) of (start, ix) \<Rightarrow>
                   Option.bind (fetch_and_store_with_shutdown env cfg (cy_pages cy) (cy_cancelled cy) (cy_show_err cy) start latest ix) (\<lambda>(r, ix).
                     case r of
                       Inl e \<Rightarrow> Some (Inl e, ix)
                     | Inr (inserted, _) \<Rightarrow>
                         if cy_cancelled_after cy then Some (Inr (Some latest), ix)
                         else finish_cycle env cfg cy latest inserted ix)))))"

section \<open>Replaying missed ranges\<close>

record 'c gap_state =
  gs_ix :: "'c indexer"
  gs_token :: "string option"
  gs_inserted :: nat

fun gap_events ::
  "'c poll_env \<Rightarrow> int \<Rightarrow> event_info list \<Rightarrow> 'c indexer \<Rightarrow> new_event list \<Rightarrow> (index_panic option \<times> bool) \<times> 'c indexer \<times> new_event list" where
  "gap_events env to_ledger [] ix batch = ((None, False), ix, batch)"
| "gap_events env to_ledger (ev # evs) ix batch =
     (if ei_ledger ev > to_ledger then ((None, True), ix, batch)
      else (case specs_get env (ei_contract_id ev) (ei_ledger ev) ix of (spec, ix) \<Rightarrow>
        (case to_new_event (pv_decode env) ev spec of
           Inl p \<Rightarrow> ((Some p, False), ix, batch)
         | Inr None \<Rightarrow> gap_events env to_ledger evs ix batch
         | Inr (Some ne) \<Rightarrow> gap_events env to_ledger evs ix (batch @ [ne]))))"

definition gap_step ::
  "'c poll_env \<Rightarrow> poll_config \<Rightarrow> page_source \<Rightarrow> missed_range \<Rightarrow> nat \<Rightarrow> 'c gap_state \<Rightarrow>
   ('c gap_state, (poll_error + nat) \<times> 'c indexer) page_step" where
  "gap_step env cfg src gap k gs =
     (case src k (mr_from gap) (gs_token gs) of
        Inl e \<Rightarrow> Stop (Inl (PollRpc e), gs_ix gs)
      | Inr page \<Rightarrow>
          (case gap_events env (mr_to gap) (pg_events page) (gs_ix gs) [] of
             ((Some p, _), ix, _) \<Rightarrow> Stop (Inl (PollPanic p), ix)
           | ((None, stop), ix, batch) \<Rightarrow>
               (let stored = (if batch = [] then Inr (0, ix_tables ix)
                              else insert_events (pv_accepts env) (de_float_text (pv_decode env)) batch (ix_tables ix))
                in case stored of
                     Inl e \<Rightarrow> Stop (Inl (PollStore e), ix)
                   | Inr (inserted, tables) \<Rightarrow>
                       (let gs = gs\<lparr>gs_ix := ix\<lparr>ix_tables := tables\<rparr>, gs_inserted := gs_inserted gs + inserted, gs_token := pg_cursor page\<rparr>
                        in if stop \<or> length batch < cf_page_size cfg \<or> pg_cursor page = None
                           then Stop (Inr (gs_inserted gs), gs_ix gs)
                           else Continue gs))))"

definition mark_recovered :: "nat \<Rightarrow> 'c indexer \<Rightarrow> 'c indexer" where
  "mark_recovered i ix = ix\<lparr>ix_missed := map (\<lambda>r. if mr_id r = i then r\<lparr>mr_recovered := True\<rparr> else r) (ix_missed ix)\<rparr>"

text \<open>\<open>srcs\<close> gives the pages for each gap, by its id.\<close>

fun gap_loop ::
  "'c poll_env \<Rightarrow> poll_config \<Rightarrow> (nat \<Rightarrow> page_source) \<Rightarrow> missed_range list \<Rightarrow> 'c indexer \<Rightarrow> ((poll_error + unit) \<times> 'c indexer) option" where
  "gap_loop env cfg srcs [] ix = Some (Inr (), ix)"
| "gap_loop env cfg srcs (gap # ranges) ix =
     (case page_loop (gap_step env cfg (srcs (mr_id gap)) gap) 0 \<lparr>gs_ix = ix, gs_token = None, gs_inserted = 0\<rparr> of
        None \<Rightarrow> None
      | Some (Inl e, ix) \<Rightarrow> Some (Inl e, ix)
      | Some (Inr _, ix) \<Rightarrow> gap_loop env cfg srcs ranges (mark_recovered (mr_id gap) ix))"

definition unrecovered :: "'c indexer \<Rightarrow> missed_range list" where
  "unrecovered ix = sort_key mr_from (filter (\<lambda>r. \<not> mr_recovered r \<and> mr_recoverable r) (ix_missed ix))"

definition recover_gaps ::
  "'c poll_env \<Rightarrow> poll_config \<Rightarrow> (nat \<Rightarrow> page_source) \<Rightarrow> 'c indexer \<Rightarrow> ((poll_error + unit) \<times> 'c indexer) option" where
  "recover_gaps env cfg srcs ix = gap_loop env cfg srcs (unrecovered ix) ix"

section \<open>Facts on loops\<close>

lemma page_loop_inv:
  assumes "page_loop step k s = Some r" "P k s"
    and "\<And>k s s'. P k s \<Longrightarrow> step k s = Continue s' \<Longrightarrow> P (Suc k) s'"
    and "\<And>k s r. P k s \<Longrightarrow> step k s = Stop r \<Longrightarrow> Q r"
  shows "Q r"
proof -
  have "st = step \<longrightarrow> P k s \<longrightarrow> Q r" if "page_loop st k s = Some r" for st k s r
  proof (rule page_loop.raw_induct [OF _ that, of "\<lambda>st k s r. st = step \<longrightarrow> P k s \<longrightarrow> Q r"], goal_cases)
    case (1 loop st k s r)
    show ?case
    proof (cases "st k s")
      case (Stop q)
      with 1 assms(4) show ?thesis by auto
    next
      case (Continue s')
      with 1(2) have "loop st (Suc k) s' = Some r" by simp
      from 1(1) [OF this] Continue assms(3) show ?thesis by blast
    qed
  qed
  with assms(1,2) show ?thesis by blast
qed

lemma page_loop_total:
  assumes "P k s" "\<And>k s s'. P k s \<Longrightarrow> step k s = Continue s' \<Longrightarrow> P (Suc k) s'"
    and "\<And>k s. P k s \<Longrightarrow> n \<le> k \<Longrightarrow> \<exists>r. step k s = Stop r"
  shows "\<exists>r. page_loop step k s = Some r"
  using assms(1)
proof (induction "n - k" arbitrary: k s rule: less_induct)
  case less
  show ?case
  proof (cases "step k s")
    case (Stop r)
    then show ?thesis by (simp add: page_loop.simps)
  next
    case (Continue s')
    with assms(3) [OF less.prems] have "k < n" by (metis not_le page_step.distinct(1))
    then obtain r where "page_loop step (Suc k) s' = Some r"
      using less.hyps [OF _ assms(2) [OF less.prems Continue]] by fastforce
    with Continue show ?thesis by (subst page_loop.simps) simp
  qed
qed

end
