(* ===== verification/Poller_Accounting.thy ===== *)
theory Poller_Accounting
  imports Poller
begin

text \<open>
  What the ingestion loop guarantees about the ledgers it has passed: with a source that pages through the chain's events
  in ledger order, every event up to the cursor is stored or lies in a missed range that is still open, across any
  sequence of poll cycles, failures, shutdowns and replays; and every loop ends.
\<close>

section \<open>The chain and the source\<close>

definition from_ledger :: "int \<Rightarrow> event_info list \<Rightarrow> event_info list" where
  "from_ledger start chain = filter (\<lambda>e. start \<le> ei_ledger e) chain"

text \<open>
  What the documentation of \<^verbatim>\<open>getEvents\<close> promises a reader that follows the cursor: each request fails or
  returns the next slice of the events, and the cursor is missing only at the end.
\<close>

definition served :: "nat \<Rightarrow> event_info list \<Rightarrow> page_source \<Rightarrow> int \<Rightarrow> bool" where
  "served psize evs src start \<longleftrightarrow> (\<forall>k tok page. src k start tok = Inr page \<longrightarrow>
     pg_events page = take psize (drop (k * psize) evs) \<and> (pg_cursor page = None \<longrightarrow> length evs \<le> Suc k * psize))"

definition pages_chain :: "nat \<Rightarrow> event_info list \<Rightarrow> page_source \<Rightarrow> bool" where
  "pages_chain psize chain src \<longleftrightarrow> (\<forall>start. served psize (from_ledger start chain) src start)"

definition timestamps_parse :: "'c poll_env \<Rightarrow> event_info list \<Rightarrow> bool" where
  "timestamps_parse env chain \<longleftrightarrow> list_all (\<lambda>e. parse_ledger_closed_at (pv_decode env) (ei_closed_at e) \<noteq> None) chain"

section \<open>What is accounted for\<close>

definition stored_ids :: "'c indexer \<Rightarrow> string set" where
  "stored_ids ix = ne_event_id ` set (et_events (ix_tables ix))"

definition open_gap :: "'c indexer \<Rightarrow> int \<Rightarrow> bool" where
  "open_gap ix l \<longleftrightarrow> (\<exists>r \<in> set (ix_missed ix). \<not> mr_recovered r \<and> mr_from r \<le> l \<and> l \<le> mr_to r)"

definition accounted :: "'c indexer \<Rightarrow> event_info \<Rightarrow> bool" where
  "accounted ix ev \<longleftrightarrow> ei_id ev \<in> stored_ids ix \<or> open_gap ix (ei_ledger ev)"

definition all_accounted :: "event_info list \<Rightarrow> int \<Rightarrow> 'c indexer \<Rightarrow> bool" where
  "all_accounted chain first ix \<longleftrightarrow>
     (\<forall>ev \<in> set chain. \<forall>l. read_last_processed (ix_cursor ix) = Some l \<longrightarrow> first \<le> ei_ledger ev \<longrightarrow> ei_ledger ev \<le> l \<longrightarrow> accounted ix ev)"

text \<open>Range ids are unique and below the next id.\<close>

definition ids_ok :: "'c indexer \<Rightarrow> bool" where
  "ids_ok ix \<longleftrightarrow> distinct (map mr_id (ix_missed ix)) \<and> (\<forall>r \<in> set (ix_missed ix). mr_id r < ix_next_id ix)"

text \<open>
  Everything except the progress write only adds: stored events stay, ranges stay open, and the cursor stays where it
  is, or appears at ledger 0.
\<close>

definition grows :: "'c indexer \<Rightarrow> 'c indexer \<Rightarrow> bool" where
  "grows ix ix' \<longleftrightarrow> stored_ids ix \<subseteq> stored_ids ix' \<and> (\<exists>us. ix_missed ix' = ix_missed ix @ us)
     \<and> (ids_ok ix \<longrightarrow> ids_ok ix')
     \<and> (read_last_processed (ix_cursor ix') = read_last_processed (ix_cursor ix)
        \<or> read_last_processed (ix_cursor ix) = None \<and> read_last_processed (ix_cursor ix') = Some 0)"

lemma grows_refl [simp]: "grows ix ix"
  by (simp add: grows_def)

lemma grows_trans: "grows a b \<Longrightarrow> grows b c \<Longrightarrow> grows a c"
  by (fastforce simp: grows_def)

lemma grows_open_gap: "grows ix ix' \<Longrightarrow> open_gap ix l \<Longrightarrow> open_gap ix' l"
  by (auto simp: grows_def open_gap_def)

lemma grows_accounted: "grows ix ix' \<Longrightarrow> accounted ix ev \<Longrightarrow> accounted ix' ev"
  using grows_open_gap by (auto simp: accounted_def grows_def)

lemma grows_same:
  "ix_tables ix' = ix_tables ix \<Longrightarrow> ix_missed ix' = ix_missed ix \<Longrightarrow> ix_next_id ix' = ix_next_id ix \<Longrightarrow>
   ix_cursor ix' = ix_cursor ix \<Longrightarrow> grows ix ix'"
  by (simp add: grows_def stored_ids_def ids_ok_def)

lemma grows_missed: "grows ix (record_missed_range_classified a b r c ix)"
  by (auto simp: grows_def record_missed_range_classified_def stored_ids_def ids_ok_def)

lemma open_gap_recorded: "a \<le> l \<Longrightarrow> l \<le> b \<Longrightarrow> open_gap (record_missed_range_classified a b r c ix) l"
  by (simp add: open_gap_def record_missed_range_classified_def)

lemma accounted_cursor [simp]: "accounted (ix\<lparr>ix_cursor := t\<rparr>) ev = accounted ix ev"
  by (simp add: accounted_def stored_ids_def open_gap_def)

lemma grows_upsert: "grows ix (with_cursor (upsert_row f) ix)" if "\<And>r. cu_last_processed (f r) = cu_last_processed r"
  using that by (auto simp: grows_def with_cursor_def stored_ids_def ids_ok_def upsert_row_def read_last_processed_def fresh_row_def split: option.splits)

lemma grows_counters:
  "grows ix (with_cursor incr_errors ix)" "grows ix (with_cursor (track_enrichment a b) ix)"
  "grows ix (with_cursor (track_rpc_call a b c d) ix)" "grows ix (with_cursor (track_timestamp_parse_error a) ix)"
  "grows ix (with_cursor (set_consecutive_errors a) ix)"
  by (simp_all add: incr_errors_def [abs_def] track_enrichment_def [abs_def] track_rpc_call_def [abs_def]
      track_timestamp_parse_error_def [abs_def] set_consecutive_errors_def [abs_def] grows_upsert)

lemma with_cursor_comp: "with_cursor (\<lambda>t. f (g t)) ix = with_cursor f (with_cursor g ix)" "with_cursor id ix = ix"
  by (simp_all add: with_cursor_def)

lemma insert_events_ids:
  assumes "insert_events accepts ft es t = Inr (n, t')"
  shows "ne_event_id ` set (et_events t') = ne_event_id ` set (et_events t) \<union> ne_event_id ` set es"
proof -
  have "et_events t' = insert_new ne_event_id es (et_events t)"
    using assms by (auto simp: insert_events_def insert_events_with_resolver_def Let_def split: if_splits)
  then show ?thesis by simp
qed

lemma upsert_events_ids:
  assumes "upsert_events accepts es t = Inr (c, t')"
  shows "ne_event_id ` set (et_events t) \<subseteq> ne_event_id ` set (et_events t')"
proof -
  obtain i u where "upsert_events accepts es t = Inr ((i, u), t')" using assms by (cases c) simp
  from upsert_events_Inr(1) [OF this] show ?thesis by (auto simp: image_Un image_image)
qed

lemma grows_tables:
  "ne_event_id ` set (et_events (ix_tables ix)) \<subseteq> ne_event_id ` set (et_events t) \<Longrightarrow> grows ix (ix\<lparr>ix_tables := t\<rparr>)"
  by (simp add: grows_def stored_ids_def ids_ok_def)

lemma grows_specs_get: "specs_get env c l ix = (s, ix') \<Longrightarrow> grows ix ix'"
  by (rule grows_same) (auto simp: specs_get_def Let_def split: prod.splits)

lemma grows_snapshot_cycle: "grows ix (snapshot_cycle env cfg fs ix)"
  by (rule grows_same) (auto simp: snapshot_cycle_def Let_def split: option.splits)

lemma grows_track_cycle: "grows ix (track_cycle fs ix)"
  by (auto simp: track_cycle_def with_cursor_comp intro: grows_counters grows_trans [OF grows_counters(2) grows_counters(4)])

lemma grows_track_metrics: "grows ix (track_metrics m ix)"
  by (auto simp: track_metrics_def grows_counters split: prod.splits)

section \<open>One page of the fetch loop\<close>

lemma converts:
  assumes "parse_ledger_closed_at (pv_decode env) (ei_closed_at ev) \<noteq> None" "to_new_event (pv_decode env) ev spec = Inr r"
  shows "\<exists>ne. r = Some ne \<and> ne_event_id ne = ei_id ev"
  using assms by (auto simp: to_new_event_def Let_def split: option.splits)

lemma before_convert_facts:
  assumes "before_convert env cfg ev fs = (spec, fs')"
  shows "grows (fs_ix fs) (fs_ix fs')" "fs_last_seen fs' = max (fs_last_seen fs) (ei_ledger ev)"
    "fs_page_count fs' = fs_page_count fs"
  using assms by (auto simp: before_convert_def grows_specs_get split: prod.splits)

lemma note_event_facts [simp]:
  "fs_ix (note_event env cfg ne fs) = fs_ix fs" "fs_last_seen (note_event env cfg ne fs) = fs_last_seen fs"
  "fs_page_count (note_event env cfg ne fs) = fs_page_count fs"
  by (simp_all add: note_event_def Let_def)

lemma page_events_facts:
  assumes "page_events env cfg evs fs batch = (p, fs', batch')"
  shows "grows (fs_ix fs) (fs_ix fs')" "fs_page_count fs' = fs_page_count fs"
    and "length batch' \<le> length batch + length evs"
    and "p = None \<Longrightarrow> fs_last_seen fs' = fold max (map ei_ledger evs) (fs_last_seen fs)"
    and "p = None \<Longrightarrow> timestamps_parse env evs \<Longrightarrow> map ne_event_id batch' = map ne_event_id batch @ map ei_id evs"
proof -
  have "grows (fs_ix fs) (fs_ix fs') \<and> fs_page_count fs' = fs_page_count fs \<and> length batch' \<le> length batch + length evs
    \<and> (p = None \<longrightarrow> fs_last_seen fs' = fold max (map ei_ledger evs) (fs_last_seen fs)
       \<and> (timestamps_parse env evs \<longrightarrow> map ne_event_id batch' = map ne_event_id batch @ map ei_id evs))"
    using assms
  proof (induction evs arbitrary: fs batch)
    case (Cons ev evs)
    obtain spec fs1 where b: "before_convert env cfg ev fs = (spec, fs1)" by fastforce
    note bf = before_convert_facts [OF b]
    show ?case
    proof (cases "to_new_event (pv_decode env) ev spec")
      case (Inl q)
      with Cons.prems b bf show ?thesis by auto
    next
      case (Inr r)
      define fs2 where "fs2 = (case r of None \<Rightarrow> fs1\<lparr>fs_ts_errors := fs_ts_errors fs1 + 1\<rparr> | Some ne \<Rightarrow> note_event env cfg ne fs1)"
      define batch1 where "batch1 = (case r of None \<Rightarrow> batch | Some ne \<Rightarrow> batch @ [ne])"
      have "page_events env cfg evs fs2 batch1 = (p, fs', batch')"
        using Cons.prems b Inr by (auto simp: fs2_def batch1_def split: option.splits)
      note IH = Cons.IH [OF this]
      have "fs_ix fs2 = fs_ix fs1" "fs_last_seen fs2 = fs_last_seen fs1" "fs_page_count fs2 = fs_page_count fs1"
        "length batch1 \<le> Suc (length batch)"
        by (auto simp: fs2_def batch1_def split: option.splits)
      moreover have "map ne_event_id batch1 = map ne_event_id batch @ [ei_id ev]" if "timestamps_parse env (ev # evs)"
        using converts [OF _ Inr] that by (auto simp: batch1_def timestamps_parse_def)
      ultimately show ?thesis
        using IH bf grows_trans by (auto simp: timestamps_parse_def max.commute)
    qed
  qed simp
  then show "grows (fs_ix fs) (fs_ix fs')" "fs_page_count fs' = fs_page_count fs" "length batch' \<le> length batch + length evs"
    "p = None \<Longrightarrow> fs_last_seen fs' = fold max (map ei_ledger evs) (fs_last_seen fs)"
    "p = None \<Longrightarrow> timestamps_parse env evs \<Longrightarrow> map ne_event_id batch' = map ne_event_id batch @ map ei_id evs" by blast+
qed

lemma store_page_facts:
  assumes "store_page env cfg page fs = r"
  shows "r = Continue fs' \<or> r = Stop (e, fs') \<Longrightarrow> grows (fs_ix fs) (fs_ix fs') \<and> fs_page_count fs' = Suc (fs_page_count fs)"
    and "r = Continue fs' \<Longrightarrow> cf_page_size cfg \<le> length (pg_events page)"
    and "r = Continue fs' \<or> r = Stop (Broke, fs') \<Longrightarrow> fs_last_seen fs' = fold max (map ei_ledger (pg_events page)) (fs_last_seen fs)"
    and "r = Continue fs' \<or> r = Stop (Broke, fs') \<Longrightarrow> timestamps_parse env (pg_events page) \<Longrightarrow> ei_id ` set (pg_events page) \<subseteq> stored_ids (fs_ix fs')"
    and "r = Stop (Broke, fs') \<Longrightarrow> timestamps_parse env (pg_events page) \<Longrightarrow> length (pg_events page) < cf_page_size cfg \<or> pg_cursor page = None"
    and "r \<noteq> Stop (Cancelled, fs')"
proof -
  obtain p fs1 batch where pe: "page_events env cfg (pg_events page) (fs\<lparr>fs_page_count := fs_page_count fs + 1\<rparr>) [] = (p, fs1, batch)"
    by (metis prod.exhaust)
  note facts = page_events_facts [OF pe]
  have ids: "timestamps_parse env (pg_events page) \<Longrightarrow> p = None \<Longrightarrow> ei_id ` set (pg_events page) = ne_event_id ` set batch \<and> length batch = length (pg_events page)"
    using facts(5) by (metis append_Nil length_map list.map(1) list.set_map)
  have tab: "grows (fs_ix fs) ((fs_ix fs1)\<lparr>ix_tables := t\<rparr>) \<and> (\<forall>x \<in> set batch. ne_event_id x \<in> stored_ids ((fs_ix fs1)\<lparr>ix_tables := t\<rparr>))"
    if "insert_events (pv_accepts env) (de_float_text (pv_decode env)) batch (ix_tables (fs_ix fs1)) = Inr (n, t)" for n t
    using insert_events_ids [OF that] facts(1) grows_tables [of "fs_ix fs1" t]
    by (auto simp: stored_ids_def intro: grows_trans)
  note d = assms [unfolded store_page_def pe, symmetric]
  show "r = Continue fs' \<or> r = Stop (e, fs') \<Longrightarrow> grows (fs_ix fs) (fs_ix fs') \<and> fs_page_count fs' = Suc (fs_page_count fs)"
    and "r = Continue fs' \<Longrightarrow> cf_page_size cfg \<le> length (pg_events page)"
    and "r = Continue fs' \<or> r = Stop (Broke, fs') \<Longrightarrow> fs_last_seen fs' = fold max (map ei_ledger (pg_events page)) (fs_last_seen fs)"
    and "r = Continue fs' \<or> r = Stop (Broke, fs') \<Longrightarrow> timestamps_parse env (pg_events page) \<Longrightarrow> ei_id ` set (pg_events page) \<subseteq> stored_ids (fs_ix fs')"
    and "r = Stop (Broke, fs') \<Longrightarrow> timestamps_parse env (pg_events page) \<Longrightarrow> length (pg_events page) < cf_page_size cfg \<or> pg_cursor page = None"
    and "r \<noteq> Stop (Cancelled, fs')"
    using d facts ids by (auto simp: Let_def dest!: tab split: option.splits sum.splits if_splits)
qed

section \<open>The fetch loop\<close>

text \<open>The invariant before the \<open>k\<close>-th request.\<close>

definition fetch_inv :: "'c poll_env \<Rightarrow> nat \<Rightarrow> event_info list \<Rightarrow> 'c indexer \<Rightarrow> nat \<Rightarrow> 'c fetch_state \<Rightarrow> bool" where
  "fetch_inv env psize evs ix k fs \<longleftrightarrow> grows ix (fs_ix fs) \<and> fs_page_count fs = k
     \<and> (timestamps_parse env evs \<longrightarrow> ei_id ` set (take (k * psize) evs) \<subseteq> stored_ids (fs_ix fs))
     \<and> (\<forall>ev \<in> set (drop (k * psize) evs). fs_last_seen fs \<le> ei_ledger ev)"

lemma take_page: "take (Suc k * n) xs = take (k * n) xs @ take n (drop (k * n) xs)"
  by (metis add.commute mult_Suc take_add)

lemma drop_page: "drop n (drop (k * n) xs) = drop (Suc k * n) xs"
  by (simp add: add.commute)

lemma fold_max_le: "fold max xs (a :: int) \<le> b \<longleftrightarrow> a \<le> b \<and> (\<forall>x \<in> set xs. x \<le> b)"
  by (induction xs arbitrary: a) auto

lemma timestamps_sub: "timestamps_parse env evs \<Longrightarrow> set xs \<subseteq> set evs \<Longrightarrow> timestamps_parse env xs"
  by (auto simp: timestamps_parse_def list_all_iff)

lemma later_pages:
  assumes "sorted (map ei_ledger evs)" "ev \<in> set (drop (Suc k * n) evs)" "e \<in> set (take n (drop (k * n) evs))"
  shows "ei_ledger e \<le> ei_ledger ev"
proof -
  let ?xs = "drop (k * n) evs"
  have "sorted (map ei_ledger ?xs)" using assms(1) by (metis drop_map sorted_wrt_drop)
  then have "sorted (map ei_ledger (take n ?xs) @ map ei_ledger (drop n ?xs))"
    by (metis append_take_drop_id map_append)
  with assms(2,3) show ?thesis by (auto simp: sorted_append drop_page)
qed

text \<open>How a run of the loop can end.\<close>

definition fetch_outcome ::
  "'c poll_env \<Rightarrow> event_info list \<Rightarrow> (nat \<Rightarrow> bool) \<Rightarrow> int \<Rightarrow> 'c indexer \<Rightarrow> fetch_end \<times> 'c fetch_state \<Rightarrow> bool" where
  "fetch_outcome env evs cancelled tip ix = (\<lambda>(r, fs). grows ix (fs_ix fs)
     \<and> (r = Cancelled \<longrightarrow> (\<exists>k. cancelled k))
     \<and> (r = Broke \<longrightarrow> timestamps_parse env evs \<longrightarrow> (\<forall>ev \<in> set evs. ei_ledger ev \<le> tip \<longrightarrow> accounted (fs_ix fs) ev)))"

lemma fetch_step_continue:
  assumes sv: "served (cf_page_size cfg) evs src start" and srt: "sorted (map ei_ledger evs)"
    and inv: "fetch_inv env (cf_page_size cfg) evs ix k fs"
    and step: "fetch_step env cfg src cancelled show_err start tip k fs = Continue fs'"
  shows "fetch_inv env (cf_page_size cfg) evs ix (Suc k) fs'" "cf_page_size cfg \<le> length (drop (k * cf_page_size cfg) evs)"
proof -
  let ?n = "cf_page_size cfg"
  obtain page where page: "src k start (fs_token fs) = Inr page" and st: "store_page env cfg page fs = Continue fs'"
    using step by (auto simp: fetch_step_def split: if_splits sum.splits)
  have evs: "pg_events page = take ?n (drop (k * ?n) evs)" using sv page by (auto simp: served_def)
  note f = store_page_facts [OF st, of fs']
  show "?n \<le> length (drop (k * ?n) evs)" using f(2) by (simp add: evs)
  have "set (pg_events page) \<subseteq> set evs" by (metis evs set_drop_subset set_take_subset subset_trans)
  then have "timestamps_parse env evs \<longrightarrow> ei_id ` set (take (Suc k * ?n) evs) \<subseteq> stored_ids (fs_ix fs')"
    using f(1,4) inv timestamps_sub [of env evs "pg_events page"]
    by (auto simp: fetch_inv_def take_page evs grows_def simp del: mult_Suc)
  moreover have "\<forall>ev \<in> set (drop (Suc k * ?n) evs). fs_last_seen fs' \<le> ei_ledger ev"
  proof
    fix ev assume ev: "ev \<in> set (drop (Suc k * ?n) evs)"
    then have "ev \<in> set (drop (k * ?n) evs)" by (metis drop_page in_set_dropD)
    with inv have "fs_last_seen fs \<le> ei_ledger ev" by (simp add: fetch_inv_def)
    with later_pages [OF srt ev] f(3) show "fs_last_seen fs' \<le> ei_ledger ev" by (auto simp: evs fold_max_le)
  qed
  ultimately show "fetch_inv env ?n evs ix (Suc k) fs'"
    using f(1) inv by (auto simp: fetch_inv_def intro: grows_trans)
qed

lemma fetch_step_stop:
  assumes sv: "served (cf_page_size cfg) evs src start"
    and inv: "fetch_inv env (cf_page_size cfg) evs ix k fs"
    and step: "fetch_step env cfg src cancelled show_err start tip k fs = Stop r"
  shows "fetch_outcome env evs cancelled tip ix r"
proof -
  let ?n = "cf_page_size cfg"
  have split: "ev \<in> set (take (k * ?n) evs) \<or> ev \<in> set (drop (k * ?n) evs)" if "ev \<in> set evs" for ev
    using that by (metis Un_iff append_take_drop_id set_append)
  consider "cancelled k" | e where "\<not> cancelled k" "src k start (fs_token fs) = Inl e"
    | page where "\<not> cancelled k" "src k start (fs_token fs) = Inr page" by (cases "src k start (fs_token fs)") auto
  then show ?thesis
  proof cases
    case 1
    with step inv show ?thesis by (auto simp: fetch_step_def fetch_outcome_def fetch_inv_def)
  next
    case 2
    let ?ix = "record_missed_range (fs_last_seen fs) tip (show_err e) (with_cursor incr_errors (fs_ix fs))"
    have g: "grows (fs_ix fs) ?ix"
      unfolding record_missed_range_def by (rule grows_trans [OF grows_counters(1) grows_missed])
    have gap: "open_gap ?ix l" if "fs_last_seen fs \<le> l" "l \<le> tip" for l
      using that by (simp add: open_gap_def record_missed_range_def record_missed_range_classified_def)
    have "accounted ?ix ev" if "timestamps_parse env evs" "ev \<in> set evs" "ei_ledger ev \<le> tip" for ev
      using split [OF that(2)] gap that inv g by (auto simp: accounted_def fetch_inv_def grows_def)
    with 2 step inv g show ?thesis
      by (auto simp: fetch_step_def fetch_outcome_def fetch_inv_def intro: grows_trans split: if_splits)
  next
    case 3
    obtain q fs' where r: "r = (q, fs')" by (cases r)
    have st: "store_page env cfg page fs = Stop (q, fs')" using step 3 r by (simp add: fetch_step_def)
    note f = store_page_facts [OF st, of fs']
    have evs: "pg_events page = take ?n (drop (k * ?n) evs)" "pg_cursor page = None \<Longrightarrow> length evs \<le> Suc k * ?n"
      using sv 3(2) by (auto simp: served_def)
    have "accounted fs_ix' ev" if "q = Broke" "timestamps_parse env evs" "ev \<in> set evs" "fs_ix' = fs_ix fs'" for ev fs_ix'
    proof -
      have "timestamps_parse env (pg_events page)"
        using timestamps_sub [OF that(2)] by (metis evs(1) set_drop_subset set_take_subset subset_trans)
      then have "length evs \<le> Suc k * ?n" "ei_id ` set (pg_events page) \<subseteq> stored_ids (fs_ix fs')"
        using f(4,5) that(1) evs by auto
      moreover have "ev \<in> set (take (Suc k * ?n) evs)" using that(3) calculation(1) by simp
      ultimately show ?thesis
        using inv f(1) [of q] that st evs(1) by (auto simp: accounted_def fetch_inv_def take_page grows_def simp del: mult_Suc)
    qed
    with f(1) [of q] f(6) st r inv show ?thesis
      by (auto simp: fetch_outcome_def fetch_inv_def intro: grows_trans)
  qed
qed

lemma fetch_loop:
  assumes "served (cf_page_size cfg) evs src start" "sorted (map ei_ledger evs)" "0 < cf_page_size cfg"
    and "\<forall>ev \<in> set evs. start \<le> ei_ledger ev"
  shows "\<exists>r. page_loop (fetch_step env cfg src cancelled show_err start tip) 0 (fetch_init start ix) = Some r
    \<and> fetch_outcome env evs cancelled tip ix r"
proof -
  let ?n = "cf_page_size cfg" and ?step = "fetch_step env cfg src cancelled show_err start tip"
  have init: "fetch_inv env ?n evs ix 0 (fetch_init start ix)"
    using assms(4) by (simp add: fetch_inv_def fetch_init_def)
  note cont = fetch_step_continue [OF assms(1,2)]
  have "\<exists>r. ?step k fs = Stop r" if "fetch_inv env ?n evs ix k fs" "Suc (length evs) \<le> k" for k fs
  proof (cases "?step k fs")
    case (Continue fs')
    from cont(2) [OF that(1) Continue] have "?n \<le> length evs - k * ?n" by simp
    moreover have "k * 1 \<le> k * ?n" using assms(3) by (intro mult_le_mono2) simp
    ultimately show ?thesis using assms(3) that(2) by linarith
  qed simp
  note stops = this
  have "\<exists>r. page_loop ?step 0 (fetch_init start ix) = Some r"
    by (rule page_loop_total [where P = "fetch_inv env ?n evs ix" and n = "Suc (length evs)"]) (use init cont(1) stops in blast)+
  then obtain r where r: "page_loop ?step 0 (fetch_init start ix) = Some r" by blast
  have "fetch_outcome env evs cancelled tip ix r"
    by (rule page_loop_inv [OF r, where P = "fetch_inv env ?n evs ix" and Q = "fetch_outcome env evs cancelled tip ix"])
      (use init cont(1) fetch_step_stop [OF assms(1)] in blast)+
  with r show ?thesis by blast
qed

lemma fetch_result:
  assumes "served (cf_page_size cfg) evs src start" "sorted (map ei_ledger evs)" "0 < cf_page_size cfg"
    and "\<forall>ev \<in> set evs. start \<le> ei_ledger ev"
  obtains r ix' where "fetch_and_store_with_shutdown env cfg src cancelled show_err start tip ix = Some (r, ix')" "grows ix ix'"
    "\<not> isl r \<Longrightarrow> (\<And>k. \<not> cancelled k) \<Longrightarrow> timestamps_parse env evs \<Longrightarrow> \<forall>ev \<in> set evs. ei_ledger ev \<le> tip \<longrightarrow> accounted ix' ev"
proof -
  obtain q fs where q: "page_loop (fetch_step env cfg src cancelled show_err start tip) 0 (fetch_init start ix) = Some (q, fs)"
    and o: "fetch_outcome env evs cancelled tip ix (q, fs)"
    using fetch_loop [OF assms, of env cancelled show_err tip ix] by (metis prod.exhaust)
  let ?ix = "snapshot_cycle env cfg fs (track_cycle fs (fs_ix fs))"
  have g: "grows (fs_ix fs) ?ix" by (rule grows_trans [OF grows_track_cycle grows_snapshot_cycle])
  show ?thesis
  proof (cases q)
    case Broke
    show ?thesis
    proof (rule that)
      show "fetch_and_store_with_shutdown env cfg src cancelled show_err start tip ix
          = Some (Inr (fs_inserted fs, fs_enriched fs, fs_not_enriched fs), ?ix)"
        by (simp add: fetch_and_store_with_shutdown_def q Broke)
    qed (use o g Broke in \<open>auto simp: fetch_outcome_def intro: grows_trans grows_accounted\<close>)
  next
    case Cancelled
    show ?thesis
    proof (rule that)
      show "fetch_and_store_with_shutdown env cfg src cancelled show_err start tip ix
          = Some (Inr (fs_inserted fs, fs_enriched fs, fs_not_enriched fs), fs_ix fs)"
        by (simp add: fetch_and_store_with_shutdown_def q Cancelled)
    qed (use o Cancelled in \<open>auto simp: fetch_outcome_def\<close>)
  next
    case (Failed e)
    show ?thesis
    proof (rule that)
      show "fetch_and_store_with_shutdown env cfg src cancelled show_err start tip ix = Some (Inl e, fs_ix fs)"
        by (simp add: fetch_and_store_with_shutdown_def q Failed)
    qed (use o Failed in \<open>auto simp: fetch_outcome_def\<close>)
  qed
qed

section \<open>The re-scan only adds\<close>

lemma rescan_events_facts:
  "rescan_events env fin evs rs batch = (r, rs', batch') \<Longrightarrow>
   grows (rs_ix rs) (rs_ix rs') \<and> length batch' \<le> length batch + length evs"
proof (induction evs arbitrary: rs batch)
  case (Cons ev evs)
  obtain spec ix where g: "specs_get env (ei_contract_id ev) (ei_ledger ev) (rs_ix rs) = (spec, ix)" by fastforce
  note grows_specs_get [OF g]
  with Cons g show ?case
    by (fastforce simp: Let_def intro: grows_trans split: if_splits sum.splits option.splits)
qed simp

lemma grows_track_rescan:
  assumes "grows ix (rs_ix rs)"
  shows "grows ix (rs_ix (track_rescan b rs))"
proof (rule grows_trans [OF assms])
  show "grows (rs_ix rs) (rs_ix (track_rescan b rs))"
    by (auto simp: track_rescan_def with_cursor_comp intro: grows_counters grows_trans [OF grows_counters(2) grows_counters(4)])
qed

lemma rescan_step_facts:
  assumes "rescan_step env cfg src cancelled start fin k rs = r"
  shows "r = Continue rs' \<Longrightarrow> grows (rs_ix rs) (rs_ix rs')
      \<and> (\<exists>page. src k start (rs_token rs) = Inr page \<and> cf_page_size cfg \<le> length (pg_events page))"
    and "r = Stop (q, ix) \<Longrightarrow> grows (rs_ix rs) ix"
proof -
  have *: "(r = Continue rs' \<longrightarrow> grows (rs_ix rs) (rs_ix rs')
      \<and> (\<exists>page. src k start (rs_token rs) = Inr page \<and> cf_page_size cfg \<le> length (pg_events page)))
    \<and> (r = Stop (q, ix) \<longrightarrow> grows (rs_ix rs) ix)"
  proof (cases "cancelled k \<or> isl (src k start (rs_token rs))")
    case True
    with assms show ?thesis by (auto simp: rescan_step_def split: sum.splits if_splits)
  next
    case False
    then obtain page where page: "src k start (rs_token rs) = Inr page" "\<not> cancelled k" by (cases "src k start (rs_token rs)") auto
    obtain p stop rs1 batch where e: "rescan_events env fin (pg_events page) rs [] = ((p, stop), rs1, batch)" by (metis prod.exhaust)
    note f = rescan_events_facts [OF e]
    have up: "grows (rs_ix rs) ((rs_ix rs1)\<lparr>ix_tables := t\<rparr>)"
      if "upsert_events (pv_accepts env) batch (ix_tables (rs_ix rs1)) = Inr (c, t)" for c t
      using upsert_events_ids [OF that] f by (intro grows_trans [OF _ grows_tables]) simp_all
    show ?thesis
      using assms page e f
      by (auto simp: rescan_step_def Let_def dest!: up intro!: grows_track_rescan split: if_splits sum.splits option.splits bool.splits)
  qed
  from * show "r = Continue rs' \<Longrightarrow> grows (rs_ix rs) (rs_ix rs')
      \<and> (\<exists>page. src k start (rs_token rs) = Inr page \<and> cf_page_size cfg \<le> length (pg_events page))" by blast
  from * show "r = Stop (q, ix) \<Longrightarrow> grows (rs_ix rs) ix" by blast
qed

text \<open>A loop that goes on only after a full page of a served source ends.\<close>

lemma full_page_bound:
  assumes "served psize evs src start" "src k start tok = Inr page" "psize \<le> length (pg_events page)" "0 < psize"
  shows "k < Suc (length evs)"
proof -
  have "psize \<le> length evs - k * psize" using assms by (simp add: served_def)
  moreover have "k * 1 \<le> k * psize" using assms(4) by (intro mult_le_mono2) simp
  ultimately show ?thesis using assms(4) by linarith
qed

lemma rescan_result:
  assumes "served (cf_page_size cfg) evs src start" "0 < cf_page_size cfg"
  obtains r ix' where "fetch_and_upsert env cfg src cancelled start fin ix = Some (r, ix')" "grows ix ix'"
proof -
  let ?step = "rescan_step env cfg src cancelled start fin"
  define P where "P k rs \<longleftrightarrow> grows ix (rs_ix rs)" for k :: nat and rs :: "'a rescan_state"
  have init: "P 0 (rescan_init ix)" by (simp add: P_def rescan_init_def)
  have cont: "P (Suc k) rs'" if "P k rs" "?step k rs = Continue rs'" for k rs rs'
    using rescan_step_facts(1) [OF that(2)] that(1) by (auto simp: P_def intro: grows_trans)
  have stop: "\<exists>r. ?step k rs = Stop r" if "Suc (length evs) \<le> k" for k rs
  proof (cases "?step k rs")
    case (Continue rs')
    from rescan_step_facts(1) [OF Continue] full_page_bound [OF assms(1) _ _ assms(2)] that show ?thesis by fastforce
  qed simp
  have "\<exists>r. page_loop ?step 0 (rescan_init ix) = Some r"
    by (rule page_loop_total [where P = P and n = "Suc (length evs)"]) (use init cont stop in blast)+
  then obtain r ix' where r: "page_loop ?step 0 (rescan_init ix) = Some (r, ix')" by auto
  have final: "grows ix (snd q)" if "P k rs" "?step k rs = Stop q" for k rs q
    using rescan_step_facts(2) [OF that(2)] that(1) by (cases q) (auto simp: P_def intro: grows_trans)
  have "grows ix (snd (r, ix'))"
    by (rule page_loop_inv [OF r, where P = P and Q = "\<lambda>q. grows ix (snd q)"]) (use init cont final in blast)+
  with r show ?thesis by (intro that) (simp_all add: fetch_and_upsert_def)
qed

section \<open>A poll cycle\<close>

lemma oldest_available_grows: "oldest_available latest health ix = (o1, ix') \<Longrightarrow> grows ix ix'"
  by (auto simp: oldest_available_def Let_def grows_def stored_ids_def ids_ok_def split: sum.splits if_splits)

text \<open>Clamping moves the start forward and records what it skips.\<close>

definition skipped :: "int \<Rightarrow> int \<times> 'c indexer \<Rightarrow> int \<times> 'c indexer \<Rightarrow> bool" where
  "skipped latest = (\<lambda>(a, ix) (b, ix'). grows ix ix' \<and> (\<forall>l. a \<le> l \<longrightarrow> l < b \<longrightarrow> open_gap ix' l))"

lemma skipped_retention: "skipped latest p (clamp_retention oldest p)"
  by (auto simp: skipped_def clamp_retention_def grows_missed open_gap_recorded split: prod.splits)

lemma skipped_catchup: "skipped latest p (clamp_catchup cfg latest p)"
  by (auto simp: skipped_def clamp_catchup_def Let_def grows_missed open_gap_recorded split: prod.splits)

lemma skipped_trans: "skipped latest p q \<Longrightarrow> skipped latest q r \<Longrightarrow> skipped latest p r"
  by (auto simp: skipped_def intro: grows_trans) (metis grows_open_gap linorder_not_le)

lemma skipped_clamps: "skipped latest p (clamp_catchup cfg latest (clamp_retention oldest p))"
  by (rule skipped_trans [OF skipped_retention skipped_catchup])

lemma all_accounted_grows:
  assumes "grows ix ix'" "all_accounted chain first ix" "\<forall>ev \<in> set chain. 0 < ei_ledger ev"
  shows "all_accounted chain first ix'"
proof -
  have "accounted ix' ev" if "ev \<in> set chain" "read_last_processed (ix_cursor ix') = Some l" "first \<le> ei_ledger ev" "ei_ledger ev \<le> l" for ev l
  proof -
    have "read_last_processed (ix_cursor ix) = Some l"
      using assms(1,3) that by (fastforce simp: grows_def)
    with assms(2) that show ?thesis by (auto simp: all_accounted_def intro: grows_accounted [OF assms(1)])
  qed
  then show ?thesis by (auto simp: all_accounted_def)
qed

text \<open>What every step keeps, the progress write included.\<close>

definition evolves :: "'c indexer \<Rightarrow> 'c indexer \<Rightarrow> bool" where
  "evolves ix ix' \<longleftrightarrow> (ids_ok ix \<longrightarrow> ids_ok ix') \<and> (ix_cursor ix \<noteq> None \<longrightarrow> ix_cursor ix' \<noteq> None)"

lemma evolves_trans: "evolves a b \<Longrightarrow> evolves b c \<Longrightarrow> evolves a c"
  by (auto simp: evolves_def)

lemma grows_evolves: "grows ix ix' \<Longrightarrow> evolves ix ix'"
  by (auto simp: grows_def evolves_def read_last_processed_def)

lemma advance_evolves: "advance l tip d q ix = (r, ix') \<Longrightarrow> evolves ix ix'"
  by (auto simp: advance_def evolves_def ids_ok_def write_progress_def read_version_def update_progress_def
      split: sum.splits option.splits if_splits)

lemma advance_accounted:
  assumes "advance l tip d q ix = (r, ix')" "all_accounted chain first ix"
    and "\<forall>ev \<in> set chain. first \<le> ei_ledger ev \<longrightarrow> ei_ledger ev \<le> l \<longrightarrow> accounted ix ev"
  shows "all_accounted chain first ix'" "r = Inr q' \<Longrightarrow> q' = q \<and> read_last_processed (ix_cursor ix') = Some l"
proof -
  have "read_last_processed t = Some l" if "write_progress l tip d (ix_cursor ix) = Inr t" for t
    using that by (auto simp: write_progress_def read_version_def update_progress_def read_last_processed_def split: option.splits if_splits)
  with assms show "all_accounted chain first ix'" "r = Inr q' \<Longrightarrow> q' = q \<and> read_last_processed (ix_cursor ix') = Some l"
    by (auto simp: advance_def all_accounted_def split: sum.splits)
qed

text \<open>The events of the chain from the cursor on, as the paging source serves them.\<close>

lemma from_ledger_facts:
  assumes "sorted (map ei_ledger chain)"
  shows "sorted (map ei_ledger (from_ledger start chain))" "\<forall>ev \<in> set (from_ledger start chain). start \<le> ei_ledger ev"
    "timestamps_parse env chain \<Longrightarrow> timestamps_parse env (from_ledger start chain)"
  using assms by (auto simp: from_ledger_def sorted_filter timestamps_parse_def list_all_iff)

lemma finish_cycle_result:
  assumes pg: "pages_chain (cf_page_size cfg) chain (cy_rescan cy)" "0 < cf_page_size cfg"
    and pos: "\<forall>ev \<in> set chain. 0 < ei_ledger ev" and acc: "all_accounted chain first ix"
    and upto: "\<forall>ev \<in> set chain. first \<le> ei_ledger ev \<longrightarrow> ei_ledger ev \<le> latest \<longrightarrow> accounted ix ev"
  obtains r ix' where "finish_cycle env cfg cy latest inserted ix = Some (r, ix')" "all_accounted chain first ix'" "evolves ix ix'"
    "\<And>q. r = Inr q \<Longrightarrow> q = Some latest \<and> read_last_processed (ix_cursor ix') = Some latest"
proof -
  let ?o = "cf_reorg_overlap_ledgers cfg"
  obtain r1 ix1 where rescan: "(if ?o > 0 \<and> latest > ?o
        then fetch_and_upsert env cfg (cy_rescan cy) (cy_cancelled_rescan cy) (latest - ?o) latest ix else Some (Inr 0, ix)) = Some (r1, ix1)"
      and g: "grows ix ix1"
  proof (cases "?o > 0 \<and> latest > ?o")
    case True
    have "served (cf_page_size cfg) (from_ledger (latest - ?o) chain) (cy_rescan cy) (latest - ?o)"
      using pg(1) by (simp add: pages_chain_def)
    from rescan_result [OF this pg(2), of env "cy_cancelled_rescan cy" latest ix] True that show ?thesis by metis
  next
    case False
    then show ?thesis using that [of "Inr 0" ix] by auto
  qed
  show ?thesis
  proof (cases r1)
    case (Inl e)
    show ?thesis
      by (rule that [of "Inl e" ix1])
        (use rescan Inl all_accounted_grows [OF g acc pos] grows_evolves [OF g] in \<open>simp_all add: finish_cycle_def Let_def\<close>)
  next
    case (Inr n)
    let ?ix = "track_metrics (cy_metrics cy) ix1"
    obtain r ix' where adv: "advance latest latest (int inserted) (Some latest) ?ix = (r, ix')" by fastforce
    have g': "grows ix ?ix" by (rule grows_trans [OF g grows_track_metrics])
    have "\<forall>ev \<in> set chain. first \<le> ei_ledger ev \<longrightarrow> ei_ledger ev \<le> latest \<longrightarrow> accounted ?ix ev"
      using upto grows_accounted [OF g'] by blast
    note res = advance_accounted [OF adv all_accounted_grows [OF g' acc pos] this]
    show ?thesis
      by (rule that [of r ix'])
        (use rescan Inr adv res evolves_trans [OF grows_evolves [OF g'] advance_evolves [OF adv]] in \<open>simp_all add: finish_cycle_def Let_def\<close>)
  qed
qed

definition cancellation_permanent :: "cycle_input \<Rightarrow> bool" where
  "cancellation_permanent cy \<longleftrightarrow> (\<forall>k. cy_cancelled cy k \<longrightarrow> cy_cancelled_after cy)"

lemma clamped_fetch:
  assumes chain: "sorted (map ei_ledger chain)" "timestamps_parse env chain"
    and src: "pages_chain (cf_page_size cfg) chain src" "0 < cf_page_size cfg"
    and before: "\<And>ev. ev \<in> set chain \<Longrightarrow> first \<le> ei_ledger ev \<Longrightarrow> ei_ledger ev < start \<Longrightarrow> accounted ix ev"
    and cl: "clamp_catchup cfg latest (clamp_retention oldest (start, ix)) = (start2, ix2)"
  obtains r ix' where "fetch_and_store_with_shutdown env cfg src cancelled show_err start2 latest ix2 = Some (r, ix')" "grows ix ix'"
    "\<not> isl r \<Longrightarrow> (\<And>k. \<not> cancelled k) \<Longrightarrow> \<forall>ev \<in> set chain. first \<le> ei_ledger ev \<longrightarrow> ei_ledger ev \<le> latest \<longrightarrow> accounted ix' ev"
proof -
  have sk: "grows ix ix2" "\<And>l. start \<le> l \<Longrightarrow> l < start2 \<Longrightarrow> open_gap ix2 l"
    using skipped_clamps [of latest "(start, ix)" cfg oldest] cl by (simp_all add: skipped_def)
  let ?evs = "from_ledger start2 chain"
  have sv: "served (cf_page_size cfg) ?evs src start2" using src(1) by (simp add: pages_chain_def)
  note fl = from_ledger_facts [OF chain(1), where start = start2]
  obtain r ix' where f: "fetch_and_store_with_shutdown env cfg src cancelled show_err start2 latest ix2 = Some (r, ix')" "grows ix2 ix'"
    "\<not> isl r \<Longrightarrow> (\<And>k. \<not> cancelled k) \<Longrightarrow> timestamps_parse env ?evs \<Longrightarrow> \<forall>ev \<in> set ?evs. ei_ledger ev \<le> latest \<longrightarrow> accounted ix' ev"
    by (rule fetch_result [OF sv fl(1) src(2) fl(2), of env cancelled show_err latest ix2]) blast
  have g: "grows ix ix'" by (rule grows_trans [OF sk(1) f(2)])
  show ?thesis
  proof (rule that [OF f(1) g], intro ballI impI)
    fix ev assume live: "\<not> isl r" "\<And>k. \<not> cancelled k" and ev: "ev \<in> set chain" "first \<le> ei_ledger ev" "ei_ledger ev \<le> latest"
    consider "ei_ledger ev < start" | "start \<le> ei_ledger ev" "ei_ledger ev < start2" | "start2 \<le> ei_ledger ev" by linarith
    then show "accounted ix' ev"
    proof cases
      case 1
      then show ?thesis using before [OF ev(1,2)] grows_accounted [OF g] by blast
    next
      case 2
      then show ?thesis using sk(2) grows_open_gap [OF f(2)] by (auto simp: accounted_def)
    next
      case 3
      with f(3) [OF live fl(3) [OF chain(2)]] ev show ?thesis by (simp add: from_ledger_def)
    qed
  qed
qed

lemma poll_once_accounts:
  assumes chain: "sorted (map ei_ledger chain)" "\<forall>ev \<in> set chain. 0 < ei_ledger ev" "timestamps_parse env chain"
    and src: "pages_chain (cf_page_size cfg) chain (cy_pages cy)" "pages_chain (cf_page_size cfg) chain (cy_rescan cy)"
    and cfg: "0 < cf_page_size cfg" and canc: "cancellation_permanent cy"
    and acc: "all_accounted chain first ix"
    and fresh: "\<And>latest. cy_latest cy = Inr latest \<Longrightarrow> ix_cursor ix = None \<Longrightarrow> start_of cfg latest ix \<le> first"
  obtains r ix' where "poll_once env cfg cy ix = Some (r, ix')" "all_accounted chain first ix'" "evolves ix ix'"
    "\<And>latest. r = Inr (Some latest) \<Longrightarrow> \<not> cy_cancelled_after cy \<Longrightarrow> read_last_processed (ix_cursor ix') = Some latest"
proof (cases "cy_latest cy")
  case (Inl e)
  show ?thesis by (rule that [of "Inl (PollRpc e)" ix]) (use acc Inl in \<open>simp_all add: poll_once_def evolves_def\<close>)
next
  case (Inr latest)
  obtain oldest ix1 where o: "oldest_available latest (cy_health cy) ix = (oldest, ix1)" by fastforce
  have cur: "ix_cursor ix1 = ix_cursor ix" using o by (auto simp: oldest_available_def Let_def split: sum.splits if_splits)
  note acc1 = all_accounted_grows [OF oldest_available_grows [OF o] acc chain(2)]
  note ev1 = grows_evolves [OF oldest_available_grows [OF o]]
  define start where "start = start_of cfg latest ix1"
  have before: "accounted ix1 ev" if "ev \<in> set chain" "first \<le> ei_ledger ev" "ei_ledger ev < start" for ev
    using that fresh [OF Inr] acc1 cur
    by (cases "ix_cursor ix") (auto simp: start_def start_of_def all_accounted_def read_last_processed_def)
  show ?thesis
  proof (cases "start > latest")
    case True
    obtain r ix' where adv: "advance (start - 1) latest 0 None ix1 = (r, ix')" by fastforce
    show ?thesis
      by (rule that [of r ix'])
        (use Inr o True adv advance_accounted [OF adv acc1] before ev1 evolves_trans [OF ev1 advance_evolves [OF adv]]
          in \<open>auto simp: poll_once_def Let_def start_def\<close>)
  next
    case False
    obtain start2 ix2 where cl: "clamp_catchup cfg latest (clamp_retention oldest (start, ix1)) = (start2, ix2)" by fastforce
    obtain r3 ix3 where f: "fetch_and_store_with_shutdown env cfg (cy_pages cy) (cy_cancelled cy) (cy_show_err cy) start2 latest ix2 = Some (r3, ix3)"
        "grows ix1 ix3"
        "\<not> isl r3 \<Longrightarrow> (\<And>k. \<not> cy_cancelled cy k) \<Longrightarrow> \<forall>ev \<in> set chain. first \<le> ei_ledger ev \<longrightarrow> ei_ledger ev \<le> latest \<longrightarrow> accounted ix3 ev"
      by (rule clamped_fetch [OF chain(1,3) src(1) cfg before cl, where cancelled = "cy_cancelled cy" and show_err = "cy_show_err cy"]) blast+
    note acc3 = all_accounted_grows [OF f(2) acc1 chain(2)]
    note ev3 = evolves_trans [OF ev1 grows_evolves [OF f(2)]]
    have step: "poll_once env cfg cy ix = (case r3 of Inl e \<Rightarrow> Some (Inl e, ix3)
        | Inr (inserted, _) \<Rightarrow> if cy_cancelled_after cy then Some (Inr (Some latest), ix3) else finish_cycle env cfg cy latest inserted ix3)"
      using Inr o False cl f(1) by (simp add: poll_once_def Let_def start_def)
    show ?thesis
    proof (cases "isl r3 \<or> cy_cancelled_after cy")
      case True
      then obtain q where "poll_once env cfg cy ix = Some (q, ix3)" "isl q \<or> cy_cancelled_after cy"
        using step by (auto split: sum.splits prod.splits if_splits)
      with acc3 ev3 show ?thesis by (intro that [of q ix3]) auto
    next
      case live: False
      then obtain inserted m where r3: "r3 = Inr (inserted, m)" by (cases r3) auto
      have upto: "\<forall>ev \<in> set chain. first \<le> ei_ledger ev \<longrightarrow> ei_ledger ev \<le> latest \<longrightarrow> accounted ix3 ev"
        using f(3) live canc by (auto simp: cancellation_permanent_def)
      show ?thesis
        by (rule finish_cycle_result [OF src(2) cfg chain(2) acc3 upto, of env inserted], rule that)
          (use step r3 live evolves_trans [OF ev3] in auto)
    qed
  qed
qed

end
