(* ===== verification/Gap_Replay.thy ===== *)
theory Gap_Replay
  imports Poller_Accounting
begin

text \<open>
  The replay of missed ranges, and the guarantee over whole histories of the indexer: poll cycles and replays in any
  order keep every ledger up to the cursor accounted for.
\<close>

section \<open>One page of a replay\<close>

abbreviation within :: "int \<Rightarrow> event_info list \<Rightarrow> event_info list" where
  "within l evs \<equiv> takeWhile (\<lambda>e. ei_ledger e \<le> l) evs"

lemma gap_events_facts:
  assumes "gap_events env l evs ix batch = ((p, stop), ix', batch')"
  shows "grows ix ix'" "length batch' \<le> length batch + length evs" "ix_missed ix' = ix_missed ix"
    and "p = None \<Longrightarrow> timestamps_parse env evs \<Longrightarrow> map ne_event_id batch' = map ne_event_id batch @ map ei_id (within l evs)"
    and "p = None \<Longrightarrow> stop \<longleftrightarrow> within l evs \<noteq> evs"
proof -
  have "grows ix ix' \<and> length batch' \<le> length batch + length evs \<and> ix_missed ix' = ix_missed ix
    \<and> (p = None \<longrightarrow> timestamps_parse env evs \<longrightarrow> map ne_event_id batch' = map ne_event_id batch @ map ei_id (within l evs))
    \<and> (p = None \<longrightarrow> stop = (within l evs \<noteq> evs))"
    using assms
  proof (induction evs arbitrary: ix batch)
    case (Cons ev evs)
    obtain spec ix1 where g: "specs_get env (ei_contract_id ev) (ei_ledger ev) ix = (spec, ix1)" by fastforce
    have m: "ix_missed ix1 = ix_missed ix" using g by (auto simp: specs_get_def Let_def split: prod.splits)
    show ?case
    proof (cases "ei_ledger ev > l \<or> isl (to_new_event (pv_decode env) ev spec)")
      case True
      with Cons.prems g m grows_specs_get [OF g] show ?thesis by (auto split: sum.splits if_splits)
    next
      case False
      then obtain r where r: "to_new_event (pv_decode env) ev spec = Inr r"
        by (cases "to_new_event (pv_decode env) ev spec") auto
      define batch1 where "batch1 = (case r of None \<Rightarrow> batch | Some ne \<Rightarrow> batch @ [ne])"
      have "gap_events env l evs ix1 batch1 = ((p, stop), ix', batch')"
        using Cons.prems g r False by (auto simp: batch1_def split: option.splits)
      note IH = Cons.IH [OF this]
      have "length batch1 \<le> Suc (length batch)" by (auto simp: batch1_def split: option.splits)
      moreover have "map ne_event_id batch1 = map ne_event_id batch @ [ei_id ev]" if "timestamps_parse env (ev # evs)"
        using converts [OF _ r] that by (auto simp: batch1_def timestamps_parse_def)
      ultimately show ?thesis
        using IH grows_specs_get [OF g] m False by (auto simp: timestamps_parse_def intro: grows_trans)
    qed
  qed auto
  then show "grows ix ix'" "length batch' \<le> length batch + length evs" "ix_missed ix' = ix_missed ix"
    "p = None \<Longrightarrow> timestamps_parse env evs \<Longrightarrow> map ne_event_id batch' = map ne_event_id batch @ map ei_id (within l evs)"
    "p = None \<Longrightarrow> stop \<longleftrightarrow> within l evs \<noteq> evs" by blast+
qed

text \<open>What a replay does to the indexer: it stores events, and touches neither ranges nor the cursor.\<close>

definition stores_only :: "'c indexer \<Rightarrow> 'c indexer \<Rightarrow> bool" where
  "stores_only ix ix' \<longleftrightarrow> grows ix ix' \<and> ix_missed ix' = ix_missed ix"

lemma stores_only_trans: "stores_only a b \<Longrightarrow> stores_only b c \<Longrightarrow> stores_only a c"
  by (auto simp: stores_only_def intro: grows_trans)

lemma gap_store:
  assumes "(if batch = [] then Inr (0, ix_tables ix) else insert_events acc ft batch (ix_tables ix)) = Inr (n, t)"
  shows "stores_only ix (ix\<lparr>ix_tables := t\<rparr>)" "ne_event_id ` set batch \<subseteq> stored_ids (ix\<lparr>ix_tables := t\<rparr>)"
  using assms insert_events_ids [of acc ft batch "ix_tables ix" n t]
  by (auto simp: stores_only_def stored_ids_def intro!: grows_tables split: if_splits)

text \<open>What is known when the loop goes on after a page, and when it ends with one.\<close>

definition page_stored :: "'c poll_env \<Rightarrow> poll_config \<Rightarrow> events_page \<Rightarrow> 'c indexer \<Rightarrow> bool" where
  "page_stored env cfg page ix' \<longleftrightarrow> cf_page_size cfg \<le> length (pg_events page)
     \<and> (timestamps_parse env (pg_events page) \<longrightarrow> ei_id ` set (pg_events page) \<subseteq> stored_ids ix')"

definition last_page_stored :: "'c poll_env \<Rightarrow> poll_config \<Rightarrow> int \<Rightarrow> events_page \<Rightarrow> 'c indexer \<Rightarrow> bool" where
  "last_page_stored env cfg l page ix' \<longleftrightarrow> (timestamps_parse env (pg_events page) \<longrightarrow>
     ei_id ` set (within l (pg_events page)) \<subseteq> stored_ids ix'
     \<and> (within l (pg_events page) \<noteq> pg_events page \<or> length (pg_events page) < cf_page_size cfg \<or> pg_cursor page = None))"

definition gap_outcome ::
  "'c poll_env \<Rightarrow> poll_config \<Rightarrow> int \<Rightarrow> 'c gap_state \<Rightarrow> rpc_failure + events_page \<Rightarrow>
   ('c gap_state, (poll_error + nat) \<times> 'c indexer) page_step \<Rightarrow> bool" where
  "gap_outcome env cfg l gs answer r \<longleftrightarrow> (case r of
      Continue gs' \<Rightarrow> stores_only (gs_ix gs) (gs_ix gs') \<and> (\<exists>page. answer = Inr page \<and> page_stored env cfg page (gs_ix gs'))
    | Stop (q, ix') \<Rightarrow> stores_only (gs_ix gs) ix' \<and> (isl q \<or> (\<exists>page. answer = Inr page \<and> last_page_stored env cfg l page ix')))"

lemma gap_page_outcome:
  assumes e: "gap_events env l (pg_events page) (gs_ix gs) [] = ((None, stop), ix1, batch)"
    and s: "(if batch = [] then Inr (0, ix_tables ix1)
          else insert_events (pv_accepts env) (de_float_text (pv_decode env)) batch (ix_tables ix1)) = Inr (n, t)"
    and r: "r = (let gs2 = gs\<lparr>gs_ix := ix1\<lparr>ix_tables := t\<rparr>, gs_inserted := gs_inserted gs + n, gs_token := pg_cursor page\<rparr>
            in if stop \<or> length batch < cf_page_size cfg \<or> pg_cursor page = None then Stop (Inr (gs_inserted gs2), gs_ix gs2) else Continue gs2)"
  shows "gap_outcome env cfg l gs (Inr page) r"
proof -
  define w where "w = within l (pg_events page)"
  note f = gap_events_facts [OF e, folded w_def]
  have ids: "ne_event_id ` set batch = ei_id ` set w \<and> length batch = length w" if "timestamps_parse env (pg_events page)"
    using f(4) [OF refl that] by (metis append_Nil length_map list.map(1) list.set_map)
  note st = gap_store [OF s]
  have "stores_only (gs_ix gs) (ix1\<lparr>ix_tables := t\<rparr>)"
    using stores_only_trans [OF _ st(1)] f(1,3) by (simp add: stores_only_def)
  then show ?thesis
    using r st(2) ids f(2) f(5) [OF refl]
    by (auto simp: gap_outcome_def page_stored_def last_page_stored_def Let_def w_def [symmetric] simp del: takeWhile_eq_all_conv split: if_splits)
qed

lemma gap_step_outcome:
  "gap_outcome env cfg (mr_to gap) gs (src k (mr_from gap) (gs_token gs)) (gap_step env cfg src gap k gs)"
proof (cases "src k (mr_from gap) (gs_token gs)")
  case (Inl e)
  then show ?thesis by (simp add: gap_step_def gap_outcome_def stores_only_def)
next
  case (Inr page)
  obtain p stop ix1 batch where e: "gap_events env (mr_to gap) (pg_events page) (gs_ix gs) [] = ((p, stop), ix1, batch)"
    by (metis prod.exhaust)
  have s1: "stores_only (gs_ix gs) ix1" using gap_events_facts(1,3) [OF e] by (simp add: stores_only_def)
  show ?thesis
  proof (cases p)
    case (Some a)
    with Inr e s1 show ?thesis by (simp add: gap_step_def gap_outcome_def)
  next
    case None
    define st where "st = (if batch = [] then Inr (0, ix_tables ix1)
        else insert_events (pv_accepts env) (de_float_text (pv_decode env)) batch (ix_tables ix1))"
    note d = gap_step_def [of env cfg src gap k gs, unfolded Inr sum.case e None prod.case option.case, folded st_def]
    show ?thesis
    proof (cases st)
      case (Inl e)
      with s1 show ?thesis unfolding d by (simp add: gap_outcome_def)
    next
      case st: (Inr nt)
      obtain n t where nt: "nt = (n, t)" by (cases nt)
      show ?thesis
        unfolding Inr by (rule gap_page_outcome [OF e [unfolded None] st [unfolded st_def nt]]) (simp add: d st nt Let_def)
    qed
  qed
qed

section \<open>A replayed range\<close>

definition gap_inv :: "'c poll_env \<Rightarrow> nat \<Rightarrow> event_info list \<Rightarrow> 'c indexer \<Rightarrow> nat \<Rightarrow> 'c gap_state \<Rightarrow> bool" where
  "gap_inv env psize evs ix k gs \<longleftrightarrow> stores_only ix (gs_ix gs)
     \<and> (timestamps_parse env evs \<longrightarrow> ei_id ` set (take (k * psize) evs) \<subseteq> stored_ids (gs_ix gs))"

definition gap_done :: "'c poll_env \<Rightarrow> event_info list \<Rightarrow> int \<Rightarrow> 'c indexer \<Rightarrow> (poll_error + nat) \<times> 'c indexer \<Rightarrow> bool" where
  "gap_done env evs l ix = (\<lambda>(q, ix'). stores_only ix ix'
     \<and> (isl q \<or> (timestamps_parse env evs \<longrightarrow> (\<forall>ev \<in> set evs. ei_ledger ev \<le> l \<longrightarrow> ei_id ev \<in> stored_ids ix'))))"

lemma stores_only_ids: "stores_only ix ix' \<Longrightarrow> stored_ids ix \<subseteq> stored_ids ix'"
  by (simp add: stores_only_def grows_def)

lemma page_in_evs: "served psize evs src start \<Longrightarrow> src k start tok = Inr page \<Longrightarrow> set (pg_events page) \<subseteq> set evs"
  by (metis served_def set_drop_subset set_take_subset subset_trans)

lemma gap_step_continue:
  assumes sv: "served (cf_page_size cfg) evs src (mr_from gap)"
    and inv: "gap_inv env (cf_page_size cfg) evs ix k gs" and step: "gap_step env cfg src gap k gs = Continue gs'"
  shows "gap_inv env (cf_page_size cfg) evs ix (Suc k) gs'"
    and "\<exists>page. src k (mr_from gap) (gs_token gs) = Inr page \<and> cf_page_size cfg \<le> length (pg_events page)"
proof -
  obtain page where page: "src k (mr_from gap) (gs_token gs) = Inr page" "page_stored env cfg page (gs_ix gs')"
      "stores_only (gs_ix gs) (gs_ix gs')"
    using gap_step_outcome [of env cfg gap gs src k] step by (auto simp: gap_outcome_def)
  show "\<exists>page. src k (mr_from gap) (gs_token gs) = Inr page \<and> cf_page_size cfg \<le> length (pg_events page)"
    using page by (auto simp: page_stored_def)
  have "pg_events page = take (cf_page_size cfg) (drop (k * cf_page_size cfg) evs)" using sv page(1) by (simp add: served_def)
  with page inv stores_only_ids [OF page(3)] timestamps_sub [OF _ page_in_evs [OF sv page(1)]]
  show "gap_inv env (cf_page_size cfg) evs ix (Suc k) gs'"
    by (auto simp: gap_inv_def page_stored_def take_page image_Un simp del: mult_Suc intro: stores_only_trans)
qed

text \<open>Past the first event beyond the range, sorted events are all beyond it.\<close>

lemma beyond_within:
  assumes "sorted (map ei_ledger (xs @ ys))" "within l xs \<noteq> xs" "ev \<in> set ys"
  shows "l < ei_ledger ev"
proof -
  obtain x where "x \<in> set xs" "l < ei_ledger x"
    using assms(2) by (metis linorder_not_le takeWhile_eq_all_conv)
  with assms(1,3) show ?thesis by (fastforce simp: sorted_append)
qed

lemma within_sorted: "sorted (map ei_ledger xs) \<Longrightarrow> ev \<in> set xs \<Longrightarrow> ei_ledger ev \<le> l \<Longrightarrow> ev \<in> set (within l xs)"
  by (induction xs) (auto intro: order_trans)

lemma gap_step_stop:
  assumes sv: "served (cf_page_size cfg) evs src (mr_from gap)" and srt: "sorted (map ei_ledger evs)"
    and inv: "gap_inv env (cf_page_size cfg) evs ix k gs" and step: "gap_step env cfg src gap k gs = Stop (q, ix')"
  shows "gap_done env evs (mr_to gap) ix (q, ix')"
proof -
  let ?n = "cf_page_size cfg" and ?l = "mr_to gap"
  have so: "stores_only (gs_ix gs) ix'" and last: "isl q \<or> (\<exists>page. src k (mr_from gap) (gs_token gs) = Inr page \<and> last_page_stored env cfg ?l page ix')"
    using gap_step_outcome [of env cfg gap gs src k] step by (auto simp: gap_outcome_def)
  have "ei_id ev \<in> stored_ids ix'" if live: "\<not> isl q" and ts: "timestamps_parse env evs" and ev: "ev \<in> set evs" and le: "ei_ledger ev \<le> ?l" for ev
  proof -
    obtain page where page: "src k (mr_from gap) (gs_token gs) = Inr page" "last_page_stored env cfg ?l page ix'" using last live by blast
    have evs: "pg_events page = take ?n (drop (k * ?n) evs)" "pg_cursor page = None \<Longrightarrow> length evs \<le> Suc k * ?n"
      using sv page(1) by (auto simp: served_def)
    have fin: "ei_id ` set (within ?l (pg_events page)) \<subseteq> stored_ids ix'"
        "within ?l (pg_events page) \<noteq> pg_events page \<or> length evs \<le> Suc k * ?n"
      using page(2) timestamps_sub [OF ts page_in_evs [OF sv page(1)]] evs by (auto simp: last_page_stored_def)
    have split: "evs = take (k * ?n) evs @ pg_events page @ drop (Suc k * ?n) evs"
      using evs(1) by (metis append_assoc append_take_drop_id take_page)
    have srt': "sorted (map ei_ledger (pg_events page @ drop (Suc k * ?n) evs))"
      using srt split by (metis map_append sorted_append)
    consider "ev \<in> set (take (k * ?n) evs)" | "ev \<in> set (pg_events page)" | "ev \<in> set (drop (Suc k * ?n) evs)"
      using ev split by (metis Un_iff set_append)
    then show ?thesis
    proof cases
      case 1
      with inv ts stores_only_ids [OF so] show ?thesis by (auto simp: gap_inv_def)
    next
      case 2
      have "sorted (map ei_ledger (pg_events page))" using srt' by (simp add: sorted_append)
      from within_sorted [OF this 2 le] fin(1) show ?thesis by auto
    next
      case 3
      then have "\<not> length evs \<le> Suc k * ?n" by (metis drop_all empty_iff empty_set)
      with fin(2) beyond_within [OF srt' _ 3] le show ?thesis by (metis linorder_not_le)
    qed
  qed
  with so inv show ?thesis by (auto simp: gap_done_def gap_inv_def intro: stores_only_trans)
qed

lemma gap_loop_result:
  assumes "served (cf_page_size cfg) evs src (mr_from gap)" "sorted (map ei_ledger evs)" "0 < cf_page_size cfg"
  obtains r where "page_loop (gap_step env cfg src gap) 0 \<lparr>gs_ix = ix, gs_token = None, gs_inserted = 0\<rparr> = Some r"
    "gap_done env evs (mr_to gap) ix r"
proof -
  let ?P = "gap_inv env (cf_page_size cfg) evs ix" and ?step = "gap_step env cfg src gap"
  let ?init = "\<lparr>gs_ix = ix, gs_token = None, gs_inserted = 0\<rparr>"
  have init: "?P 0 ?init" by (simp add: gap_inv_def stores_only_def)
  note cont = gap_step_continue [OF assms(1)]
  have stop: "\<exists>r. ?step k gs = Stop r" if "?P k gs" "Suc (length evs) \<le> k" for k gs
  proof (cases "?step k gs")
    case (Continue gs')
    from cont(2) [OF that(1) Continue] full_page_bound [OF assms(1) _ _ assms(3)] that(2) show ?thesis by fastforce
  qed simp
  have fin: "gap_done env evs (mr_to gap) ix q" if "?P k gs" "?step k gs = Stop q" for k gs q
    using gap_step_stop [OF assms(1,2) that(1), of "fst q" "snd q"] that(2) by simp
  have "\<exists>r. page_loop ?step 0 ?init = Some r"
    by (rule page_loop_total [where P = ?P and n = "Suc (length evs)"]) (use init cont(1) stop in blast)+
  then obtain r where r: "page_loop ?step 0 ?init = Some r" by blast
  have "gap_done env evs (mr_to gap) ix r"
    by (rule page_loop_inv [OF r, where P = ?P and Q = "gap_done env evs (mr_to gap) ix"]) (use init cont(1) fin in blast)+
  with r show ?thesis by (rule that)
qed

section \<open>Replaying all ranges\<close>

lemma mark_recovered_gap:
  assumes "ids_ok ix" "gap \<in> set (ix_missed ix)" "open_gap ix l" "\<not> (mr_from gap \<le> l \<and> l \<le> mr_to gap)"
  shows "open_gap (mark_recovered (mr_id gap) ix) l"
proof -
  obtain r where r: "r \<in> set (ix_missed ix)" "\<not> mr_recovered r" "mr_from r \<le> l" "l \<le> mr_to r"
    using assms(3) by (auto simp: open_gap_def)
  have "mr_id r \<noteq> mr_id gap"
    using assms(1,2,4) r unfolding ids_ok_def distinct_map by (auto dest: inj_onD)
  with r show ?thesis by (force simp: open_gap_def mark_recovered_def)
qed

lemma mark_recovered_facts [simp]:
  "stored_ids (mark_recovered i ix) = stored_ids ix" "ix_cursor (mark_recovered i ix) = ix_cursor ix"
  "ids_ok (mark_recovered i ix) = ids_ok ix"
proof -
  have ids: "map mr_id (ix_missed (mark_recovered i ix)) = map mr_id (ix_missed ix)"
    by (simp add: mark_recovered_def)
  then have "mr_id ` set (ix_missed (mark_recovered i ix)) = mr_id ` set (ix_missed ix)" by (metis list.set_map)
  moreover have "ids_ok ix2 \<longleftrightarrow> distinct (map mr_id (ix_missed ix2)) \<and> (\<forall>j \<in> mr_id ` set (ix_missed ix2). j < ix_next_id ix2)" for ix2 :: "'a indexer"
    by (auto simp: ids_ok_def)
  moreover have "ix_next_id (mark_recovered i ix) = ix_next_id ix" by (simp add: mark_recovered_def)
  ultimately show "ids_ok (mark_recovered i ix) = ids_ok ix" using ids by metis
qed (simp_all add: mark_recovered_def stored_ids_def)

definition mark_all :: "missed_range list \<Rightarrow> missed_range list \<Rightarrow> missed_range list" where
  "mark_all gaps rs = map (\<lambda>r. if mr_id r \<in> mr_id ` set gaps then r\<lparr>mr_recovered := True\<rparr> else r) rs"

text \<open>After a range is replayed, marking it leaves every ledger accounted for.\<close>

lemma replayed_accounted:
  assumes acc: "all_accounted chain first ix" "ids_ok ix" "gap \<in> set (ix_missed ix)"
    and st: "stores_only ix ix'" "\<forall>ev \<in> set chain. 0 < ei_ledger ev"
    and ids: "\<And>ev. ev \<in> set chain \<Longrightarrow> mr_from gap \<le> ei_ledger ev \<Longrightarrow> ei_ledger ev \<le> mr_to gap \<Longrightarrow> ei_id ev \<in> stored_ids ix'"
  shows "all_accounted chain first (mark_recovered (mr_id gap) ix')"
proof -
  have g: "grows ix ix'" "ix_missed ix' = ix_missed ix" using st(1) by (simp_all add: stores_only_def)
  have ok: "ids_ok ix'" using g(1) acc(2) by (simp add: grows_def)
  have "accounted (mark_recovered (mr_id gap) ix') ev" if "ev \<in> set chain" "accounted ix' ev" for ev
    using that ids [OF that(1)] mark_recovered_gap [OF ok, of gap "ei_ledger ev"] acc(3) g(2) by (auto simp: accounted_def)
  with all_accounted_grows [OF g(1) acc(1) st(2)] show ?thesis by (auto simp: all_accounted_def)
qed

lemma gap_loop_accounts:
  assumes chain: "sorted (map ei_ledger chain)" "\<forall>ev \<in> set chain. 0 < ei_ledger ev" "timestamps_parse env chain"
    and src: "\<And>gap. gap \<in> set gaps \<Longrightarrow> pages_chain (cf_page_size cfg) chain (srcs (mr_id gap))" and cfg: "0 < cf_page_size cfg"
    and gaps: "distinct (map mr_id gaps)" "set gaps \<subseteq> set (ix_missed ix)"
    and acc: "all_accounted chain first ix" "ids_ok ix"
  shows "\<exists>r ix'. gap_loop env cfg srcs gaps ix = Some (r, ix') \<and> all_accounted chain first ix' \<and> evolves ix ix'
    \<and> (isl r \<or> ix_missed ix' = mark_all gaps (ix_missed ix))"
  using gaps acc src
proof (induction gaps arbitrary: ix)
  case (Cons gap gaps)
  let ?evs = "from_ledger (mr_from gap) chain"
  have sv: "served (cf_page_size cfg) ?evs (srcs (mr_id gap)) (mr_from gap)" using Cons.prems(5) by (simp add: pages_chain_def)
  note fl = from_ledger_facts [OF chain(1), where start = "mr_from gap"]
  obtain q ix1 where loop: "page_loop (gap_step env cfg (srcs (mr_id gap)) gap) 0 \<lparr>gs_ix = ix, gs_token = None, gs_inserted = 0\<rparr> = Some (q, ix1)"
      and fin: "gap_done env ?evs (mr_to gap) ix (q, ix1)"
    using gap_loop_result [OF sv fl(1) cfg, of env ix] by (metis prod.exhaust)
  have st: "stores_only ix ix1" using fin by (simp add: gap_done_def)
  then have g: "grows ix ix1" "ix_missed ix1 = ix_missed ix" by (simp_all add: stores_only_def)
  show ?case
  proof (cases q)
    case (Inl e)
    with loop all_accounted_grows [OF g(1) Cons.prems(3) chain(2)] grows_evolves [OF g(1)] show ?thesis by auto
  next
    case (Inr n)
    let ?ix = "mark_recovered (mr_id gap) ix1"
    have "ei_id ev \<in> stored_ids ix1" if "ev \<in> set chain" "mr_from gap \<le> ei_ledger ev" "ei_ledger ev \<le> mr_to gap" for ev
      using fin Inr that fl(3) [OF chain(3)] by (auto simp: gap_done_def from_ledger_def)
    then have acc1: "all_accounted chain first ?ix" "ids_ok ?ix"
      using replayed_accounted [OF Cons.prems(3,4) _ st chain(2)] Cons.prems(2,4) g by (auto simp: grows_def)
    have "set gaps \<subseteq> set (ix_missed ?ix)"
    proof
      fix r assume "r \<in> set gaps"
      then have "r \<in> set (ix_missed ix1)" "mr_id r \<noteq> mr_id gap" using Cons.prems(1,2) g(2) by (auto simp: image_iff)
      then show "r \<in> set (ix_missed ?ix)" by (force simp: mark_recovered_def)
    qed
    with Cons.IH [of ?ix] Cons.prems(1,5) acc1 obtain r ix' where
        rest: "gap_loop env cfg srcs gaps ?ix = Some (r, ix')" "all_accounted chain first ix'" "evolves ?ix ix'"
          "isl r \<or> ix_missed ix' = mark_all gaps (ix_missed ?ix)" by auto
    moreover have "mark_all gaps (ix_missed ?ix) = mark_all (gap # gaps) (ix_missed ix)"
      using g(2) by (auto simp: mark_all_def mark_recovered_def)
    moreover have "evolves ix ?ix" using grows_evolves [OF g(1)] by (simp add: evolves_def)
    ultimately show ?thesis using loop Inr evolves_trans by auto
  qed
qed (simp add: mark_all_def evolves_def)

lemma unrecovered_facts:
  assumes "ids_ok ix"
  shows "distinct (map mr_id (unrecovered ix))" "set (unrecovered ix) \<subseteq> set (ix_missed ix)"
proof -
  have "distinct (map mr_id (filter (\<lambda>r. \<not> mr_recovered r \<and> mr_recoverable r) (ix_missed ix)))"
    using assms by (simp add: ids_ok_def distinct_map_filter)
  then show "distinct (map mr_id (unrecovered ix))"
    unfolding unrecovered_def by (simp add: distinct_map)
qed (auto simp: unrecovered_def)

lemma recover_gaps_accounts:
  assumes chain: "sorted (map ei_ledger chain)" "\<forall>ev \<in> set chain. 0 < ei_ledger ev" "timestamps_parse env chain"
    and src: "\<And>i. pages_chain (cf_page_size cfg) chain (srcs i)" and cfg: "0 < cf_page_size cfg"
    and acc: "all_accounted chain first ix" "ids_ok ix"
  shows "\<exists>r ix'. recover_gaps env cfg srcs ix = Some (r, ix') \<and> all_accounted chain first ix' \<and> evolves ix ix' \<and> (isl r \<or> unrecovered ix' = [])"
proof -
  obtain r ix' where r: "recover_gaps env cfg srcs ix = Some (r, ix')" "all_accounted chain first ix'" "evolves ix ix'"
      "isl r \<or> ix_missed ix' = mark_all (unrecovered ix) (ix_missed ix)"
    using gap_loop_accounts [where srcs = srcs, OF chain src cfg unrecovered_facts [OF acc(2)] acc] by (auto simp: recover_gaps_def)
  have "filter (\<lambda>r. \<not> mr_recovered r \<and> mr_recoverable r) (mark_all (unrecovered ix) (ix_missed ix)) = []"
    by (auto simp: mark_all_def filter_empty_conv unrecovered_def)
  with r show ?thesis by (auto simp: unrecovered_def)
qed

section \<open>Histories\<close>

text \<open>
  A history of the indexer: poll cycles, whatever their outcome, and replays, in any order. \<open>polled\<close> and
  \<open>replayed\<close> hold the conditions on the outside of a step.
\<close>

definition polled :: "event_info list \<Rightarrow> poll_config \<Rightarrow> cycle_input \<Rightarrow> bool" where
  "polled chain cfg cy \<longleftrightarrow> pages_chain (cf_page_size cfg) chain (cy_pages cy)
     \<and> pages_chain (cf_page_size cfg) chain (cy_rescan cy) \<and> cancellation_permanent cy"

inductive history :: "'c poll_env \<Rightarrow> poll_config \<Rightarrow> event_info list \<Rightarrow> 'c indexer \<Rightarrow> 'c indexer \<Rightarrow> bool"
  for env cfg chain where
  history_start: "history env cfg chain ix ix"
| history_poll: "history env cfg chain ix ix1 \<Longrightarrow> polled chain cfg cy \<Longrightarrow> poll_once env cfg cy ix1 = Some (r, ix2)
    \<Longrightarrow> history env cfg chain ix ix2"
| history_replay: "history env cfg chain ix ix1 \<Longrightarrow> (\<And>i. pages_chain (cf_page_size cfg) chain (srcs i)) \<Longrightarrow>
    recover_gaps env cfg srcs ix1 = Some (r, ix2) \<Longrightarrow> history env cfg chain ix ix2"

lemma history_accounts:
  assumes chain: "sorted (map ei_ledger chain)" "\<forall>ev \<in> set chain. 0 < ei_ledger ev" "timestamps_parse env chain"
    and cfg: "0 < cf_page_size cfg"
    and start: "all_accounted chain first ix" "ids_ok ix" "ix_cursor ix \<noteq> None \<or> 0 < cf_start_ledger cfg \<and> cf_start_ledger cfg \<le> first"
    and h: "history env cfg chain ix ix'"
  shows "all_accounted chain first ix' \<and> ids_ok ix' \<and> (ix_cursor ix' \<noteq> None \<or> 0 < cf_start_ledger cfg \<and> cf_start_ledger cfg \<le> first)"
  using h start
proof (induction rule: history.induct)
  case (history_poll ix ix1 cy r ix2)
  then have inv: "all_accounted chain first ix1" "ids_ok ix1" "ix_cursor ix1 \<noteq> None \<or> 0 < cf_start_ledger cfg \<and> cf_start_ledger cfg \<le> first"
    by blast+
  have src: "pages_chain (cf_page_size cfg) chain (cy_pages cy)" "pages_chain (cf_page_size cfg) chain (cy_rescan cy)" "cancellation_permanent cy"
    using history_poll(2) by (simp_all add: polled_def)
  have fresh: "start_of cfg latest ix1 \<le> first" if "ix_cursor ix1 = None" for latest
    using inv(3) that by (simp add: start_of_def read_last_processed_def)
  from poll_once_accounts [OF chain src(1,2) cfg src(3) inv(1) fresh] history_poll(3) have "all_accounted chain first ix2" "evolves ix1 ix2"
    by (metis option.inject prod.inject)+
  with inv show ?case by (auto simp: evolves_def)
next
  case (history_replay ix ix1 srcs r ix2)
  then have inv: "all_accounted chain first ix1" "ids_ok ix1" "ix_cursor ix1 \<noteq> None \<or> 0 < cf_start_ledger cfg \<and> cf_start_ledger cfg \<le> first"
    by blast+
  from recover_gaps_accounts [where srcs = srcs, OF chain history_replay(2) cfg inv(1,2)] history_replay(3)
  have "all_accounted chain first ix2" "evolves ix1 ix2" by auto
  with inv show ?case by (auto simp: evolves_def)
qed simp

section \<open>The guarantees\<close>




section \<open>A page with a bad timestamp\<close>

lemma to_new_event_bad:
  "parse_ledger_closed_at (pv_decode env) (ei_closed_at ev) = None \<Longrightarrow> to_new_event (pv_decode env) ev spec = Inr None"
  by (simp add: to_new_event_def)

lemma to_new_event_id: "to_new_event (pv_decode env) ev spec = Inr (Some ne) \<Longrightarrow> ne_event_id ne = ei_id ev"
  by (auto simp: to_new_event_def Let_def split: option.splits)

lemma page_events_batch:
  assumes "page_events env cfg evs fs batch = (p, fs', batch')"
  shows "length batch' + length (filter (\<lambda>e. parse_ledger_closed_at (pv_decode env) (ei_closed_at e) = None) evs) \<le> length batch + length evs \<or> p \<noteq> None"
    and "ne_event_id ` set batch' \<subseteq> ne_event_id ` set batch \<union> ei_id ` set evs"
    and "ix_tables (fs_ix fs') = ix_tables (fs_ix fs)" "ix_missed (fs_ix fs') = ix_missed (fs_ix fs)"
proof -
  let ?bad = "\<lambda>e. parse_ledger_closed_at (pv_decode env) (ei_closed_at e) = None"
  have "(length batch' + length (filter ?bad evs) \<le> length batch + length evs \<or> p \<noteq> None)
     \<and> ne_event_id ` set batch' \<subseteq> ne_event_id ` set batch \<union> ei_id ` set evs
     \<and> ix_tables (fs_ix fs') = ix_tables (fs_ix fs) \<and> ix_missed (fs_ix fs') = ix_missed (fs_ix fs)"
    using assms
  proof (induction evs arbitrary: fs batch)
    case (Cons ev evs)
    obtain spec fs1 where b: "before_convert env cfg ev fs = (spec, fs1)" by fastforce
    have keep: "ix_tables (fs_ix fs1) = ix_tables (fs_ix fs)" "ix_missed (fs_ix fs1) = ix_missed (fs_ix fs)"
      using b by (auto simp: before_convert_def specs_get_def Let_def split: prod.splits)
    show ?case
    proof (cases "to_new_event (pv_decode env) ev spec")
      case (Inl q)
      with Cons.prems b keep show ?thesis by auto
    next
      case (Inr r)
      show ?thesis
      proof (cases r)
        case None
        with Cons.prems b Inr have "page_events env cfg evs (fs1\<lparr>fs_ts_errors := fs_ts_errors fs1 + 1\<rparr>) batch = (p, fs', batch')" by simp
        from Cons.IH [OF this] keep show ?thesis by auto
      next
        case (Some ne)
        with Cons.prems b Inr have "page_events env cfg evs (note_event env cfg ne fs1) (batch @ [ne]) = (p, fs', batch')" by simp
        from Cons.IH [OF this] keep to_new_event_id [OF Inr [unfolded Some]] to_new_event_bad [of env ev spec] Inr Some show ?thesis by auto
      qed
    qed
  qed simp
  then show "length batch' + length (filter ?bad evs) \<le> length batch + length evs \<or> p \<noteq> None"
    "ne_event_id ` set batch' \<subseteq> ne_event_id ` set batch \<union> ei_id ` set evs"
    "ix_tables (fs_ix fs') = ix_tables (fs_ix fs)" "ix_missed (fs_ix fs') = ix_missed (fs_ix fs)" by blast+
qed

lemma track_and_snapshot_keep:
  "stored_ids (snapshot_cycle env cfg fs (track_cycle fs ix)) = stored_ids ix"
  "ix_missed (snapshot_cycle env cfg fs (track_cycle fs ix)) = ix_missed ix"
  by (auto simp: snapshot_cycle_def track_cycle_def with_cursor_def stored_ids_def Let_def split: option.splits)


section \<open>Samples\<close>

definition sample_info :: "string \<Rightarrow> int \<Rightarrow> string \<Rightarrow> event_info" where
  "sample_info i l t = \<lparr>ei_type = ''contract'', ei_ledger = l, ei_closed_at = t, ei_contract_id = ''C'', ei_id = i,
     ei_paging_token = i, ei_in_successful_call = True, ei_tx_hash = [], ei_topic = [], ei_value = []\<rparr>"

definition sample_env :: "((string \<times> cached) list) poll_env" where
  "sample_env = \<lparr>pv_decode = \<lparr>de_base64 = (\<lambda>s. None), de_read_xdr = (\<lambda>b. None), de_address = (\<lambda>a. []), de_lossy = text_of_bytes,
       de_visit = (\<lambda>m. m), de_rfc3339 = (\<lambda>s. if s = ''t'' then Some 0 else None), de_from_secs = (\<lambda>i. None), de_float_text = (\<lambda>w. [])\<rparr>,
     pv_accepts = (\<lambda>j. True),
     pv_spec = \<lparr>sp_ops = lru_list 4, sp_parse = demo_env, sp_wasm_of = (\<lambda>c. Inr None), sp_now = 0\<rparr>,
     pv_snap = sample_snap, pv_addr = (\<lambda>s. None), pv_instance_of = (\<lambda>c. Inr None), pv_instances_of = (\<lambda>cs. Inr []),
     pv_data_batch = (\<lambda>ks. Inr []), pv_visit_set = (\<lambda>x. x), pv_visit_holders = (\<lambda>x. x), pv_visit_templates = (\<lambda>x. x)\<rparr>"

definition sample_cfg :: poll_config where
  "sample_cfg = \<lparr>cf_contract_ids = [], cf_page_size = 1, cf_start_ledger = 0, cf_max_catchup_ledgers = 100, cf_reorg_overlap_ledgers = 0,
     cf_state_indexing = False, cf_upgrade_watch = False, cf_key_indexing = False, cf_key_templates = [],
     cf_balance_key_symbol = ''Balance'', cf_balance_key_durability = ''persistent''\<rparr>"

definition sample_ix :: "((string \<times> cached) list) indexer" where
  "sample_ix = \<lparr>ix_cursor = Some fresh_row, ix_tables = empty_tables, ix_missed = [], ix_next_id = 0,
     ix_snap = \<lparr>ss_cache = [], ss_specs = no_tables, ss_states = []\<rparr>, ix_data = [], ix_rpc_oldest = 0\<rparr>"

definition sample_chain :: "event_info list" where
  "sample_chain = [sample_info ''a'' 1 ''t'', sample_info ''b'' 2 ''t'']"

text \<open>A source that serves a chain in pages, failing from request \<open>n\<close> on.\<close>

definition chain_pages :: "nat \<Rightarrow> nat \<Rightarrow> event_info list \<Rightarrow> page_source" where
  "chain_pages n psize chain k start tok =
     (if k < n then (let evs = from_ledger start chain in Inr \<lparr>pg_events = take psize (drop (k * psize) evs),
        pg_cursor = (if length evs \<le> Suc k * psize then None else Some ''c'')\<rparr>)
      else Inl RequestFailed)"

lemma chain_pages_ok: "pages_chain psize chain (chain_pages n psize chain)"
  by (auto simp: pages_chain_def served_def chain_pages_def Let_def split: if_splits)

definition sample_cycle :: "nat \<Rightarrow> cycle_input" where
  "sample_cycle n = \<lparr>cy_latest = Inr 2, cy_health = Inr 1, cy_pages = chain_pages n 1 sample_chain, cy_rescan = chain_pages n 1 sample_chain,
     cy_cancelled = (\<lambda>k. False), cy_cancelled_after = False, cy_cancelled_rescan = (\<lambda>k. False), cy_metrics = (1, 0, 0, 0),
     cy_show_err = (\<lambda>e. [])\<rparr>"

declare page_loop.simps [code]

lemma sample_polled: "polled sample_chain sample_cfg (sample_cycle n)"
  by (simp add: polled_def sample_cfg_def sample_cycle_def chain_pages_ok cancellation_permanent_def)

lemma sample_chain_ok:
  "sorted (map ei_ledger sample_chain)" "\<forall>ev \<in> set sample_chain. 0 < ei_ledger ev" "timestamps_parse sample_env sample_chain"
  by (simp_all add: sample_chain_def sample_info_def timestamps_parse_def sample_env_def parse_ledger_closed_at_def)

lemma sample_poll:
  "map_option (\<lambda>(r, ix). (r, read_last_processed (ix_cursor ix), map ne_event_id (et_events (ix_tables ix)), map mr_from (ix_missed ix)))
     (poll_once sample_env sample_cfg (sample_cycle 1) sample_ix) = Some (Inr (Some 2), Some 2, [''a''], [1])"
  by code_simp

lemma sample_start: "all_accounted sample_chain 1 sample_ix" "ids_ok sample_ix" "ix_cursor sample_ix \<noteq> None"
  by (simp_all add: all_accounted_def sample_ix_def fresh_row_def read_last_processed_def ids_ok_def sample_chain_def sample_info_def)

lemma sample_history:
  obtains ix' where "history sample_env sample_cfg sample_chain sample_ix ix'" "read_last_processed (ix_cursor ix') = Some 2"
    "poll_once sample_env sample_cfg (sample_cycle 1) sample_ix = Some (Inr (Some 2), ix')"
proof -
  obtain r ix' where p: "poll_once sample_env sample_cfg (sample_cycle 1) sample_ix = Some (r, ix')"
    using sample_poll by (cases "poll_once sample_env sample_cfg (sample_cycle 1) sample_ix") auto
  with sample_poll have "r = Inr (Some 2)" "read_last_processed (ix_cursor ix') = Some 2" by simp_all
  moreover have "history sample_env sample_cfg sample_chain sample_ix ix'"
    by (rule history_poll [OF history_start sample_polled p])
  ultimately show ?thesis using p that by blast
qed




definition bad_chain :: "event_info list" where
  "bad_chain = [sample_info ''a'' 1 [], sample_info ''b'' 2 ''t'']"

lemma bad_fetch:
  "map_option (\<lambda>(r, ix). (r, map ne_event_id (et_events (ix_tables ix))))
     (fetch_and_store sample_env sample_cfg (chain_pages 5 1 bad_chain) (\<lambda>e. []) 1 2 sample_ix) = Some (Inr (0, 0, 0), [])"
  by code_simp


end
