(* ===== verification/Retention.thy ===== *)
theory Retention
  imports Snapshots Webhook_Enqueue
begin

text \<open>
  The retention pruner of \<^verbatim>\<open>crates/lumenqraph-indexer/src/retention.rs\<close>: batched deletion of old events, superseded
  snapshots and superseded interface versions, each statement committing on its own. The foreign keys are those of
  the migrations: projections cascade from \<^verbatim>\<open>events\<close>, a delivery restricts the deletion of its event
  (\<^verbatim>\<open>0025_webhook_deliveries_restrict.sql\<close>) and cascades from its interface version (\<^verbatim>\<open>0008_spec_versions.sql\<close>).

  The order in which a statement without \<^verbatim>\<open>ORDER BY\<close> visits its rows, and the order among events of one ledger, is the
  parameter \<open>scan_order\<close>.
\<close>

section \<open>Tables\<close>

record retention_db =
  rd_tables :: event_tables
  rd_deliveries :: "delivery list"
  rd_states :: "state_row list"
  rd_data :: "data_row list"
  rd_versions :: "spec_version list"
  rd_dropped :: nat

datatype retention_error = ReferencedRow string

record scan_order =
  so_events :: "new_event list \<Rightarrow> new_event list"
  so_states :: "state_row list \<Rightarrow> state_row list"
  so_data :: "data_row list \<Rightarrow> data_row list"
  so_versions :: "spec_version list \<Rightarrow> spec_version list"

definition BATCH :: nat where
  "BATCH = 5000"

definition MAX_BATCHES :: nat where
  "MAX_BATCHES = 10"

section \<open>The statements\<close>

definition has_pending :: "source \<Rightarrow> delivery list \<Rightarrow> bool" where
  "has_pending s ds = list_ex (\<lambda>d. d_source d = Some s \<and> d_status d = Pending) ds"

definition old_event :: "int \<Rightarrow> retention_db \<Rightarrow> new_event \<Rightarrow> bool" where
  "old_event cutoff db e \<longleftrightarrow> ne_ledger e < cutoff \<and> \<not> has_pending (EventSource (ne_event_id e)) (rd_deliveries db)"

text \<open>The cascade from \<^verbatim>\<open>events\<close> to the four projections.\<close>

definition drop_events :: "string set \<Rightarrow> event_tables \<Rightarrow> event_tables" where
  "drop_events ids t = t\<lparr>et_events := filter (\<lambda>e. ne_event_id e \<notin> ids) (et_events t),
     et_transfers := filter (\<lambda>r. tr_event_id r \<notin> ids) (et_transfers t),
     et_swaps := filter (\<lambda>r. sw_event_id r \<notin> ids) (et_swaps t),
     et_nfts := filter (\<lambda>r. nf_event_id r \<notin> ids) (et_nfts t),
     et_liquidity := filter (\<lambda>r. lq_event_id r \<notin> ids) (et_liquidity t)\<rparr>"

text \<open>A delivery of any status restricts the deletion of its event, and with it the whole statement.\<close>

definition delete_events :: "scan_order \<Rightarrow> int \<Rightarrow> retention_db \<Rightarrow> retention_error + nat \<times> retention_db" where
  "delete_events so cutoff db =
     (let found = so_events so (filter (old_event cutoff db) (et_events (rd_tables db)));
          ids = map ne_event_id (take BATCH (sort_key ne_ledger found));
          tables = drop_events (set ids) (rd_tables db)
      in case find (\<lambda>i. list_ex (\<lambda>d. d_source d = Some (EventSource i)) (rd_deliveries db)) ids of
           Some i \<Rightarrow> Inl (ReferencedRow i)
         | None \<Rightarrow> Inr (length (et_events (rd_tables db)) - length (et_events tables), db\<lparr>rd_tables := tables\<rparr>))"

definition count_dropped_deliveries :: "int \<Rightarrow> retention_db \<Rightarrow> nat" where
  "count_dropped_deliveries cutoff db =
     length (filter (\<lambda>d. d_status d \<noteq> Pending
       \<and> list_ex (\<lambda>e. d_source d = Some (EventSource (ne_event_id e)) \<and> ne_ledger e < cutoff) (et_events (rd_tables db)))
       (rd_deliveries db))"

definition delete_rows :: "('r list \<Rightarrow> 'r list) \<Rightarrow> ('r \<Rightarrow> bool) \<Rightarrow> 'r list \<Rightarrow> nat \<times> 'r list" where
  "delete_rows scan old rows =
     (let found = take BATCH (scan (filter old rows)); rows' = filter (\<lambda>r. r \<notin> set found) rows
      in (length rows - length rows', rows'))"

definition below :: "int \<Rightarrow> int option \<Rightarrow> bool" where
  "below l m = (case m of Some k \<Rightarrow> l < k | None \<Rightarrow> False)"

definition old_state :: "int \<Rightarrow> retention_db \<Rightarrow> state_row \<Rightarrow> bool" where
  "old_state cutoff db r \<longleftrightarrow> sw_ledger r < cutoff
     \<and> below (sw_ledger r) (max_where sw_ledger (\<lambda>x. sw_contract x = sw_contract r) (rd_states db))"

definition delete_states :: "scan_order \<Rightarrow> int \<Rightarrow> retention_db \<Rightarrow> retention_error + nat \<times> retention_db" where
  "delete_states so cutoff db =
     (case delete_rows (so_states so) (old_state cutoff db) (rd_states db) of (n, rows) \<Rightarrow> Inr (n, db\<lparr>rd_states := rows\<rparr>))"

definition old_datum :: "int \<Rightarrow> retention_db \<Rightarrow> data_row \<Rightarrow> bool" where
  "old_datum cutoff db r \<longleftrightarrow> dw_ledger r < cutoff
     \<and> below (dw_ledger r) (max_where dw_ledger (\<lambda>x. dw_contract x = dw_contract r \<and> dw_key_hash x = dw_key_hash r) (rd_data db))"

definition delete_data :: "scan_order \<Rightarrow> int \<Rightarrow> retention_db \<Rightarrow> retention_error + nat \<times> retention_db" where
  "delete_data so cutoff db =
     (case delete_rows (so_data so) (old_datum cutoff db) (rd_data db) of (n, rows) \<Rightarrow> Inr (n, db\<lparr>rd_data := rows\<rparr>))"

text \<open>The cascade from a deleted version to its deliveries.\<close>

definition drop_versions :: "spec_version list \<Rightarrow> retention_db \<Rightarrow> retention_db" where
  "drop_versions rows db = db\<lparr>rd_versions := rows,
     rd_deliveries := filter (\<lambda>d. \<not> list_ex (\<lambda>v. d_source d = Some (UpgradeSource (int (sv_id v))) \<and> v \<notin> set rows) (rd_versions db))
       (rd_deliveries db)\<rparr>"

definition unclaimed_version :: "int \<Rightarrow> retention_db \<Rightarrow> spec_version \<Rightarrow> bool" where
  "unclaimed_version cutoff db v \<longleftrightarrow> sv_ledger v < cutoff \<and> \<not> has_pending (UpgradeSource (int (sv_id v))) (rd_deliveries db)"

definition old_version :: "int \<Rightarrow> retention_db \<Rightarrow> spec_version \<Rightarrow> bool" where
  "old_version cutoff db v \<longleftrightarrow> unclaimed_version cutoff db v
     \<and> below (sv_version v) (max_where sv_version (\<lambda>x. sv_contract_id x = sv_contract_id v) (rd_versions db))"

definition delete_versions :: "(int \<Rightarrow> retention_db \<Rightarrow> spec_version \<Rightarrow> bool) \<Rightarrow> scan_order \<Rightarrow> int \<Rightarrow> retention_db \<Rightarrow> retention_error + nat \<times> retention_db" where
  "delete_versions old so cutoff db =
     (case delete_rows (so_versions so) (old cutoff db) (rd_versions db) of (n, rows) \<Rightarrow> Inr (n, drop_versions rows db))"

text \<open>\<^verbatim>\<open>ORDER BY version DESC LIMIT n OFFSET 1\<close>, then \<^verbatim>\<open>COALESCE (MIN .., 0)\<close>.\<close>

definition keep_from :: "nat \<Rightarrow> string \<Rightarrow> spec_version list \<Rightarrow> int" where
  "keep_from n c vs =
     (case take n (drop 1 (rev (sort (map sv_version (filter (\<lambda>v. sv_contract_id v = c) vs))))) of
        [] \<Rightarrow> 0
      | l # ls \<Rightarrow> fold min ls l)"

definition beyond_newest :: "nat \<Rightarrow> int \<Rightarrow> retention_db \<Rightarrow> spec_version \<Rightarrow> bool" where
  "beyond_newest n cutoff db v \<longleftrightarrow> unclaimed_version cutoff db v
     \<and> sv_version v < keep_from n (sv_contract_id v) (rd_versions db)"

section \<open>Passes\<close>

text \<open>A statement is run until it deletes less than a batch, at most \<open>k\<close> times.\<close>

fun prune_batched :: "nat \<Rightarrow> ('t \<Rightarrow> retention_error + nat \<times> 't) \<Rightarrow> 't \<Rightarrow> (retention_error + nat) \<times> 't" where
  "prune_batched 0 del t = (Inr 0, t)"
| "prune_batched (Suc k) del t =
     (case del t of
        Inl e \<Rightarrow> (Inl e, t)
      | Inr (n, t') \<Rightarrow>
          if n < BATCH then (Inr n, t')
          else (case prune_batched k del t' of (r, t'') \<Rightarrow> (map_sum id (\<lambda>m. n + m) r, t'')))"

definition and_then :: "(retention_error + 'a) \<times> 'd \<Rightarrow> ('a \<Rightarrow> 'd \<Rightarrow> (retention_error + 'b) \<times> 'd) \<Rightarrow> (retention_error + 'b) \<times> 'd" where
  "and_then p f = (case p of (Inl e, d) \<Rightarrow> (Inl e, d) | (Inr a, d) \<Rightarrow> f a d)"

definition prune :: "scan_order \<Rightarrow> int \<Rightarrow> int \<Rightarrow> retention_db \<Rightarrow> (retention_error + nat) \<times> retention_db" where
  "prune so tip retention_ledgers db =
     (let cutoff = tip - retention_ledgers
      in if retention_ledgers \<le> 0 \<or> cutoff \<le> 0 then (Inr 0, db)
         else and_then (prune_batched MAX_BATCHES (delete_events so cutoff) db) (\<lambda>events db.
              and_then (prune_batched MAX_BATCHES (delete_states so cutoff)
                  (db\<lparr>rd_dropped := rd_dropped db + count_dropped_deliveries cutoff db\<rparr>)) (\<lambda>state db.
              and_then (prune_batched MAX_BATCHES (delete_data so cutoff) db) (\<lambda>data db.
              and_then (prune_batched MAX_BATCHES (delete_versions old_version so cutoff) db) (\<lambda>specs db.
                (Inr (events + state + data + specs), db))))))"

definition prune_spec_versions :: "scan_order \<Rightarrow> int \<Rightarrow> int \<Rightarrow> int \<Rightarrow> retention_db \<Rightarrow> (retention_error + nat) \<times> retention_db" where
  "prune_spec_versions so tip retention_ledgers spec_version_retention db =
     (let cutoff = tip - retention_ledgers
      in if retention_ledgers \<le> 0 \<or> cutoff \<le> 0 then (Inr 0, db)
         else if spec_version_retention \<le> 0 then prune_batched MAX_BATCHES (delete_versions old_version so cutoff) db
         else prune_batched MAX_BATCHES (delete_versions (beyond_newest (nat spec_version_retention)) so cutoff) db)"

section \<open>Batched deletion\<close>

definition scans_all :: "scan_order \<Rightarrow> bool" where
  "scans_all so \<longleftrightarrow> (\<forall>xs. mset (so_events so xs) = mset xs) \<and> (\<forall>xs. mset (so_states so xs) = mset xs)
     \<and> (\<forall>xs. mset (so_data so xs) = mset xs) \<and> (\<forall>xs. mset (so_versions so xs) = mset xs)"

lemma length_filter_split: "length (filter P xs) + length (filter (\<lambda>x. \<not> P x) xs) = length xs"
  by (rule sum_length_filter_compl)

lemma filter_mem_length:
  assumes "distinct xs" "distinct ys" "set ys \<subseteq> set xs"
  shows "length (filter (\<lambda>x. x \<notin> set ys) xs) + length ys = length xs"
proof -
  have "set (filter (\<lambda>x. x \<in> set ys) xs) = set ys" using assms(3) by auto
  with assms(1,2) have "length (filter (\<lambda>x. x \<in> set ys) xs) = length ys"
    by (metis distinct_card distinct_filter)
  then show ?thesis using length_filter_split [of "\<lambda>x. x \<in> set ys" xs] by simp
qed

lemma filter_all_of:
  assumes "gone \<subseteq> {x. P x}" "length (filter (\<lambda>x. x \<notin> gone) xs) \<le> length (filter (\<lambda>x. \<not> P x) xs)"
  shows "filter (\<lambda>x. x \<notin> gone) xs = filter (\<lambda>x. \<not> P x) xs"
proof -
  have nested: "filter (\<lambda>x. \<not> P x) (filter (\<lambda>x. x \<notin> gone) xs) = filter (\<lambda>x. \<not> P x) xs"
    using assms(1) by (auto simp: filter_filter intro!: filter_cong)
  have "\<not> length (filter (\<lambda>x. \<not> P x) (filter (\<lambda>x. x \<notin> gone) xs)) < length (filter (\<lambda>x. x \<notin> gone) xs)"
    using assms(2) unfolding nested by simp
  then have "\<forall>x \<in> set (filter (\<lambda>x. x \<notin> gone) xs). \<not> P x"
    using length_filter_less [of _ "filter (\<lambda>x. x \<notin> gone) xs" "\<lambda>x. \<not> P x"] by blast
  then have "filter (\<lambda>x. \<not> P x) (filter (\<lambda>x. x \<notin> gone) xs) = filter (\<lambda>x. x \<notin> gone) xs" by (simp only: filter_id_conv)
  with nested show ?thesis by simp
qed

definition keeps_rows :: "('t \<Rightarrow> 'r list) \<Rightarrow> ('t \<Rightarrow> 'r \<Rightarrow> bool) \<Rightarrow> 't \<Rightarrow> 't \<Rightarrow> bool" where
  "keeps_rows rows old t t' \<longleftrightarrow> old t' = old t \<and> set (rows t') \<subseteq> set (rows t) \<and> (\<forall>r \<in> set (rows t). \<not> old t r \<longrightarrow> r \<in> set (rows t'))"

text \<open>What a deletion statement promises: it removes old rows only, a full batch of them or all there are, and leaves it
  to the next statement to judge the remaining rows the same way.\<close>

locale batch_delete =
  fixes del :: "'t \<Rightarrow> retention_error + nat \<times> 't" and rows :: "'t \<Rightarrow> 'r list" and old :: "'t \<Rightarrow> 'r \<Rightarrow> bool" and ok :: "'t \<Rightarrow> bool"
  assumes keeps_ok: "ok t \<Longrightarrow> del t = Inr (n, t') \<Longrightarrow> ok t'"
    and keeps_old: "ok t \<Longrightarrow> del t = Inr (n, t') \<Longrightarrow> old t' = old t"
    and batch: "ok t \<Longrightarrow> del t = Inr (n, t') \<Longrightarrow> n = min BATCH (length (filter (old t) (rows t)))"
    and removes: "ok t \<Longrightarrow> del t = Inr (n, t') \<Longrightarrow>
      length (rows t') + n = length (rows t) \<and> (\<exists>gone \<subseteq> {r. old t r}. rows t' = filter (\<lambda>r. r \<notin> gone) (rows t))"
begin

lemma pass_shrinks:
  assumes "ok t" "prune_batched k del t = (r, t')"
  shows "ok t' \<and> old t' = old t \<and> (\<exists>gone \<subseteq> {x. old t x}. rows t' = filter (\<lambda>x. x \<notin> gone) (rows t))"
  using assms
proof (induction k arbitrary: t r t')
  case 0
  then show ?case by (auto intro!: exI [of _ "{}"])
next
  case (Suc k)
  show ?case
  proof (cases "del t")
    case (Inl e)
    with Suc.prems show ?thesis by (auto intro!: exI [of _ "{}"])
  next
    case (Inr p)
    obtain n u where p: "p = (n, u)" by (cases p)
    note d = Inr [unfolded p]
    note ok = keeps_ok [OF Suc.prems(1) d] and old = keeps_old [OF Suc.prems(1) d]
    obtain g1 where g1: "g1 \<subseteq> {x. old t x}" "rows u = filter (\<lambda>x. x \<notin> g1) (rows t)"
      using removes [OF Suc.prems(1) d] by blast
    show ?thesis
    proof (cases "n < BATCH")
      case True
      with Suc.prems(2) d ok old g1 show ?thesis by auto
    next
      case False
      then obtain r' where "prune_batched k del u = (r', t')"
        using Suc.prems(2) d by (auto split: prod.splits)
      from Suc.IH [OF ok this] old obtain g2 where g2: "ok t'" "old t' = old t" "g2 \<subseteq> {x. old t x}"
        "rows t' = filter (\<lambda>x. x \<notin> g2) (rows u)" by auto
      then have "rows t' = filter (\<lambda>x. x \<notin> g1 \<union> g2) (rows t)" using g1(2) by (simp add: conj_commute)
      with g1(1) g2 show ?thesis by (metis Un_least)
    qed
  qed
qed

lemma pass_keeps: "ok t \<Longrightarrow> prune_batched k del t = (r, t') \<Longrightarrow> ok t' \<and> keeps_rows rows old t t'"
  using pass_shrinks [of t k r t'] by (auto simp: keeps_rows_def)

lemma pass_complete:
  assumes "ok t" "prune_batched k del t = (Inr n, t')"
  shows "length (rows t') + n = length (rows t) \<and> (n < k * BATCH \<longrightarrow> rows t' = filter (\<lambda>x. \<not> old t x) (rows t))"
  using assms
proof (induction k arbitrary: t n t')
  case (Suc k)
  obtain m u where d: "del t = Inr (m, u)" using Suc.prems(2) by (auto split: sum.splits)
  note ok = keeps_ok [OF Suc.prems(1) d] and old = keeps_old [OF Suc.prems(1) d] and b = batch [OF Suc.prems(1) d]
  have len: "length (rows u) + m = length (rows t)" using removes [OF Suc.prems(1) d] by blast
  obtain g where g: "g \<subseteq> {x. old t x}" "rows u = filter (\<lambda>x. x \<notin> g) (rows t)" using removes [OF Suc.prems(1) d] by blast
  show ?case
  proof (cases "m < BATCH")
    case True
    then have m: "m = length (filter (old t) (rows t))" using b by simp
    have "rows u = filter (\<lambda>x. \<not> old t x) (rows t)"
      unfolding g(2) using g(1) len m length_filter_split [of "old t" "rows t"]
      by (intro filter_all_of) (simp_all add: g(2))
    with True Suc.prems(2) d len show ?thesis by auto
  next
    case False
    then obtain n2 where n2: "prune_batched k del u = (Inr n2, t')" "n = m + n2"
      using Suc.prems(2) d by (auto split: prod.splits sum.splits) (metis (no_types, lifting) map_sum.simps(1) map_sum.simps(2) obj_sumE sum.distinct(1) sum.inject(2))
    from Suc.IH [OF ok n2(1)] old have ih: "length (rows t') + n2 = length (rows u)"
      "n2 < k * BATCH \<longrightarrow> rows t' = filter (\<lambda>x. \<not> old t x) (rows u)" by simp_all
    have m: "m = BATCH" using b False by simp
    have nest: "filter (\<lambda>x. \<not> old t x) (rows u) = filter (\<lambda>x. \<not> old t x) (rows t)"
      unfolding g(2) using g(1) by (auto simp: filter_filter intro!: filter_cong)
    show ?thesis using ih len m n2(2) nest by auto
  qed
qed simp

lemma pass_exact:
  assumes "ok t" "prune_batched k del t = (Inr n, t')" "length (filter (old t) (rows t)) < k * BATCH"
  shows "rows t' = filter (\<lambda>x. \<not> old t x) (rows t)" "n = length (filter (old t) (rows t))"
proof -
  obtain gone where "gone \<subseteq> {x. old t x}" "rows t' = filter (\<lambda>x. x \<notin> gone) (rows t)" using pass_shrinks [OF assms(1,2)] by blast
  then have "filter (\<lambda>x. \<not> old t x) (rows t') = filter (\<lambda>x. \<not> old t x) (rows t)"
    by (auto simp: filter_filter intro!: filter_cong)
  then have "length (filter (\<lambda>x. \<not> old t x) (rows t)) \<le> length (rows t')" by (metis length_filter_le)
  with pass_complete [OF assms(1,2)] length_filter_split [of "old t" "rows t"] assms(3)
  show "rows t' = filter (\<lambda>x. \<not> old t x) (rows t)" by linarith
  with pass_complete [OF assms(1,2)] length_filter_split [of "old t" "rows t"]
  show "n = length (filter (old t) (rows t))" by simp
qed

lemma pass_reports:
  assumes "ok t" "I t" "\<And>u. ok u \<Longrightarrow> I u \<Longrightarrow> \<not> isl (del u)" "\<And>u n u'. ok u \<Longrightarrow> I u \<Longrightarrow> del u = Inr (n, u') \<Longrightarrow> I u'"
  shows "\<exists>n t'. prune_batched k del t = (Inr n, t')"
  using assms(1,2)
proof (induction k arbitrary: t)
  case (Suc k)
  then obtain m u where d: "del t = Inr (m, u)" using assms(3) by (metis isl_def obj_sumE prod.exhaust)
  from Suc.IH [OF keeps_ok [OF Suc.prems(1) d] assms(4) [OF Suc.prems d]] obtain n t'
    where "prune_batched k del u = (Inr n, t')" by blast
  with d show ?case by auto
qed simp

end

section \<open>The four statements\<close>

lemma delete_rows_facts:
  assumes "delete_rows scan old rows = (n, rows')" "distinct rows" "\<And>xs. mset (scan xs) = mset xs"
  shows "n = min BATCH (length (filter old rows))" "length rows' + n = length rows"
    "\<exists>gone \<subseteq> {r. old r}. rows' = filter (\<lambda>r. r \<notin> gone) rows" "distinct rows'"
proof -
  let ?f = "take BATCH (scan (filter old rows))"
  have m: "mset (scan (filter old rows)) = mset (filter old rows)" by (rule assms(3))
  have d: "distinct ?f" using assms(2) m by (metis distinct_filter distinct_take mset_eq_imp_distinct_iff)
  have sub: "set ?f \<subseteq> set (filter old rows)" using m by (metis mset_eq_setD set_take_subset)
  have len: "length ?f = min BATCH (length (filter old rows))" using m by (metis length_take mset_eq_length min.commute)
  have r: "rows' = filter (\<lambda>r. r \<notin> set ?f) rows" "n = length rows - length rows'"
    using assms(1) by (auto simp: delete_rows_def Let_def)
  have "length rows' + length ?f = length rows"
    unfolding r(1) using assms(2) d sub by (intro filter_mem_length) auto
  with r len show "n = min BATCH (length (filter old rows))" "length rows' + n = length rows" by auto
  show "\<exists>gone \<subseteq> {r. old r}. rows' = filter (\<lambda>r. r \<notin> gone) rows" using sub r(1) by (intro exI [of _ "set ?f"]) auto
  show "distinct rows'" using assms(2) r(1) by simp
qed

lemma max_where_eq:
  "max_where f p rows = Some m \<longleftrightarrow> (\<exists>r \<in> set rows. p r \<and> f r = m) \<and> (\<forall>r \<in> set rows. p r \<longrightarrow> f r \<le> m)"
proof -
  have fold: "fold max ls l = m \<longleftrightarrow> m \<in> set (l # ls) \<and> (\<forall>x \<in> set (l # ls). x \<le> m)" for ls and l m :: int
  proof -
    have "fold max ls l = Max (set (l # ls))" by (metis Max.set_eq_fold)
    then show ?thesis by (metis List.finite_set Max_eq_iff list.distinct(1) set_empty)
  qed
  show ?thesis
  proof (cases "map f (filter p rows)")
    case Nil
    then show ?thesis by (auto simp: max_where_def filter_empty_conv)
  next
    case (Cons l ls)
    then have "set (l # ls) = f ` {r \<in> set rows. p r}" by (metis set_filter set_map)
    then show ?thesis using Cons fold [of ls l m] by (auto simp: max_where_def)
  qed
qed

lemma max_where_none: "max_where f p rows = None \<longleftrightarrow> (\<forall>r \<in> set rows. \<not> p r)"
proof -
  have "max_where f p rows = None \<longleftrightarrow> filter p rows = []" by (cases "filter p rows") (simp_all add: max_where_def)
  then show ?thesis by (simp add: filter_empty_conv)
qed

lemma max_where_subset:
  assumes "set rows' \<subseteq> set rows" "\<And>r. r \<in> set rows \<Longrightarrow> r \<notin> set rows' \<Longrightarrow> p r \<Longrightarrow> below (f r) (max_where f p rows)"
  shows "max_where f p rows' = max_where f p rows"
proof (cases "max_where f p rows")
  case None
  then have "\<forall>r \<in> set rows. \<not> p r" by (simp only: max_where_none)
  then show ?thesis using assms(1) unfolding None max_where_none by blast
next
  case (Some m)
  then obtain r where r: "r \<in> set rows" "p r" "f r = m" and m: "\<forall>r \<in> set rows. p r \<longrightarrow> f r \<le> m" unfolding max_where_eq by blast
  have "r \<in> set rows'" using assms(2) [OF r(1) _ r(2)] r(3) by (auto simp: below_def Some)
  with r m assms(1) show ?thesis unfolding Some max_where_eq by blast
qed

lemma max_where_kept:
  assumes "\<And>r. r \<in> gone \<Longrightarrow> p r \<Longrightarrow> below (f r) (max_where f p rows)"
  shows "max_where f p (filter (\<lambda>r. r \<notin> gone) rows) = max_where f p rows"
  using assms by (intro max_where_subset) auto

lemma event_batch:
  assumes "scans_all so" "distinct (map ne_event_id (et_events (rd_tables db)))" "delete_events so cutoff db = Inr (n, db')"
  shows "n = min BATCH (length (filter (old_event cutoff db) (et_events (rd_tables db))))"
    "length (et_events (rd_tables db')) + n = length (et_events (rd_tables db))"
    "\<exists>gone \<subseteq> {e. old_event cutoff db e}. et_events (rd_tables db') = filter (\<lambda>e. e \<notin> gone) (et_events (rd_tables db))"
    "distinct (map ne_event_id (et_events (rd_tables db')))" "rd_deliveries db' = rd_deliveries db"
proof -
  let ?es = "et_events (rd_tables db)" and ?old = "old_event cutoff db"
  let ?scan = "\<lambda>xs. sort_key ne_ledger (so_events so xs)"
  let ?sel = "take BATCH (?scan (filter ?old ?es))"
  have m: "mset (?scan xs) = mset xs" for xs using assms(1) by (simp add: scans_all_def)
  have sub: "set ?sel \<subseteq> set ?es" using mset_eq_setD [OF m [of "filter ?old ?es"]] by (auto dest!: in_set_takeD)
  have inj: "inj_on ne_event_id (set ?es)" using assms(2) by (simp add: distinct_map)
  let ?t = "drop_events (set (map ne_event_id ?sel)) (rd_tables db)"
  have db': "db' = db\<lparr>rd_tables := ?t\<rparr>" and n: "n = length ?es - length (et_events ?t)"
    using assms(3) unfolding delete_events_def Let_def by (simp_all split: option.splits)
  have "et_events ?t = filter (\<lambda>e. ne_event_id e \<notin> ne_event_id ` set ?sel) ?es" by (simp add: drop_events_def)
  also have "\<dots> = filter (\<lambda>e. e \<notin> set ?sel) ?es"
    by (rule filter_cong [OF refl]) (simp add: inj_on_image_mem_iff [OF inj _ sub])
  finally have rows: "et_events (rd_tables db') = filter (\<lambda>e. e \<notin> set ?sel) ?es" by (simp add: db')
  have n: "n = length ?es - length (et_events (rd_tables db'))" using n by (simp add: db')
  have ds: "rd_deliveries db' = rd_deliveries db" by (simp add: db')
  have del: "delete_rows ?scan ?old ?es = (n, et_events (rd_tables db'))"
    unfolding delete_rows_def Let_def n rows by (rule refl)
  have "distinct ?es" using assms(2) by (simp add: distinct_map)
  note f = delete_rows_facts [OF del this m]
  show "n = min BATCH (length (filter ?old ?es))" by (rule f(1))
  show "length (et_events (rd_tables db')) + n = length ?es" by (rule f(2))
  show "\<exists>gone \<subseteq> {e. ?old e}. et_events (rd_tables db') = filter (\<lambda>e. e \<notin> gone) ?es" by (rule f(3))
  show "distinct (map ne_event_id (et_events (rd_tables db')))" using assms(2) rows by (simp add: distinct_map_filter)
  show "rd_deliveries db' = rd_deliveries db" by (rule ds)
qed

definition tables_ok :: "retention_db \<Rightarrow> bool" where
  "tables_ok db \<longleftrightarrow> distinct (map ne_event_id (et_events (rd_tables db))) \<and> distinct (map state_key (rd_states db))
     \<and> distinct (map data_key (rd_data db)) \<and> distinct (map (\<lambda>v. (sv_contract_id v, sv_version v)) (rd_versions db))"

definition scan_ok :: "scan_order \<Rightarrow> retention_db \<Rightarrow> bool" where
  "scan_ok so db \<longleftrightarrow> scans_all so \<and> tables_ok db"

lemma distinct_map_kept: "distinct (map f xs) \<Longrightarrow> ys = filter P xs \<Longrightarrow> distinct (map f ys)"
  by (simp add: distinct_map_filter)

interpretation events: batch_delete "delete_events so cutoff" "\<lambda>db. et_events (rd_tables db)" "old_event cutoff" "scan_ok so" for so cutoff
proof
  fix t n t'
  assume ok: "scan_ok so t" and d: "delete_events so cutoff t = Inr (n, t')"
  have so: "scans_all so" "distinct (map ne_event_id (et_events (rd_tables t)))" using ok by (simp_all add: scan_ok_def tables_ok_def)
  note b = event_batch [OF so d]
  have "rd_states t' = rd_states t" "rd_data t' = rd_data t" "rd_versions t' = rd_versions t"
    using d by (auto simp: delete_events_def Let_def split: option.splits)
  with ok b(4) show "scan_ok so t'" by (simp add: scan_ok_def tables_ok_def)
  show "old_event cutoff t' = old_event cutoff t" using b(5) by (simp add: old_event_def fun_eq_iff)
  show "n = min BATCH (length (filter (old_event cutoff t) (et_events (rd_tables t))))" by (rule b(1))
  show "length (et_events (rd_tables t')) + n = length (et_events (rd_tables t))
    \<and> (\<exists>gone \<subseteq> {r. old_event cutoff t r}. et_events (rd_tables t') = filter (\<lambda>r. r \<notin> gone) (et_events (rd_tables t)))"
    using b(2,3) by blast
qed

lemma states_batch:
  assumes "scan_ok so t" "delete_states so cutoff t = Inr (n, t')"
  shows "n = min BATCH (length (filter (old_state cutoff t) (rd_states t)))" "length (rd_states t') + n = length (rd_states t)"
    "\<exists>gone \<subseteq> {r. old_state cutoff t r}. rd_states t' = filter (\<lambda>r. r \<notin> gone) (rd_states t)"
    "t' = t\<lparr>rd_states := rd_states t'\<rparr>"
proof -
  have d: "delete_rows (so_states so) (old_state cutoff t) (rd_states t) = (n, rd_states t')" and t': "t' = t\<lparr>rd_states := rd_states t'\<rparr>"
    using assms(2) by (auto simp: delete_states_def split: prod.splits)
  have "distinct (rd_states t)" "\<And>xs. mset (so_states so xs) = mset xs"
    using assms(1) by (auto simp: scan_ok_def tables_ok_def scans_all_def distinct_map)
  from delete_rows_facts [OF d this] t'
  show "n = min BATCH (length (filter (old_state cutoff t) (rd_states t)))" "length (rd_states t') + n = length (rd_states t)"
    "\<exists>gone \<subseteq> {r. old_state cutoff t r}. rd_states t' = filter (\<lambda>r. r \<notin> gone) (rd_states t)"
    "t' = t\<lparr>rd_states := rd_states t'\<rparr>" by blast+
qed

interpretation states: batch_delete "delete_states so cutoff" rd_states "old_state cutoff" "scan_ok so" for so cutoff
proof
  fix t n t'
  assume ok: "scan_ok so t" and d: "delete_states so cutoff t = Inr (n, t')"
  note b = states_batch [OF ok d]
  obtain gone where g: "gone \<subseteq> {r. old_state cutoff t r}" "rd_states t' = filter (\<lambda>r. r \<notin> gone) (rd_states t)" using b(3) by blast
  show "scan_ok so t'"
    using ok g(2) by (subst b(4)) (auto simp: scan_ok_def tables_ok_def intro: distinct_map_kept)
  have "max_where sw_ledger (\<lambda>x. sw_contract x = c) (rd_states t') = max_where sw_ledger (\<lambda>x. sw_contract x = c) (rd_states t)" for c
    unfolding g(2) using g(1) by (intro max_where_kept) (auto simp: old_state_def)
  then show "old_state cutoff t' = old_state cutoff t" by (simp add: old_state_def fun_eq_iff)
  show "n = min BATCH (length (filter (old_state cutoff t) (rd_states t)))" by (rule b(1))
  show "length (rd_states t') + n = length (rd_states t)
    \<and> (\<exists>gone \<subseteq> {r. old_state cutoff t r}. rd_states t' = filter (\<lambda>r. r \<notin> gone) (rd_states t))" using b(2,3) by blast
qed

lemma datum_batch:
  assumes "scan_ok so t" "delete_data so cutoff t = Inr (n, t')"
  shows "n = min BATCH (length (filter (old_datum cutoff t) (rd_data t)))" "length (rd_data t') + n = length (rd_data t)"
    "\<exists>gone \<subseteq> {r. old_datum cutoff t r}. rd_data t' = filter (\<lambda>r. r \<notin> gone) (rd_data t)"
    "t' = t\<lparr>rd_data := rd_data t'\<rparr>"
proof -
  have d: "delete_rows (so_data so) (old_datum cutoff t) (rd_data t) = (n, rd_data t')" and t': "t' = t\<lparr>rd_data := rd_data t'\<rparr>"
    using assms(2) by (auto simp: delete_data_def split: prod.splits)
  have "distinct (rd_data t)" "\<And>xs. mset (so_data so xs) = mset xs"
    using assms(1) by (auto simp: scan_ok_def tables_ok_def scans_all_def distinct_map)
  from delete_rows_facts [OF d this] t'
  show "n = min BATCH (length (filter (old_datum cutoff t) (rd_data t)))" "length (rd_data t') + n = length (rd_data t)"
    "\<exists>gone \<subseteq> {r. old_datum cutoff t r}. rd_data t' = filter (\<lambda>r. r \<notin> gone) (rd_data t)"
    "t' = t\<lparr>rd_data := rd_data t'\<rparr>" by blast+
qed

interpretation data: batch_delete "delete_data so cutoff" rd_data "old_datum cutoff" "scan_ok so" for so cutoff
proof
  fix t n t'
  assume ok: "scan_ok so t" and d: "delete_data so cutoff t = Inr (n, t')"
  note b = datum_batch [OF ok d]
  obtain gone where g: "gone \<subseteq> {r. old_datum cutoff t r}" "rd_data t' = filter (\<lambda>r. r \<notin> gone) (rd_data t)" using b(3) by blast
  show "scan_ok so t'"
    using ok g(2) by (subst b(4)) (auto simp: scan_ok_def tables_ok_def intro: distinct_map_kept)
  have "max_where dw_ledger (\<lambda>x. dw_contract x = c \<and> dw_key_hash x = h) (rd_data t')
      = max_where dw_ledger (\<lambda>x. dw_contract x = c \<and> dw_key_hash x = h) (rd_data t)" for c h
    unfolding g(2) using g(1) by (intro max_where_kept) (auto simp: old_datum_def)
  then show "old_datum cutoff t' = old_datum cutoff t" by (simp add: old_datum_def fun_eq_iff)
  show "n = min BATCH (length (filter (old_datum cutoff t) (rd_data t)))" by (rule b(1))
  show "length (rd_data t') + n = length (rd_data t)
    \<and> (\<exists>gone \<subseteq> {r. old_datum cutoff t r}. rd_data t' = filter (\<lambda>r. r \<notin> gone) (rd_data t))" using b(2,3) by blast
qed

lemma versions_batch:
  assumes "scan_ok so t" "delete_versions old so cutoff t = Inr (n, t')"
  shows "n = min BATCH (length (filter (old cutoff t) (rd_versions t)))" "length (rd_versions t') + n = length (rd_versions t)"
    "\<exists>gone \<subseteq> {r. old cutoff t r}. rd_versions t' = filter (\<lambda>r. r \<notin> gone) (rd_versions t)"
    "t' = drop_versions (rd_versions t') t"
proof -
  have d: "delete_rows (so_versions so) (old cutoff t) (rd_versions t) = (n, rd_versions t')" and t': "t' = drop_versions (rd_versions t') t"
    using assms(2) by (auto simp: delete_versions_def drop_versions_def split: prod.splits)
  have "distinct (rd_versions t)" "\<And>xs. mset (so_versions so xs) = mset xs"
    using assms(1) by (auto simp: scan_ok_def tables_ok_def scans_all_def distinct_map)
  from delete_rows_facts [OF d this] t'
  show "n = min BATCH (length (filter (old cutoff t) (rd_versions t)))" "length (rd_versions t') + n = length (rd_versions t)"
    "\<exists>gone \<subseteq> {r. old cutoff t r}. rd_versions t' = filter (\<lambda>r. r \<notin> gone) (rd_versions t)"
    "t' = drop_versions (rd_versions t') t" by blast+
qed

lemma drop_versions_pending:
  assumes "gone \<subseteq> {v. unclaimed_version cutoff t v}" "rows = filter (\<lambda>v. v \<notin> gone) (rd_versions t)"
    and "d \<in> set (rd_deliveries t)" "d_status d = Pending"
  shows "d \<in> set (rd_deliveries (drop_versions rows t))"
proof -
  have "\<not> has_pending (UpgradeSource (int (sv_id v))) (rd_deliveries t)" if "v \<in> set (rd_versions t)" "v \<notin> set rows" for v
    using that assms(1,2) by (auto simp: unclaimed_version_def)
  then show ?thesis using assms(3,4) by (auto simp: drop_versions_def list_ex_iff has_pending_def)
qed

lemma drop_versions_has_pending:
  assumes "gone \<subseteq> {v. unclaimed_version cutoff t v}" "rows = filter (\<lambda>v. v \<notin> gone) (rd_versions t)"
  shows "has_pending s (rd_deliveries (drop_versions rows t)) = has_pending s (rd_deliveries t)"
proof -
  have "set (rd_deliveries (drop_versions rows t)) \<subseteq> set (rd_deliveries t)" by (auto simp: drop_versions_def)
  then show ?thesis using drop_versions_pending [OF assms] by (auto simp: has_pending_def list_ex_iff)
qed

interpretation versions: batch_delete "delete_versions old_version so cutoff" rd_versions "old_version cutoff" "scan_ok so" for so cutoff
proof
  fix t n t'
  assume ok: "scan_ok so t" and d: "delete_versions old_version so cutoff t = Inr (n, t')"
  note b = versions_batch [OF ok d]
  obtain gone where g: "gone \<subseteq> {r. old_version cutoff t r}" "rd_versions t' = filter (\<lambda>r. r \<notin> gone) (rd_versions t)" using b(3) by blast
  have u: "gone \<subseteq> {v. unclaimed_version cutoff t v}" using g(1) by (auto simp: old_version_def)
  show "scan_ok so t'"
    using ok g(2) by (subst b(4)) (auto simp: scan_ok_def tables_ok_def drop_versions_def intro: distinct_map_kept)
  have "max_where sv_version (\<lambda>x. sv_contract_id x = c) (rd_versions t') = max_where sv_version (\<lambda>x. sv_contract_id x = c) (rd_versions t)" for c
    unfolding g(2) using g(1) by (intro max_where_kept) (auto simp: old_version_def)
  moreover have "has_pending s (rd_deliveries t') = has_pending s (rd_deliveries t)" for s
    using drop_versions_has_pending [OF u g(2)] b(4) by simp
  ultimately show "old_version cutoff t' = old_version cutoff t" by (simp add: old_version_def unclaimed_version_def fun_eq_iff)
  show "n = min BATCH (length (filter (old_version cutoff t) (rd_versions t)))" by (rule b(1))
  show "length (rd_versions t') + n = length (rd_versions t)
    \<and> (\<exists>gone \<subseteq> {r. old_version cutoff t r}. rd_versions t' = filter (\<lambda>r. r \<notin> gone) (rd_versions t))" using b(2,3) by blast
qed

section \<open>A whole pass\<close>

lemma prune_batched_frame:
  assumes "\<And>t n t'. del t = Inr (n, t') \<Longrightarrow> g t' = g t" "prune_batched k del t = (r, t')"
  shows "g t' = g t"
  using assms(2)
proof (induction k arbitrary: t r)
  case (Suc k)
  then show ?case by (auto split: sum.splits if_splits prod.splits dest!: assms(1))
qed simp

abbreviation unchanged_by :: "(retention_db \<Rightarrow> 'a) \<Rightarrow> (retention_db \<Rightarrow> retention_error + nat \<times> retention_db) \<Rightarrow> bool" where
  "unchanged_by g del \<equiv> \<forall>t n t'. del t = Inr (n, t') \<longrightarrow> g t' = g t"

lemma statement_frames:
  "unchanged_by rd_deliveries (delete_events so cutoff)" "unchanged_by rd_states (delete_events so cutoff)"
  "unchanged_by rd_data (delete_events so cutoff)" "unchanged_by rd_versions (delete_events so cutoff)"
  "unchanged_by rd_tables (delete_states so cutoff)" "unchanged_by rd_deliveries (delete_states so cutoff)"
  "unchanged_by rd_data (delete_states so cutoff)" "unchanged_by rd_versions (delete_states so cutoff)"
  "unchanged_by rd_tables (delete_data so cutoff)" "unchanged_by rd_deliveries (delete_data so cutoff)"
  "unchanged_by rd_states (delete_data so cutoff)" "unchanged_by rd_versions (delete_data so cutoff)"
  "unchanged_by rd_tables (delete_versions old so cutoff)" "unchanged_by rd_states (delete_versions old so cutoff)"
  "unchanged_by rd_data (delete_versions old so cutoff)"
  by (auto simp: delete_events_def delete_states_def delete_data_def delete_versions_def drop_versions_def Let_def
      split: option.splits prod.splits)

lemma pass_frame: "unchanged_by g del \<Longrightarrow> prune_batched k del t = (r, t') \<Longrightarrow> g t' = g t"
  using prune_batched_frame [of del g k t r t'] by blast

lemmas pass_frames = statement_frames [THEN pass_frame]

text \<open>A pass over the versions only removes deliveries, and no pending one.\<close>

lemma versions_pass_deliveries:
  assumes "scan_ok so t" "prune_batched k (delete_versions old_version so cutoff) t = (r, t')"
  shows "set (rd_deliveries t') \<subseteq> set (rd_deliveries t) \<and> (\<forall>d \<in> set (rd_deliveries t). d_status d = Pending \<longrightarrow> d \<in> set (rd_deliveries t'))"
  using assms
proof (induction k arbitrary: t r)
  case (Suc k)
  obtain n u where d: "delete_versions old_version so cutoff t = Inr (n, u)"
    unfolding delete_versions_def by (metis (no_types, lifting) case_prod_conv prod.exhaust)
  note b = versions_batch [OF Suc.prems(1) d]
  obtain gone where g: "gone \<subseteq> {v. old_version cutoff t v}" "rd_versions u = filter (\<lambda>v. v \<notin> gone) (rd_versions t)" using b(3) by blast
  have "gone \<subseteq> {v. unclaimed_version cutoff t v}" using g(1) by (auto simp: old_version_def)
  from drop_versions_pending [OF this g(2)] b(4)
  have u: "\<forall>d \<in> set (rd_deliveries t). d_status d = Pending \<longrightarrow> d \<in> set (rd_deliveries u)" by simp
  have sub: "set (rd_deliveries u) \<subseteq> set (rd_deliveries t)" by (subst b(4)) (auto simp: drop_versions_def)
  show ?case
  proof (cases "n < BATCH")
    case True
    with Suc.prems(2) d u sub show ?thesis by simp
  next
    case False
    then obtain r' where "prune_batched k (delete_versions old_version so cutoff) u = (r', t')"
      using Suc.prems(2) d by (auto split: prod.splits)
    from Suc.IH [OF versions.keeps_ok [OF Suc.prems(1) d] this] u sub show ?thesis by blast
  qed
qed simp

lemma has_pending_kept:
  assumes "set ds' \<subseteq> set ds" "\<forall>d \<in> set ds. d_status d = Pending \<longrightarrow> d \<in> set ds'"
  shows "has_pending s ds' = has_pending s ds"
  using assms by (auto simp: has_pending_def list_ex_iff)

text \<open>What every stage keeps: rows that are not old, which rows count as old, and pending deliveries.\<close>

definition keeps_current :: "scan_order \<Rightarrow> int \<Rightarrow> retention_db \<Rightarrow> retention_db \<Rightarrow> bool" where
  "keeps_current so cutoff db db' \<longleftrightarrow> scan_ok so db'
     \<and> keeps_rows (\<lambda>db. et_events (rd_tables db)) (old_event cutoff) db db' \<and> keeps_rows rd_states (old_state cutoff) db db'
     \<and> keeps_rows rd_data (old_datum cutoff) db db' \<and> keeps_rows rd_versions (old_version cutoff) db db'
     \<and> set (rd_deliveries db') \<subseteq> set (rd_deliveries db)
     \<and> (\<forall>d \<in> set (rd_deliveries db). d_status d = Pending \<longrightarrow> d \<in> set (rd_deliveries db'))"

lemma keeps_rows_refl: "rows t' = rows t \<Longrightarrow> old t' = old t \<Longrightarrow> keeps_rows rows old t t'"
  by (simp add: keeps_rows_def)

lemma keeps_rows_trans: "keeps_rows rows old t u \<Longrightarrow> keeps_rows rows old u v \<Longrightarrow> keeps_rows rows old t v"
  unfolding keeps_rows_def by auto

lemma keeps_current_trans: "keeps_current so c t u \<Longrightarrow> keeps_current so c u v \<Longrightarrow> keeps_current so c t v"
  unfolding keeps_current_def by (blast intro: keeps_rows_trans)

lemma stage_keeps:
  assumes "scan_ok so t"
  shows "prune_batched k (delete_events so cutoff) t = (r, t') \<Longrightarrow> keeps_current so cutoff t t'"
    "prune_batched k (delete_states so cutoff) t = (r, t') \<Longrightarrow> keeps_current so cutoff t t'"
    "prune_batched k (delete_data so cutoff) t = (r, t') \<Longrightarrow> keeps_current so cutoff t t'"
    "prune_batched k (delete_versions old_version so cutoff) t = (r, t') \<Longrightarrow> keeps_current so cutoff t t'"
    "keeps_current so cutoff t (t\<lparr>rd_dropped := n\<rparr>)"
proof -
  note olds = old_event_def old_state_def old_datum_def old_version_def unclaimed_version_def fun_eq_iff
  show "keeps_current so cutoff t t'" if "prune_batched k (delete_events so cutoff) t = (r, t')"
    using events.pass_keeps [OF assms that] pass_frames(1-4) [OF that]
    by (auto simp: keeps_current_def olds intro!: keeps_rows_refl)
  show "keeps_current so cutoff t t'" if "prune_batched k (delete_states so cutoff) t = (r, t')"
    using states.pass_keeps [OF assms that] pass_frames(5-8) [OF that]
    by (auto simp: keeps_current_def olds intro!: keeps_rows_refl)
  show "keeps_current so cutoff t t'" if "prune_batched k (delete_data so cutoff) t = (r, t')"
    using data.pass_keeps [OF assms that] pass_frames(9-12) [OF that]
    by (auto simp: keeps_current_def olds intro!: keeps_rows_refl)
  show "keeps_current so cutoff t t'" if "prune_batched k (delete_versions old_version so cutoff) t = (r, t')"
  proof -
    have "has_pending s (rd_deliveries t') = has_pending s (rd_deliveries t)" for s
      using versions_pass_deliveries [OF assms that] by (intro has_pending_kept) blast+
    then have "keeps_rows (\<lambda>db. et_events (rd_tables db)) (old_event cutoff) t t'" "keeps_rows rd_states (old_state cutoff) t t'"
      "keeps_rows rd_data (old_datum cutoff) t t'"
      using pass_frames(13-15) [OF that] by (auto simp: olds intro!: keeps_rows_refl)
    then show ?thesis
      using versions.pass_keeps [OF assms that] versions_pass_deliveries [OF assms that] unfolding keeps_current_def by blast
  qed
  show "keeps_current so cutoff t (t\<lparr>rd_dropped := n\<rparr>)"
    using assms by (auto simp: keeps_current_def olds scan_ok_def tables_ok_def intro!: keeps_rows_refl)
qed

lemma keeps_current_refl: "scan_ok so db \<Longrightarrow> keeps_current so cutoff db db"
  by (simp add: keeps_current_def keeps_rows_def)

text \<open>The four stages of a pass that has something to do.\<close>

lemma prune_stages:
  assumes "scan_ok so db" "0 < retention" "0 < tip - retention"
  obtains r1 db1 r2 db2 r3 db3 r4 db4 where
    "prune_batched MAX_BATCHES (delete_events so (tip - retention)) db = (r1, db1)"
    "prune_batched MAX_BATCHES (delete_states so (tip - retention))
       (db1\<lparr>rd_dropped := rd_dropped db1 + count_dropped_deliveries (tip - retention) db1\<rparr>) = (r2, db2)"
    "prune_batched MAX_BATCHES (delete_data so (tip - retention)) db2 = (r3, db3)"
    "prune_batched MAX_BATCHES (delete_versions old_version so (tip - retention)) db3 = (r4, db4)"
    "keeps_current so (tip - retention) db db1" "keeps_current so (tip - retention) db db2"
    "keeps_current so (tip - retention) db db3" "keeps_current so (tip - retention) db db4"
    "prune so tip retention db = (case (r1, r2, r3, r4) of
       (Inr a, Inr b, Inr c, Inr d) \<Rightarrow> (Inr (a + b + c + d), db4)
     | (Inl e, _) \<Rightarrow> (Inl e, db1) | (_, Inl e, _) \<Rightarrow> (Inl e, db2) | (_, _, Inl e, _) \<Rightarrow> (Inl e, db3) | (_, _, _, Inl e) \<Rightarrow> (Inl e, db4))"
proof -
  let ?c = "tip - retention"
  have ok: "scan_ok so t'" if "keeps_current so ?c t t'" for t t' using that by (simp add: keeps_current_def)
  obtain r1 db1 where s1: "prune_batched MAX_BATCHES (delete_events so ?c) db = (r1, db1)" by fastforce
  note k1 = stage_keeps(1) [OF assms(1) s1]
  note k1' = keeps_current_trans [OF k1 stage_keeps(5) [OF ok [OF k1], of _ "rd_dropped db1 + count_dropped_deliveries ?c db1"]]
  obtain r2 db2 where s2: "prune_batched MAX_BATCHES (delete_states so ?c)
       (db1\<lparr>rd_dropped := rd_dropped db1 + count_dropped_deliveries ?c db1\<rparr>) = (r2, db2)" by fastforce
  note k2 = keeps_current_trans [OF k1' stage_keeps(2) [OF ok [OF k1'] s2]]
  obtain r3 db3 where s3: "prune_batched MAX_BATCHES (delete_data so ?c) db2 = (r3, db3)" by fastforce
  note k3 = keeps_current_trans [OF k2 stage_keeps(3) [OF ok [OF k2] s3]]
  obtain r4 db4 where s4: "prune_batched MAX_BATCHES (delete_versions old_version so ?c) db3 = (r4, db4)" by fastforce
  note k4 = keeps_current_trans [OF k3 stage_keeps(4) [OF ok [OF k3] s4]]
  show thesis
    by (rule that [OF s1 s2 s3 s4 k1 k2 k3 k4])
      (use assms(2,3) in \<open>simp add: prune_def Let_def and_then_def s1 s2 s3 s4 split: sum.splits\<close>)
qed

lemma prune_keeps:
  assumes "scans_all so" "tables_ok db" "prune so tip retention db = (r, db')"
  shows "keeps_current so (tip - retention) db db'"
proof (cases "retention \<le> 0 \<or> tip - retention \<le> 0")
  case True
  with assms show ?thesis by (simp add: prune_def Let_def keeps_current_refl scan_ok_def)
next
  case False
  have ok: "scan_ok so db" using assms(1,2) by (simp add: scan_ok_def)
  show ?thesis
    by (rule prune_stages [OF ok, of retention tip]) (use assms(3) False in \<open>auto split: sum.splits\<close>)
qed

text \<open>
  Claim C4. A pass never loses current data, whether it succeeds or stops half way: an event it removes is older than the window and
  has no pending delivery; the newest snapshot of every contract and of every storage key and the newest interface
  version of every contract stay, and with them the answers to \<^verbatim>\<open>max(ledger)\<close>; no pending delivery is removed.
\<close>
theorem prune_keeps_current:
  assumes "scans_all so" "tables_ok db" "prune so tip retention db = (r, db')"
  shows "(\<forall>e \<in> set (et_events (rd_tables db)). e \<notin> set (et_events (rd_tables db')) \<longrightarrow>
        ne_ledger e < tip - retention \<and> \<not> has_pending (EventSource (ne_event_id e)) (rd_deliveries db))
    \<and> (\<forall>c. max_where sw_ledger (\<lambda>x. sw_contract x = c) (rd_states db') = max_where sw_ledger (\<lambda>x. sw_contract x = c) (rd_states db))
    \<and> (\<forall>c h. max_where dw_ledger (\<lambda>x. dw_contract x = c \<and> dw_key_hash x = h) (rd_data db')
        = max_where dw_ledger (\<lambda>x. dw_contract x = c \<and> dw_key_hash x = h) (rd_data db))
    \<and> (\<forall>c. max_where sv_version (\<lambda>x. sv_contract_id x = c) (rd_versions db') = max_where sv_version (\<lambda>x. sv_contract_id x = c) (rd_versions db))
    \<and> (\<forall>d \<in> set (rd_deliveries db). d_status d = Pending \<longrightarrow> d \<in> set (rd_deliveries db'))"
proof -
  have k: "keeps_current so (tip - retention) db db'" by (rule prune_keeps [OF assms])
  have "(\<forall>e \<in> set (et_events (rd_tables db)). e \<notin> set (et_events (rd_tables db')) \<longrightarrow>
        ne_ledger e < tip - retention \<and> \<not> has_pending (EventSource (ne_event_id e)) (rd_deliveries db))"
    using k by (auto simp: keeps_current_def keeps_rows_def old_event_def)
  moreover have "max_where sw_ledger (\<lambda>x. sw_contract x = c) (rd_states db') = max_where sw_ledger (\<lambda>x. sw_contract x = c) (rd_states db)" for c
    using k by (intro max_where_subset) (auto simp: keeps_current_def keeps_rows_def old_state_def)
  moreover have "max_where dw_ledger (\<lambda>x. dw_contract x = c \<and> dw_key_hash x = h) (rd_data db')
      = max_where dw_ledger (\<lambda>x. dw_contract x = c \<and> dw_key_hash x = h) (rd_data db)" for c h
    using k by (intro max_where_subset) (auto simp: keeps_current_def keeps_rows_def old_datum_def)
  moreover have "max_where sv_version (\<lambda>x. sv_contract_id x = c) (rd_versions db') = max_where sv_version (\<lambda>x. sv_contract_id x = c) (rd_versions db)" for c
    using k by (intro max_where_subset) (auto simp: keeps_current_def keeps_rows_def old_version_def)
  ultimately show ?thesis using k by (auto simp: keeps_current_def)
qed

definition referenced :: "retention_db \<Rightarrow> new_event \<Rightarrow> bool" where
  "referenced db e = list_ex (\<lambda>d. d_source d = Some (EventSource (ne_event_id e))) (rd_deliveries db)"

definition unreferenced :: "int \<Rightarrow> retention_db \<Rightarrow> bool" where
  "unreferenced cutoff db \<longleftrightarrow> (\<forall>e \<in> set (et_events (rd_tables db)). old_event cutoff db e \<longrightarrow> \<not> referenced db e)"

lemma delete_events_succeeds:
  assumes "scan_ok so db" "unreferenced cutoff db"
  shows "\<not> isl (delete_events so cutoff db)"
proof -
  let ?found = "so_events so (filter (old_event cutoff db) (et_events (rd_tables db)))"
  have "set ?found = set (filter (old_event cutoff db) (et_events (rd_tables db)))"
    using assms(1) by (metis scan_ok_def scans_all_def set_mset_mset)
  then have "\<forall>i \<in> set (map ne_event_id (take BATCH (sort_key ne_ledger ?found))).
      \<not> list_ex (\<lambda>d. d_source d = Some (EventSource i)) (rd_deliveries db)"
    using assms(2) by (auto simp: unreferenced_def referenced_def dest!: in_set_takeD)
  then have "find (\<lambda>i. list_ex (\<lambda>d. d_source d = Some (EventSource i)) (rd_deliveries db))
      (map ne_event_id (take BATCH (sort_key ne_ledger ?found))) = None" by (simp add: find_None_iff)
  then show ?thesis by (simp add: delete_events_def Let_def)
qed

lemma unreferenced_kept:
  assumes "scan_ok so db" "unreferenced cutoff db" "delete_events so cutoff db = Inr (n, db')"
  shows "unreferenced cutoff db'"
proof -
  have "rd_deliveries db' = rd_deliveries db" using statement_frames(1) assms(3) by blast
  moreover have "set (et_events (rd_tables db')) \<subseteq> set (et_events (rd_tables db))"
    using events.removes [OF assms(1,3)] by auto
  ultimately show ?thesis using assms(2) by (auto simp: unreferenced_def old_event_def referenced_def)
qed

lemma later_stages_succeed: "\<not> isl (delete_states so c u)" "\<not> isl (delete_data so c u)" "\<not> isl (delete_versions old so c u)"
  by (simp_all add: delete_states_def delete_data_def delete_versions_def split: prod.splits)

lemma prune_pass:
  assumes "scans_all so" "tables_ok db" "0 < retention" "0 < tip - retention" "unreferenced (tip - retention) db"
    and "length (filter (old_event (tip - retention) db) (et_events (rd_tables db))) < 50000"
    and "length (filter (old_state (tip - retention) db) (rd_states db)) < 50000"
    and "length (filter (old_datum (tip - retention) db) (rd_data db)) < 50000"
    and "length (filter (old_version (tip - retention) db) (rd_versions db)) < 50000"
  shows "\<exists>n db'. prune so tip retention db = (Inr n, db')
    \<and> et_events (rd_tables db') = filter (\<lambda>e. \<not> old_event (tip - retention) db e) (et_events (rd_tables db))
    \<and> rd_states db' = filter (\<lambda>x. \<not> old_state (tip - retention) db x) (rd_states db)
    \<and> rd_data db' = filter (\<lambda>x. \<not> old_datum (tip - retention) db x) (rd_data db)
    \<and> rd_versions db' = filter (\<lambda>v. \<not> old_version (tip - retention) db v) (rd_versions db)"
proof -
  let ?c = "tip - retention"
  have ok: "scan_ok so db" using assms(1,2) by (simp add: scan_ok_def)
  have cap: "MAX_BATCHES * BATCH = 50000" by (simp add: MAX_BATCHES_def BATCH_def)
  show ?thesis
  proof (rule prune_stages [OF ok assms(3,4)])
    fix r1 db1 r2 db2 r3 db3 r4 db4
    let ?db1 = "db1\<lparr>rd_dropped := rd_dropped db1 + count_dropped_deliveries ?c db1\<rparr>"
    assume s1: "prune_batched MAX_BATCHES (delete_events so ?c) db = (r1, db1)"
      and s2: "prune_batched MAX_BATCHES (delete_states so ?c) ?db1 = (r2, db2)"
      and s3: "prune_batched MAX_BATCHES (delete_data so ?c) db2 = (r3, db3)"
      and s4: "prune_batched MAX_BATCHES (delete_versions old_version so ?c) db3 = (r4, db4)"
      and k1: "keeps_current so ?c db db1" and k2: "keeps_current so ?c db db2" and k3: "keeps_current so ?c db db3"
      and p: "prune so tip retention db = (case (r1, r2, r3, r4) of
         (Inr a, Inr b, Inr c, Inr d) \<Rightarrow> (Inr (a + b + c + d), db4)
       | (Inl e, _) \<Rightarrow> (Inl e, db1) | (_, Inl e, _) \<Rightarrow> (Inl e, db2) | (_, _, Inl e, _) \<Rightarrow> (Inl e, db3) | (_, _, _, Inl e) \<Rightarrow> (Inl e, db4))"
    have ok1: "scan_ok so ?db1" "scan_ok so db2" "scan_ok so db3" "old_state ?c ?db1 = old_state ?c db"
      "old_datum ?c db2 = old_datum ?c db" "old_version ?c db3 = old_version ?c db"
      using k1 k2 k3 by (auto simp: keeps_current_def keeps_rows_def scan_ok_def tables_ok_def old_state_def fun_eq_iff)
    note f = pass_frames(1-4) [OF s1] pass_frames(5-8) [OF s2] pass_frames(9-12) [OF s3] pass_frames(13-15) [OF s4]
    obtain n1 n2 n3 n4 where n: "r1 = Inr n1" "r2 = Inr n2" "r3 = Inr n3" "r4 = Inr n4"
      using events.pass_reports [OF ok, of "unreferenced ?c" ?c MAX_BATCHES] assms(5) delete_events_succeeds unreferenced_kept
        states.pass_reports [OF ok1(1), of "\<lambda>u. True" ?c MAX_BATCHES] data.pass_reports [OF ok1(2), of "\<lambda>u. True" ?c MAX_BATCHES]
        versions.pass_reports [OF ok1(3), of "\<lambda>u. True" ?c MAX_BATCHES] later_stages_succeed s1 s2 s3 s4
      by (metis prod.inject)
    have "et_events (rd_tables db1) = filter (\<lambda>e. \<not> old_event ?c db e) (et_events (rd_tables db))"
      using events.pass_exact(1) [OF ok s1 [unfolded n]] assms(6) cap by simp
    moreover have "rd_states db2 = filter (\<lambda>x. \<not> old_state ?c db x) (rd_states db)"
      using states.pass_exact(1) [OF ok1(1) s2 [unfolded n]] assms(7) cap ok1(4) f by simp
    moreover have "rd_data db3 = filter (\<lambda>x. \<not> old_datum ?c db x) (rd_data db)"
      using data.pass_exact(1) [OF ok1(2) s3 [unfolded n]] assms(8) cap ok1(5) f by simp
    moreover have "rd_versions db4 = filter (\<lambda>v. \<not> old_version ?c db v) (rd_versions db)"
      using versions.pass_exact(1) [OF ok1(3) s4 [unfolded n]] assms(9) cap ok1(6) f by simp
    ultimately show ?thesis using p n f by simp
  qed
qed

text \<open>
  Claim C34. When no delivery refers to an event that is due, one pass removes exactly what the window demands, as long as no table
  has fifty thousand rows due: every event older than the window without a pending delivery, every superseded snapshot
  older than the window, and every superseded interface version older than the window without a pending delivery.
\<close>
theorem prune_exact:
  assumes "scans_all so" "tables_ok db" "0 < retention" "0 < tip - retention" "unreferenced (tip - retention) db"
    and "length (filter (old_event (tip - retention) db) (et_events (rd_tables db))) < 50000"
    and "length (filter (old_state (tip - retention) db) (rd_states db)) < 50000"
    and "length (filter (old_datum (tip - retention) db) (rd_data db)) < 50000"
    and "length (filter (old_version (tip - retention) db) (rd_versions db)) < 50000"
  shows "\<exists>n db'. prune so tip retention db = (Inr n, db')
    \<and> et_events (rd_tables db') = filter (\<lambda>e. \<not> old_event (tip - retention) db e) (et_events (rd_tables db))
    \<and> rd_states db' = filter (\<lambda>x. \<not> old_state (tip - retention) db x) (rd_states db)
    \<and> rd_data db' = filter (\<lambda>x. \<not> old_datum (tip - retention) db x) (rd_data db)
    \<and> rd_versions db' = filter (\<lambda>v. \<not> old_version (tip - retention) db v) (rd_versions db)"
  by (rule prune_pass [OF assms])


lemma nothing_due:
  assumes "\<And>xs. mset (scan xs) = mset xs" "\<forall>r \<in> set rows. \<not> old r"
  shows "delete_rows scan old rows = (0, rows)"
proof -
  have "filter old rows = []" using assms(2) by (simp add: filter_empty_conv)
  moreover have "scan [] = []" using assms(1) [of "[]"] by simp
  ultimately show ?thesis by (simp add: delete_rows_def)
qed

lemma versions_idle:
  assumes "scans_all so" "\<forall>v \<in> set (rd_versions db). \<not> old c db v"
  shows "prune_batched MAX_BATCHES (delete_versions old so c) db = (Inr 0, db)"
proof -
  have "delete_versions old so c db = Inr (0, drop_versions (rd_versions db) db)"
    using nothing_due [of "so_versions so" "rd_versions db" "old c db"] assms by (simp add: delete_versions_def scans_all_def)
  moreover have "drop_versions (rd_versions db) db = db" by (simp add: drop_versions_def list_ex_iff)
  ultimately show ?thesis by (simp add: MAX_BATCHES_def BATCH_def eval_nat_numeral)
qed

lemma keep_from_le:
  assumes "max_where sv_version (\<lambda>x. sv_contract_id x = c) vs = Some m" "0 < m"
  shows "keep_from n c vs \<le> m"
proof -
  let ?ls = "take n (drop 1 (rev (sort (map sv_version (filter (\<lambda>v. sv_contract_id v = c) vs)))))"
  have sub: "set ?ls \<subseteq> sv_version ` {v \<in> set vs. sv_contract_id v = c}" by (auto dest!: in_set_takeD in_set_dropD)
  have m: "\<forall>l \<in> set ?ls. l \<le> m" using sub assms(1) unfolding max_where_eq by blast
  have le: "fold min xs x \<le> x" for xs and x :: int 
    by (induction xs arbitrary: x) (simp, metis fold_simps(2) min.boundedE min.cobounded2 order_trans)
  show ?thesis
  proof (cases ?ls)
    case (Cons l xs)
    then have "l \<le> m" using m by (metis list.set_intros(1))
    with Cons le [of xs l] show ?thesis by (simp add: keep_from_def)
  qed (simp only: keep_from_def, use assms(2) in simp)
qed

lemma beyond_newest_old:
  assumes "beyond_newest n c db v" "v \<in> set (rd_versions db)" "0 < sv_version v"
  shows "old_version c db v"
proof -
  obtain m where m: "max_where sv_version (\<lambda>x. sv_contract_id x = sv_contract_id v) (rd_versions db) = Some m" "sv_version v \<le> m"
    using assms(2) by (metis (mono_tags, lifting) max_where_eq max_where_none not_None_eq)
  then show ?thesis using keep_from_le [OF m(1), of n] assms(1,3)
    by (simp add: beyond_newest_def old_version_def below_def)
qed

text \<open>
  The number of interface versions to keep has no effect: a pass that got through the version table has already
  removed every superseded version older than the window, so the statement that is meant to spare the newest versions
  finds nothing to delete, whatever that number is.
\<close>
theorem version_retention_void:
  assumes "scans_all so" "tables_ok db" "\<forall>v \<in> set (rd_versions db). 0 < sv_version v"
    and "prune so tip retention db = (Inr n, db')" "length (filter (old_version (tip - retention) db) (rd_versions db)) < 50000"
  shows "prune_spec_versions so tip retention k db' = (Inr 0, db')"
proof (cases "retention \<le> 0 \<or> tip - retention \<le> 0")
  case False
  let ?c = "tip - retention"
  have ok: "scan_ok so db" using assms(1,2) by (simp add: scan_ok_def)
  have cap: "MAX_BATCHES * BATCH = 50000" by (simp add: MAX_BATCHES_def BATCH_def)
  have rows: "rd_versions db' = filter (\<lambda>v. \<not> old_version ?c db v) (rd_versions db)"
  proof (rule prune_stages [OF ok, of retention tip])
    fix r1 db1 r2 db2 r3 db3 r4 db4
    assume s1: "prune_batched MAX_BATCHES (delete_events so ?c) db = (r1, db1)"
      and s2: "prune_batched MAX_BATCHES (delete_states so ?c)
         (db1\<lparr>rd_dropped := rd_dropped db1 + count_dropped_deliveries ?c db1\<rparr>) = (r2, db2)"
      and s3: "prune_batched MAX_BATCHES (delete_data so ?c) db2 = (r3, db3)"
      and s4: "prune_batched MAX_BATCHES (delete_versions old_version so ?c) db3 = (r4, db4)"
      and k3: "keeps_current so ?c db db3"
      and p: "prune so tip retention db = (case (r1, r2, r3, r4) of
         (Inr a, Inr b, Inr c, Inr d) \<Rightarrow> (Inr (a + b + c + d), db4)
       | (Inl e, _) \<Rightarrow> (Inl e, db1) | (_, Inl e, _) \<Rightarrow> (Inl e, db2) | (_, _, Inl e, _) \<Rightarrow> (Inl e, db3) | (_, _, _, Inl e) \<Rightarrow> (Inl e, db4))"
    obtain d where d: "r4 = Inr d" "db' = db4" using p assms(4) by (auto split: sum.splits)
    have ok3: "scan_ok so db3" "old_version ?c db3 = old_version ?c db" using k3 by (auto simp: keeps_current_def keeps_rows_def)
    have "rd_versions db3 = rd_versions db"
      using pass_frames(4) [OF s1] pass_frames(8) [OF s2] pass_frames(12) [OF s3] by simp
    then show ?thesis using versions.pass_exact(1) [OF ok3(1) s4 [unfolded d(1)]] ok3(2) d(2) assms(5) cap by simp
  qed (use False in auto)
  moreover have "old_version ?c db' = old_version ?c db"
    using prune_keeps [OF assms(1,2,4)] by (simp add: keeps_current_def keeps_rows_def)
  ultimately have none: "\<forall>v \<in> set (rd_versions db'). \<not> old_version ?c db' v \<and> 0 < sv_version v" using assms(3) by auto
  then have "\<forall>v \<in> set (rd_versions db'). \<not> beyond_newest m ?c db' v" for m using beyond_newest_old by blast
  then show ?thesis
    using versions_idle [OF assms(1), of db' _ ?c] none by (simp add: prune_spec_versions_def Let_def)
qed (simp add: prune_spec_versions_def Let_def)

section \<open>Samples\<close>

definition as_stored :: scan_order where
  "as_stored = \<lparr>so_events = (\<lambda>xs. xs), so_states = (\<lambda>xs. xs), so_data = (\<lambda>xs. xs), so_versions = (\<lambda>xs. xs)\<rparr>"

lemma as_stored_ok: "scans_all as_stored"
  by (simp add: scans_all_def as_stored_def)

definition aged_delivery :: "delivery_status \<Rightarrow> delivery" where
  "aged_delivery st = \<lparr>d_id = 1, d_sub = 1, d_source = Some (EventSource ''a''), d_status = st, d_attempts = 1, d_next_attempt_at = 0,
     d_locked_until = None, d_locked_by = None, d_last_error = None, d_last_status_code = None, d_last_response_snippet = None,
     d_delivered_at = None, d_created_at = 0\<rparr>"

definition aged_db :: "delivery list \<Rightarrow> retention_db" where
  "aged_db ds = \<lparr>rd_tables = empty_tables\<lparr>et_events := [sample_new_event ''a'' 1, sample_new_event ''b'' 20]\<rparr>, rd_deliveries = ds,
     rd_states = [\<lparr>sw_contract = ''C'', sw_ledger = 1, sw_storage = Null\<rparr>, \<lparr>sw_contract = ''C'', sw_ledger = 5, sw_storage = Null\<rparr>],
     rd_data = [], rd_versions = [], rd_dropped = 0\<rparr>"

lemmas aged_defs = aged_db_def aged_delivery_def sample_new_event_def empty_tables_def as_stored_def

lemma aged_db_ok: "tables_ok (aged_db ds)"
  by (simp add: tables_ok_def aged_defs state_key_def)

theorem prune_keeps_current_witness:
  "case prune as_stored 20 10 (aged_db []) of (r, db') \<Rightarrow>
     max_where sw_ledger (\<lambda>x. sw_contract x = ''C'') (rd_states db') = Some 5"
proof -
  obtain r db' where p: "prune as_stored 20 10 (aged_db []) = (r, db')" by fastforce
  have "max_where sw_ledger (\<lambda>x. sw_contract x = ''C'') (rd_states (aged_db [])) = Some 5"
    by (simp add: aged_defs max_where_def)
  with prune_keeps_current [OF as_stored_ok aged_db_ok p] p show ?thesis by simp
qed

lemma aged_due:
  "unreferenced 10 (aged_db [])" "filter (old_event 10 (aged_db [])) (et_events (rd_tables (aged_db []))) = [sample_new_event ''a'' 1]"
  "filter (\<lambda>e. \<not> old_event 10 (aged_db []) e) (et_events (rd_tables (aged_db []))) = [sample_new_event ''b'' 20]"
  "length (filter (old_state 10 (aged_db [])) (rd_states (aged_db []))) = 1"
  "map sw_ledger (filter (\<lambda>x. \<not> old_state 10 (aged_db []) x) (rd_states (aged_db []))) = [5]"
  "rd_data (aged_db []) = []" "rd_versions (aged_db []) = []"
  by (simp_all add: unreferenced_def referenced_def aged_defs old_event_def has_pending_def old_state_def below_def max_where_def)

theorem prune_exact_witness:
  "\<exists>n db'. prune as_stored 20 10 (aged_db []) = (Inr n, db') \<and> et_events (rd_tables db') = [sample_new_event ''b'' 20]
     \<and> map sw_ledger (rd_states db') = [5]"
  using prune_exact [OF as_stored_ok aged_db_ok, of 10 20 "[]"] aged_due by auto


theorem version_retention_void_witness:
  "\<exists>n db'. prune as_stored 20 10 (aged_db []) = (Inr n, db') \<and> prune_spec_versions as_stored 20 10 3 db' = (Inr 0, db')"
proof -
  obtain n db' where p: "prune as_stored 20 10 (aged_db []) = (Inr n, db')"
    using prune_pass [OF as_stored_ok aged_db_ok, of 10 20 "[]"] aged_due by auto
  from version_retention_void [OF as_stored_ok aged_db_ok _ p, of 3] aged_due p show ?thesis by simp
qed

end
