(* ===== verification/Poll_Run.thy ===== *)
theory Poll_Run
  imports Gap_Replay Retention
begin

text \<open>
  The outer loop of \<^verbatim>\<open>crates/lumenqraph-indexer/src/poller.rs\<close>, \<^verbatim>\<open>run\<close>: poll cycles, the backoff and circuit breaker between
  them, and the retention passes, over the state of \<open>Poller\<close> and the tables of \<open>Retention\<close>. The loop runs for as long as
  there are inputs: an input is the outside of one cycle, the clock after it and whether a shutdown arrives during the
  sleep. Durations are whole seconds, as in the configuration. The error streak is a number that does not wrap around,
  unlike the \<^verbatim>\<open>u32\<close> of the code, which would take over a century of failing cycles.
\<close>

section \<open>State\<close>

record run_config =
  rc_poll :: poll_config
  rc_poll_interval_secs :: nat
  rc_degraded_poll_interval_secs :: nat
  rc_max_consecutive_errors :: nat
  rc_retention_ledgers :: int
  rc_spec_version_retention :: int

record run_input =
  ri_cycle :: cycle_input
  ri_now :: int
  ri_shutdown :: bool

record 'c run_state =
  ru_ix :: "'c indexer"
  ru_deliveries :: "delivery list"
  ru_dropped :: nat
  ru_backoff :: nat
  ru_last_prune :: "int option"
  ru_consecutive_errors :: nat

datatype run_end = Running | ShutDown | Exited poll_error

definition PRUNE_INTERVAL :: int where
  "PRUNE_INTERVAL = 60"

definition base_interval :: "run_config \<Rightarrow> nat" where
  "base_interval cfg = max (rc_poll_interval_secs cfg) 1"

definition degraded_interval :: "run_config \<Rightarrow> nat" where
  "degraded_interval cfg = max (rc_degraded_poll_interval_secs cfg) 1"

definition run_init :: "run_config \<Rightarrow> delivery list \<Rightarrow> 'c indexer \<Rightarrow> 'c run_state" where
  "run_init cfg ds ix = \<lparr>ru_ix = ix, ru_deliveries = ds, ru_dropped = 0, ru_backoff = base_interval cfg, ru_last_prune = None,
     ru_consecutive_errors = 0\<rparr>"

section \<open>Retention inside the loop\<close>

text \<open>The tables the pruner sees, and the state after it changed them.\<close>

definition retention_view :: "'c run_state \<Rightarrow> retention_db" where
  "retention_view rs = \<lparr>rd_tables = ix_tables (ru_ix rs), rd_deliveries = ru_deliveries rs, rd_states = ss_states (ix_snap (ru_ix rs)),
     rd_data = ix_data (ru_ix rs), rd_versions = st_versions (ss_specs (ix_snap (ru_ix rs))), rd_dropped = ru_dropped rs\<rparr>"

definition with_retention :: "retention_db \<Rightarrow> 'c run_state \<Rightarrow> 'c run_state" where
  "with_retention db rs =
     (let ix = ru_ix rs; snap = ix_snap ix
      in rs\<lparr>ru_ix := ix\<lparr>ix_tables := rd_tables db, ix_data := rd_data db,
                ix_snap := snap\<lparr>ss_states := rd_states db, ss_specs := (ss_specs snap)\<lparr>st_versions := rd_versions db\<rparr>\<rparr>\<rparr>,
            ru_deliveries := rd_deliveries db, ru_dropped := rd_dropped db\<rparr>)"

definition prune_due :: "run_config \<Rightarrow> int \<Rightarrow> 'c run_state \<Rightarrow> bool" where
  "prune_due cfg now rs \<longleftrightarrow> rc_retention_ledgers cfg > 0
     \<and> (case ru_last_prune rs of None \<Rightarrow> True | Some t \<Rightarrow> PRUNE_INTERVAL \<le> now - t)"

definition maintain :: "scan_order \<Rightarrow> run_config \<Rightarrow> int \<Rightarrow> int \<Rightarrow> 'c run_state \<Rightarrow> 'c run_state" where
  "maintain so cfg now ledger rs =
     (if prune_due cfg now rs
      then (let db = snd (prune so ledger (rc_retention_ledgers cfg) (retention_view rs));
                db = (if rc_spec_version_retention cfg > 0
                      then snd (prune_spec_versions so ledger (rc_retention_ledgers cfg) (rc_spec_version_retention cfg) db)
                      else db)
            in (with_retention db rs)\<lparr>ru_last_prune := Some now\<rparr>)
      else rs)"

section \<open>The loop\<close>

fun non_retryable :: "poll_error \<Rightarrow> bool" where
  "non_retryable (PollRpc e) = is_non_retryable_rpc_error e"
| "non_retryable _ = False"

definition on_success :: "scan_order \<Rightarrow> run_config \<Rightarrow> int \<Rightarrow> int option \<Rightarrow> 'c run_state \<Rightarrow> nat \<times> 'c run_state" where
  "on_success so cfg now processed_to rs =
     (let rs = (if ru_consecutive_errors rs > 0
                then rs\<lparr>ru_consecutive_errors := 0, ru_ix := with_cursor (set_consecutive_errors 0) (ru_ix rs)\<rparr> else rs);
          rs = rs\<lparr>ru_backoff := base_interval cfg\<rparr>
      in (base_interval cfg, case processed_to of Some ledger \<Rightarrow> maintain so cfg now ledger rs | None \<Rightarrow> rs))"

definition circuit_open :: "run_config \<Rightarrow> nat \<Rightarrow> bool" where
  "circuit_open cfg n \<longleftrightarrow> rc_max_consecutive_errors cfg > 0 \<and> n \<ge> rc_max_consecutive_errors cfg"

definition on_error :: "run_config \<Rightarrow> 'c run_state \<Rightarrow> nat \<times> 'c run_state" where
  "on_error cfg rs =
     (let n = ru_consecutive_errors rs + 1;
          rs = rs\<lparr>ru_consecutive_errors := n, ru_ix := with_cursor (set_consecutive_errors (int n)) (with_cursor incr_errors (ru_ix rs))\<rparr>
      in if circuit_open cfg n then (degraded_interval cfg, rs\<lparr>ru_backoff := degraded_interval cfg\<rparr>)
         else (ru_backoff rs, rs\<lparr>ru_backoff := min (ru_backoff rs * 2) 60\<rparr>))"

text \<open>One turn: the end of the loop, or the seconds to sleep, with the state after it.\<close>

definition run_step ::
  "'c poll_env \<Rightarrow> scan_order \<Rightarrow> run_config \<Rightarrow> run_input \<Rightarrow> 'c run_state \<Rightarrow> ((poll_error + nat) \<times> 'c run_state) option" where
  "run_step env so cfg inp rs =
     map_option (\<lambda>(r, ix).
       let rs = rs\<lparr>ru_ix := ix\<rparr>
       in case r of
            Inr processed_to \<Rightarrow> map_prod Inr id (on_success so cfg (ri_now inp) processed_to rs)
          | Inl e \<Rightarrow> if non_retryable e then (Inl e, rs) else map_prod Inr id (on_error cfg rs))
       (poll_once env (rc_poll cfg) (ri_cycle inp) (ru_ix rs))"

text \<open>The trace holds, for every sleep, its length and the error streak that led to it.\<close>

fun run_loop ::
  "'c poll_env \<Rightarrow> scan_order \<Rightarrow> run_config \<Rightarrow> run_input list \<Rightarrow> 'c run_state \<Rightarrow> (run_end \<times> (nat \<times> nat) list \<times> 'c run_state) option" where
  "run_loop env so cfg [] rs = Some (Running, [], rs)"
| "run_loop env so cfg (inp # inps) rs =
     (case run_step env so cfg inp rs of
        None \<Rightarrow> None
      | Some (Inl e, rs) \<Rightarrow> Some (Exited e, [], rs)
      | Some (Inr secs, rs) \<Rightarrow>
          if ri_shutdown inp then Some (ShutDown, [(secs, ru_consecutive_errors rs)], rs)
          else map_option (\<lambda>(r, trace, rs'). (r, (secs, ru_consecutive_errors rs) # trace, rs')) (run_loop env so cfg inps rs))"

section \<open>The schedule\<close>

text \<open>The sleep the schedule prescribes after a streak of \<open>n\<close> failures.\<close>

definition scheduled :: "run_config \<Rightarrow> nat \<Rightarrow> nat" where
  "scheduled cfg n =
     (if n = 0 then base_interval cfg
      else if circuit_open cfg n then degraded_interval cfg
      else if n = 1 then base_interval cfg
      else min (base_interval cfg * 2 ^ (n - 1)) 60)"

definition backoff_ok :: "run_config \<Rightarrow> 'c run_state \<Rightarrow> bool" where
  "backoff_ok cfg rs \<longleftrightarrow> circuit_open cfg (ru_consecutive_errors rs)
     \<or> ru_backoff rs = (if ru_consecutive_errors rs = 0 then base_interval cfg else min (base_interval cfg * 2 ^ ru_consecutive_errors rs) 60)"

lemma circuit_stays_open: "circuit_open cfg n \<Longrightarrow> circuit_open cfg (Suc n)"
  by (simp add: circuit_open_def)

lemma maintain_keeps [simp]:
  "ru_backoff (maintain so cfg now l rs) = ru_backoff rs" "ru_consecutive_errors (maintain so cfg now l rs) = ru_consecutive_errors rs"
  by (simp_all add: maintain_def with_retention_def Let_def)

lemma on_success_schedule:
  assumes "on_success so cfg now p rs = (secs, rs')"
  shows "secs = scheduled cfg (ru_consecutive_errors rs') \<and> backoff_ok cfg rs' \<and> ru_consecutive_errors rs' = 0"
  using assms by (auto simp: on_success_def Let_def scheduled_def backoff_ok_def split: option.splits if_splits)

lemma min_double: "min (min x 60 * 2) 60 = min (x * 2) (60 :: nat)"
  by (simp add: min_def)

lemma on_error_schedule:
  assumes "on_error cfg rs = (secs, rs')" "backoff_ok cfg rs"
  shows "secs = scheduled cfg (ru_consecutive_errors rs') \<and> backoff_ok cfg rs' \<and> ru_consecutive_errors rs' = Suc (ru_consecutive_errors rs)"
proof -
  let ?n = "ru_consecutive_errors rs"
  have n: "ru_consecutive_errors rs' = Suc ?n" using assms(1) by (auto simp: on_error_def Let_def split: if_splits)
  show ?thesis
  proof (cases "circuit_open cfg (Suc ?n)")
    case True
    then show ?thesis using assms(1) n by (auto simp: on_error_def Let_def scheduled_def backoff_ok_def)
  next
    case False
    then have "\<not> circuit_open cfg ?n" using circuit_stays_open by blast
    then have b: "ru_backoff rs = (if ?n = 0 then base_interval cfg else min (base_interval cfg * 2 ^ ?n) 60)"
      using assms(2) by (simp add: backoff_ok_def)
    have "secs = ru_backoff rs" "ru_backoff rs' = min (ru_backoff rs * 2) 60"
      using assms(1) False by (auto simp: on_error_def Let_def)
    with b n False show ?thesis
      by (auto simp: scheduled_def backoff_ok_def min_double mult_ac)
  qed
qed

lemma run_loop_schedule:
  assumes "run_loop env so cfg inps rs = Some (r, trace, rs')" "backoff_ok cfg rs"
  shows "list_all (\<lambda>(secs, n). secs = scheduled cfg n) trace \<and> (\<forall>e. r = Exited e \<longrightarrow> non_retryable e)"
  using assms
proof (induction inps arbitrary: rs r trace rs')
  case (Cons inp inps)
  obtain q rs1 where s: "run_step env so cfg inp rs = Some (q, rs1)" using Cons.prems(1) by (auto split: option.splits)
  obtain p ix where p: "poll_once env (rc_poll cfg) (ri_cycle inp) (ru_ix rs) = Some (p, ix)" using s by (auto simp: run_step_def)
  have b: "backoff_ok cfg (rs\<lparr>ru_ix := ix\<rparr>)" using Cons.prems(2) by (auto simp: backoff_ok_def)
  show ?case
  proof (cases q)
    case (Inl e)
    then have "non_retryable e" using s p
      by (auto simp: run_step_def Let_def map_prod_def split: sum.splits if_splits prod.splits)
    with Inl s Cons.prems(1) show ?thesis by auto
  next
    case (Inr secs)
    have ok: "secs = scheduled cfg (ru_consecutive_errors rs1) \<and> backoff_ok cfg rs1"
    proof (cases p)
      case (Inl e)
      then have "on_error cfg (rs\<lparr>ru_ix := ix\<rparr>) = (secs, rs1)"
        using s p Inr by (auto simp: run_step_def Let_def map_prod_def split: if_splits prod.splits)
      from on_error_schedule [OF this b] show ?thesis by blast
    next
      case (Inr l)
      then have "on_success so cfg (ri_now inp) l (rs\<lparr>ru_ix := ix\<rparr>) = (secs, rs1)"
        using s p \<open>q = Inr secs\<close> by (auto simp: run_step_def Let_def map_prod_def split: prod.splits)
      from on_success_schedule [OF this] show ?thesis by blast
    qed
    show ?thesis
    proof (cases "ri_shutdown inp")
      case True
      with Inr s ok Cons.prems(1) show ?thesis by auto
    next
      case False
      then obtain tr where "run_loop env so cfg inps rs1 = Some (r, tr, rs')" "trace = (secs, ru_consecutive_errors rs1) # tr"
        using Inr s Cons.prems(1) by auto
      with Cons.IH ok show ?thesis by simp
    qed
  qed
qed simp

text \<open>
  Claim C35. The sleeps follow the schedule, whatever the cycles do: after a success the poll interval, after the \<open>n\<close>-th failure in
  a row the poll interval doubled \<open>n - 1\<close> times up to a minute, and the degraded interval once the configured number of
  failures is reached. The loop ends by itself only with an error that no retry can repair.
\<close>
theorem poll_loop_schedule:
  assumes "run_loop env so cfg inps (run_init cfg ds ix) = Some (r, trace, rs')"
  shows "list_all (\<lambda>(secs, n). secs = scheduled cfg n) trace \<and> (\<forall>e. r = Exited e \<longrightarrow> non_retryable e)"
proof -
  have "backoff_ok cfg (run_init cfg ds ix)" by (simp add: backoff_ok_def run_init_def)
  from run_loop_schedule [OF assms this] show ?thesis .
qed

text \<open>
  Claim C39. A first cycle that fails because the RPC does not answer makes the index forget its configured start: the error counter
  creates the cursor row at ledger 0, and the next cycle starts at ledger 1, whatever \<^verbatim>\<open>START_LEDGER\<close> says and
  wherever the tip is.
\<close>
theorem failed_start_forgets_ledger:
  assumes "ix_cursor ix = None" "cy_latest (ri_cycle inp) = Inl e" "\<not> is_non_retryable_rpc_error e"
  shows "\<exists>secs rs'. run_step env so cfg inp (run_init cfg ds ix) = Some (Inr secs, rs')
    \<and> start_of poll latest (ru_ix rs') = 1"
  using assms
  by (simp add: run_step_def poll_once_def run_init_def on_error_def Let_def with_cursor_def start_of_def read_last_processed_def
      counter_defs fresh_row_def)

section \<open>Samples\<close>

definition sample_run :: run_config where
  "sample_run = \<lparr>rc_poll = sample_cfg\<lparr>cf_start_ledger := 500\<rparr>, rc_poll_interval_secs = 5, rc_degraded_poll_interval_secs = 300,
     rc_max_consecutive_errors = 3, rc_retention_ledgers = 0, rc_spec_version_retention = 0\<rparr>"

definition outage :: run_input where
  "outage = \<lparr>ri_cycle = (sample_cycle 0)\<lparr>cy_latest := Inl RequestFailed\<rparr>, ri_now = 0, ri_shutdown = False\<rparr>"

theorem poll_loop_schedule_witness:
  "\<exists>rs'. run_loop sample_env as_stored sample_run [outage, outage, outage] (run_init sample_run [] sample_ix)
      = Some (Running, [(5, 1), (10, 2), (300, 3)], rs')
    \<and> list_all (\<lambda>(secs, n). secs = scheduled sample_run n) [(5, 1), (10, 2), (300, 3)]"
proof -
  obtain rs' where l: "run_loop sample_env as_stored sample_run [outage, outage, outage] (run_init sample_run [] sample_ix)
      = Some (Running, [(5, 1), (10, 2), (300, 3)], rs')"
    by (simp add: run_step_def poll_once_def outage_def sample_run_def run_init_def on_error_def Let_def circuit_open_def
        degraded_interval_def base_interval_def)
  from poll_loop_schedule [OF l] l show ?thesis by blast
qed

theorem failed_start_forgets_ledger_witness:
  "\<exists>secs rs'. run_step sample_env as_stored sample_run outage (run_init sample_run [] (sample_ix\<lparr>ix_cursor := None\<rparr>)) = Some (Inr secs, rs')
    \<and> start_of (rc_poll sample_run) 900 (ru_ix rs') = 1
    \<and> start_of (rc_poll sample_run) 900 (sample_ix\<lparr>ix_cursor := None\<rparr>) = 500"
proof -
  have "start_of (rc_poll sample_run) 900 (sample_ix\<lparr>ix_cursor := None\<rparr>) = 500"
    by (simp add: start_of_def read_last_processed_def sample_run_def)
  then show ?thesis
    using failed_start_forgets_ledger [of "sample_ix\<lparr>ix_cursor := None\<rparr>" outage RequestFailed sample_env as_stored sample_run "[]" "rc_poll sample_run" 900]
    by (simp add: outage_def)
qed

end
