(* ===== verification/Spec2Isabelle.thy ===== *)
theory Spec2Isabelle
  imports Int256 Scval Xdr_Cursor Wasm_Section Contract_Spec Enrich Spec_Diff Read_Encode Edit_Distance Read_Call Webhook_Enqueue Url_Validation Webhook_Deliver Poll_Run
begin

text \<open>
  Lumenqraph, a verification development.

  \<^bold>\<open>The program.\<close> Lumenqraph indexes the events of Soroban smart contracts. The indexer
  (\<^verbatim>\<open>crates/lumenqraph-indexer\<close>) polls an RPC, decodes and enriches the events with the interface each contract
  publishes in its WASM, and stores them in PostgreSQL; it snapshots contract storage and watches for upgrades. The
  core library (\<^verbatim>\<open>crates/lumenqraph-core\<close>) decodes XDR values, parses and diffs interfaces, encodes the arguments
  of read-only calls and validates URLs. The webhook service (\<^verbatim>\<open>crates/lumenqraph-webhooks\<close>) turns stored events and
  upgrades into signed deliveries. The API (\<^verbatim>\<open>crates/lumenqraph-api\<close>) serves what is stored. The parts meet in the
  database: the indexer writes events and versions, the webhook service reads them through watermarks and
  keeps its queue there, and the retention pass deletes from both.

  \<^bold>\<open>The theories\<close>, each with the source it translates.

  \<^item> \<open>Prelude\<close>, \<open>Dictionaries\<close>, \<open>Json\<close>: what the standard library and \<^verbatim>\<open>serde_json\<close> provide: results as sums, the
    parsers and printers of integers, ASCII texts, chunks, ordered and hashed maps (locale \<open>dict\<close>, interpreted by both), JSON
    values.
  \<^item> \<open>Int256\<close>: the 128 and 256 bit integers of \<^verbatim>\<open>xdr.rs\<close> and \<^verbatim>\<open>read.rs\<close>, limb by limb.
  \<^item> \<open>Scval\<close>, \<open>Xdr_Cursor\<close>: the two decoders of \<^verbatim>\<open>xdr.rs\<close>, the typed one and the byte reader with its depth limit.
  \<^item> \<open>Wasm_Section\<close>, \<open>Contract_Spec\<close>, \<open>Enrich\<close>: \<^verbatim>\<open>spec.rs\<close>, from the custom section to the indexed interface and the
    labelled event.
  \<^item> \<open>Spec_Diff\<close>: \<^verbatim>\<open>diff.rs\<close>.
  \<^item> \<open>Read_Encode\<close>, \<open>Edit_Distance\<close>, \<open>Read_Call\<close>: \<^verbatim>\<open>read.rs\<close>, from JSON arguments to a transaction and back from its result.
  \<^item> \<open>Url_Validation\<close>: \<^verbatim>\<open>url_validation.rs\<close>, the guard against requests to internal addresses.
  \<^item> \<open>Webhook_Enqueue\<close>, \<open>Webhook_Deliver\<close>: \<^verbatim>\<open>dispatcher.rs\<close>, \<^verbatim>\<open>prune.rs\<close> and \<^verbatim>\<open>webhook.rs\<close>. The three streams that fill the queue
    share the locale \<open>watermark_stream\<close>; the queue is a step relation with any number of workers.
  \<^item> \<open>Rpc_Client\<close>: \<^verbatim>\<open>rpc_client.rs\<close>, the retry and failover loop and the ledger reads.
  \<^item> \<open>Store\<close>: \<^verbatim>\<open>convert.rs\<close> and \<^verbatim>\<open>store.rs\<close>; the four projections share the locale \<open>projection\<close>.
  \<^item> \<open>Spec_Cache\<close>: \<^verbatim>\<open>specs.rs\<close>; the LRU container is the locale \<open>lru_cache\<close>, interpreted by a list.
  \<^item> \<open>Snapshots\<close>: \<^verbatim>\<open>keys.rs\<close> and \<^verbatim>\<open>state.rs\<close>.
  \<^item> \<open>Ledger_Cursor\<close>: \<^verbatim>\<open>cursor.rs\<close>, with its optimistic lock.
  \<^item> \<open>Poller\<close>, \<open>Poller_Accounting\<close>, \<open>Gap_Replay\<close>: \<^verbatim>\<open>poller.rs\<close>, one cycle and the replay of missed ranges; the
    accounting invariant; histories of cycles and replays.
  \<^item> \<open>Retention\<close>: \<^verbatim>\<open>retention.rs\<close>; the four deletion statements share the locale \<open>batch_delete\<close>.
  \<^item> \<open>Poll_Run\<close>: the outer loop of \<^verbatim>\<open>poller.rs\<close>.

  State is a record of the tables a component reads and writes, passed explicitly; a statement that commits on its own is one
  function on it, and a transaction is one function that returns either the new tables or an error. Errors are the left of
  a sum. Panics of the code are values too (\<open>index_panic\<close>), so that their absence can be stated.

  \<^bold>\<open>What is shown.\<close>

  \<^item> Values: texts of 128 and 256 bit integers are canonical and parse back to the same limbs; the byte reader inverts
    the XDR encoding within its depth limit, stays inside its buffer, and agrees with the typed decoder except on colliding keys.
  \<^item> Interfaces: the section walk finds the first custom section of that name and only slices of its input; an interface
    consists of the entries that decode; the lookups by hash equal scans; enrichment picks the longest prefix and never
    panics; a diff is breaking exactly when some declared item says so.
  \<^item> Reading: an encoded call has the declared arity and types, and nothing in the read layer panics.
  \<^item> Webhooks: every matching pair of event and subscription is enqueued exactly once; over any interleaving of workers a row
    is held by at most one lease, finished rows stay finished, and a failing delivery ends after its attempts within the
    bounds of the retry schedule; no delivery goes to a special address.
  \<^item> Ingestion: no ledger between the start and the cursor is lost, it is stored or in an open missed range; cycles and
    replays end; storing is idempotent and keeps the projections; a call returns the first settling answer; batched reads
    are aligned; the version history is a chain; the cursor admits one writer; a retention pass keeps everything
    current and otherwise removes exactly what is due; the sleeps follow the backoff schedule.
  \<^item> Behaviours that need attention have theorems of their own: an unparseable timestamp ends the paging, a failed
    first cycle forgets the start ledger, a finished delivery blocks retention, a re-scan stores events without their
    projections, and others next to the definitions they are about.

  \<^bold>\<open>Loops and bounds.\<close> Loops over finite data are structural. The byte reader recurses with the depth the code counts, so no
  extra fuel is needed. The paging loops may run for as long as the source has pages: they are \<^verbatim>\<open>partial_function\<close>s
  into options, and termination is a theorem about sources that page through a finite chain. The claim loop of the
  webhook service is treated the same way. The retry loop is bounded by the constants of the code. Machine integers are
  words where they can wrap (limbs, counters, lengths, offsets); ledger numbers and ids, \<^verbatim>\<open>i64\<close> columns far from their
  bounds, are integers.

  \<^bold>\<open>Parameters.\<close> Code outside the repository is an argument of the definitions that use it: the XDR reader and writer of
  \<^verbatim>\<open>stellar-xdr\<close>, strkey addresses, base64, SHA-256 and HMAC, float and time formatting, the random source, hash
  iteration orders, the answers of RPC and HTTP endpoints, DNS, and PostgreSQL's JSON operators and row order. What a theorem
  needs of them is a hypothesis that states documented behaviour, with a witness that meets it. A database statement
  that violates no constraint is taken to succeed.

  \<^bold>\<open>Not modelled.\<close> The HTTP handlers of the API with its authentication, rate limits and GraphQL schema, the code
  generator, the MCP server, backfill commands, service start-up, configuration, metrics and logging, the SDKs and the
  explorer. Concurrency inside one process is modelled where state is shared (webhook workers, cursor writers), not in the RPC
  client and the spec cache, which the poller uses sequentially.
\<close>

end
